(* ===== verification/Lab_Prelude.thy ===== *)
theory Lab_Prelude
  imports Main "HOL-Library.Word"
begin

text \<open>
  What the components share: Go run-time panics as values, Go slice operations with their
  bounds checks, integer helpers, majorities, and reachability in a step relation together
  with the interface by which a component's invariant is lifted to every reachable state.
\<close>

named_theorems go_simps \<open>equations of the Go slice and error operations\<close>

section \<open>Panics as values\<close>

text \<open>
  A goroutine that indexes or slices out of range panics; \<open>log.Fatalf\<close> and \<open>os.Exit\<close> end the process.
  Code that can do so returns \<open>Inl\<close> of the reason, and \<open>go_bind\<close> is sequencing.
\<close>

datatype go_error =
  IndexOutOfRange | SliceOutOfRange | NilDereference | TypeAssertion | Fatal string | Exit int

type_synonym 'a go = "go_error + 'a"

type_synonym byte = "8 word"

fun go_bind :: "'a go \<Rightarrow> ('a \<Rightarrow> 'b go) \<Rightarrow> 'b go" where
  "go_bind (Inl e) f = Inl e"
| "go_bind (Inr x) f = f x"

lemma go_bind_Inr_iff: "go_bind m f = Inr y \<longleftrightarrow> (\<exists>x. m = Inr x \<and> f x = Inr y)"
  by (cases m) auto

lemma go_bind_Inl_iff:
  "go_bind m f = Inl e \<longleftrightarrow> m = Inl e \<or> (\<exists>x. m = Inr x \<and> f x = Inl e)"
  by (cases m) auto

lemma go_bind_assoc: "go_bind (go_bind m f) g = go_bind m (\<lambda>x. go_bind (f x) g)"
  by (cases m) auto

lemma go_bind_Inr_right [simp]: "go_bind m Inr = m"
  by (cases m) auto

lemma go_bind_cong [fundef_cong]:
  "m = m' \<Longrightarrow> (\<And>x. m' = Inr x \<Longrightarrow> f x = f' x) \<Longrightarrow> go_bind m f = go_bind m' f'"
  by (cases m') auto

section \<open>Loops that may panic\<close>

fun go_fold :: "('a \<Rightarrow> 's \<Rightarrow> 's go) \<Rightarrow> 'a list \<Rightarrow> 's \<Rightarrow> 's go" where
  "go_fold f [] s = Inr s"
| "go_fold f (x # xs) s = go_bind (f x s) (go_fold f xs)"

lemma go_fold_append: "go_fold f (xs @ ys) s = go_bind (go_fold f xs s) (go_fold f ys)"
  by (induction xs arbitrary: s) (simp_all add: go_bind_assoc cong: go_bind_cong)

lemma go_fold_Nil [simp]: "go_fold f [] = Inr"
  by (rule ext) simp

lemma go_fold_invariant:
  assumes "go_fold f xs s = Inr t" and "I s"
    and "\<And>x s t. x \<in> set xs \<Longrightarrow> f x s = Inr t \<Longrightarrow> I s \<Longrightarrow> I t"
  shows "I t"
  using assms
proof (induction xs arbitrary: s)
  case (Cons x xs)
  obtain s1 where s1: "f x s = Inr s1" "go_fold f xs s1 = Inr t" using Cons.prems(1) by (auto simp: go_bind_Inr_iff)
  have "I s1" using Cons.prems(3) [OF _ s1(1) Cons.prems(2)] by simp
  then show ?case using Cons.IH [OF s1(2)] Cons.prems(3) by auto
qed simp

section \<open>Slices\<close>

text \<open>
  \<open>xs[i]\<close>, \<open>xs[i:]\<close>, \<open>xs[:i]\<close> and \<open>xs[i] = v\<close>. The upper bound of \<open>xs[:i]\<close> is the
  length: every such expression of the sources is guarded by it, so the capacity of the
  underlying array never matters.
\<close>

definition go_nth :: "'a list \<Rightarrow> int \<Rightarrow> 'a go" where
  "go_nth xs i =
     (if 0 \<le> i \<and> i < int (length xs) then Inr (xs ! nat i) else Inl IndexOutOfRange)"

definition go_from :: "'a list \<Rightarrow> int \<Rightarrow> 'a list go" where
  "go_from xs i =
     (if 0 \<le> i \<and> i \<le> int (length xs) then Inr (drop (nat i) xs) else Inl SliceOutOfRange)"

definition go_upto :: "'a list \<Rightarrow> int \<Rightarrow> 'a list go" where
  "go_upto xs i =
     (if 0 \<le> i \<and> i \<le> int (length xs) then Inr (take (nat i) xs) else Inl SliceOutOfRange)"

definition go_set :: "'a list \<Rightarrow> int \<Rightarrow> 'a \<Rightarrow> 'a list go" where
  "go_set xs i v =
     (if 0 \<le> i \<and> i < int (length xs) then Inr (xs[nat i := v]) else Inl IndexOutOfRange)"

lemma go_nth_in [go_simps]:
  "0 \<le> i \<Longrightarrow> i < int (length xs) \<Longrightarrow> go_nth xs i = Inr (xs ! nat i)"
  by (simp add: go_nth_def)

lemma go_nth_out [go_simps]: "i < 0 \<or> int (length xs) \<le> i \<Longrightarrow> go_nth xs i = Inl IndexOutOfRange"
  by (auto simp: go_nth_def)

lemma go_nth_Inr_iff:
  "go_nth xs i = Inr x \<longleftrightarrow> 0 \<le> i \<and> i < int (length xs) \<and> xs ! nat i = x"
  by (auto simp: go_nth_def)

lemma go_nth_set: "go_nth xs i = Inr x \<Longrightarrow> x \<in> set xs"
  by (auto simp: go_nth_def split: if_splits)

lemma go_from_in [go_simps]:
  "0 \<le> i \<Longrightarrow> i \<le> int (length xs) \<Longrightarrow> go_from xs i = Inr (drop (nat i) xs)"
  by (simp add: go_from_def)

lemma go_from_Inr_iff:
  "go_from xs i = Inr ys \<longleftrightarrow> 0 \<le> i \<and> i \<le> int (length xs) \<and> ys = drop (nat i) xs"
  by (auto simp: go_from_def)

lemma go_upto_in [go_simps]:
  "0 \<le> i \<Longrightarrow> i \<le> int (length xs) \<Longrightarrow> go_upto xs i = Inr (take (nat i) xs)"
  by (simp add: go_upto_def)

lemma go_upto_Inr_iff:
  "go_upto xs i = Inr ys \<longleftrightarrow> 0 \<le> i \<and> i \<le> int (length xs) \<and> ys = take (nat i) xs"
  by (auto simp: go_upto_def)

lemma go_set_Inr_iff:
  "go_set xs i v = Inr ys \<longleftrightarrow> 0 \<le> i \<and> i < int (length xs) \<and> ys = xs[nat i := v]"
  by (auto simp: go_set_def)

lemma go_set_length: "go_set xs i v = Inr ys \<Longrightarrow> length ys = length xs"
  by (auto simp: go_set_Inr_iff)

lemmas go_Inr_iffs = go_bind_Inr_iff go_nth_Inr_iff go_from_Inr_iff go_upto_Inr_iff
  go_set_Inr_iff

section \<open>Integers\<close>

text \<open>Go's \<open>/\<close> on signed integers truncates towards zero.\<close>

definition go_quot :: "int \<Rightarrow> int \<Rightarrow> int" where
  "go_quot a b = sgn a * sgn b * (\<bar>a\<bar> div \<bar>b\<bar>)"

lemma go_quot_nonneg [simp]: "0 \<le> a \<Longrightarrow> 0 < b \<Longrightarrow> go_quot a b = a div b"
  by (cases "a = 0") (auto simp: go_quot_def)

section \<open>Majorities\<close>

text \<open>Two sets that each hold more than half of \<open>E\<close> share an element.\<close>

lemma majorities_meet:
  assumes "finite E" and "S \<subseteq> E" and "T \<subseteq> E"
    and "card E div 2 < card S" and "card E div 2 < card T"
  obtains x where "x \<in> S" and "x \<in> T"
proof (cases "S \<inter> T = {}")
  case True
  have fin: "finite S" "finite T"
    using assms(1-3) by (auto dest: finite_subset)
  have "card S + card T = card (S \<union> T)"
    using fin True by (simp add: card_Un_disjoint)
  also have "\<dots> \<le> card E"
    using assms(1-3) by (intro card_mono) auto
  finally show ?thesis
    using assms(4,5) by linarith
next
  case False
  then show ?thesis using that by blast
qed

section \<open>Reachable states and invariants\<close>

inductive reaches :: "('s \<Rightarrow> bool) \<Rightarrow> ('s \<Rightarrow> 's \<Rightarrow> bool) \<Rightarrow> 's \<Rightarrow> bool"
  for init :: "'s \<Rightarrow> bool" and trans_step :: "'s \<Rightarrow> 's \<Rightarrow> bool" where
  reaches_init: "init s \<Longrightarrow> reaches init trans_step s"
| reaches_step: "reaches init trans_step s \<Longrightarrow> trans_step s t \<Longrightarrow> reaches init trans_step t"

text \<open>
  The contract between a component and the proofs about its runs: an invariant that the
  start states have and every step keeps.
\<close>

locale inductive_invariant =
  fixes init :: "'s \<Rightarrow> bool" and trans_step :: "'s \<Rightarrow> 's \<Rightarrow> bool" and invar :: "'s \<Rightarrow> bool"
  assumes invar_init: "init s \<Longrightarrow> invar s"
    and invar_step: "invar s \<Longrightarrow> trans_step s t \<Longrightarrow> invar t"
begin

lemma invar_reaches: "reaches init trans_step s \<Longrightarrow> invar s"
  by (induction rule: reaches.induct) (auto intro: invar_init invar_step)

lemma invar_rtranclp: "trans_step\<^sup>*\<^sup>* s t \<Longrightarrow> invar s \<Longrightarrow> invar t"
  by (induction rule: rtranclp_induct) (auto intro: invar_step)

end

lemma reaches_mono:
  assumes "reaches init stp s" and "\<And>s t. stp s t \<Longrightarrow> stp' s t"
  shows "reaches init stp' s"
  using assms(1)
  by (induction rule: reaches.induct) (auto intro: reaches.intros assms(2))

lemma reaches_rtranclp: "stp\<^sup>*\<^sup>* s t \<Longrightarrow> reaches init stp s \<Longrightarrow> reaches init stp t"
  by (induction rule: rtranclp_induct) (auto intro: reaches_step)

end
