(* ===== verification/Persister.thy ===== *)
theory Persister
  imports Lab_Prelude
begin

text \<open>
  \<open>src/raft/persister.go\<close>: the object that survives a crash. It holds the encoded Raft state
  and the service's snapshot; every method is one critical section of its mutex, so each is
  one function on the record. A nil slice and an empty one read the same way (\<open>clone\<close>).

  The interface the Raft code relies on is the locale \<open>stable_storage\<close>, interpreted at the
  end on the methods of the persister.
\<close>

record ('b, 's) persister =
  raftstate :: "'b list"
  snapshot :: "'s list"

definition MakePersister :: "('b, 's) persister" where
  "MakePersister = \<lparr>raftstate = [], snapshot = []\<rparr>"

text \<open>\<open>make\<close> a slice of the same length, then \<open>copy\<close> the elements one by one.\<close>

definition clone_bytes :: "'a list \<Rightarrow> 'a list" where
  "clone_bytes orig = map (\<lambda>i. orig ! i) [0..<length orig]"

definition Copy :: "('b, 's) persister \<Rightarrow> ('b, 's) persister" where
  "Copy ps = MakePersister\<lparr>raftstate := raftstate ps, snapshot := snapshot ps\<rparr>"

definition SaveRaftState :: "'b list \<Rightarrow> ('b, 's) persister \<Rightarrow> ('b, 's) persister" where
  "SaveRaftState state ps = ps\<lparr>raftstate := clone_bytes state\<rparr>"

definition ReadRaftState :: "('b, 's) persister \<Rightarrow> 'b list" where
  "ReadRaftState ps = clone_bytes (raftstate ps)"

definition RaftStateSize :: "('b, 's) persister \<Rightarrow> nat" where
  "RaftStateSize ps = length (raftstate ps)"

definition SaveStateAndSnapshot ::
  "'b list \<Rightarrow> 's list \<Rightarrow> ('b, 's) persister \<Rightarrow> ('b, 's) persister" where
  "SaveStateAndSnapshot state snap ps =
     ps\<lparr>raftstate := clone_bytes state, snapshot := clone_bytes snap\<rparr>"

definition ReadSnapshot :: "('b, 's) persister \<Rightarrow> 's list" where
  "ReadSnapshot ps = clone_bytes (snapshot ps)"

definition SnapshotSize :: "('b, 's) persister \<Rightarrow> nat" where
  "SnapshotSize ps = length (snapshot ps)"

lemma clone_bytes_id [simp]: "clone_bytes xs = xs"
  by (simp add: clone_bytes_def map_nth)

lemmas persister_defs = MakePersister_def Copy_def SaveRaftState_def ReadRaftState_def
  RaftStateSize_def SaveStateAndSnapshot_def ReadSnapshot_def SnapshotSize_def

section \<open>The interface the Raft code uses\<close>

locale stable_storage =
  fixes fresh :: 'p
    and save :: "'b list \<Rightarrow> 'p \<Rightarrow> 'p"
    and save_both :: "'b list \<Rightarrow> 's list \<Rightarrow> 'p \<Rightarrow> 'p"
    and dup :: "'p \<Rightarrow> 'p"
    and read_state :: "'p \<Rightarrow> 'b list"
    and read_snap :: "'p \<Rightarrow> 's list"
  assumes fresh_state [simp]: "read_state fresh = []"
    and fresh_snap [simp]: "read_snap fresh = []"
    and save_state [simp]: "read_state (save d p) = d"
    and save_snap [simp]: "read_snap (save d p) = read_snap p"
    and both_state [simp]: "read_state (save_both d s p) = d"
    and both_snap [simp]: "read_snap (save_both d s p) = s"
    and dup_state [simp]: "read_state (dup p) = read_state p"
    and dup_snap [simp]: "read_snap (dup p) = read_snap p"
begin

text \<open>What \<open>crash1\<close> of the tester does with a persister: copy it, read both parts back, and
  save them into a fresh one. Nothing is lost.\<close>

lemma crash_copy:
  "read_state (save_both (read_state (dup p)) (read_snap (dup p)) fresh) = read_state p"
  "read_snap (save_both (read_state (dup p)) (read_snap (dup p)) fresh) = read_snap p"
  by simp_all

text \<open>Of a sequence of saves only the last is read back; the snapshot is the last one saved
  together with a state.\<close>

lemma last_save_wins: "read_state (fold save ds p) = (if ds = [] then read_state p else last ds)"
  by (induction ds rule: rev_induct) auto

lemma saves_keep_snap: "read_snap (fold save ds p) = read_snap p"
  by (induction ds rule: rev_induct) auto

end

interpretation ps: stable_storage MakePersister SaveRaftState SaveStateAndSnapshot Copy
  ReadRaftState ReadSnapshot
  by unfold_locales (simp_all add: persister_defs)

end
