(* ===== verification/Raft_State.thy ===== *)
theory Raft_State
  imports Persister
begin

text \<open>
  The state of one Raft peer (\<open>src/raft/raft.go\<close>, type \<open>Raft\<close>) and the operations that
  neither vote nor replicate: persistence and recovery, leader and candidate transitions,
  the election timer, \<open>GetState\<close>, \<open>Start\<close>, \<open>Kill\<close> and \<open>Make\<close>.

  A critical section of \<open>rf.mu\<close> is one function on the record. \<open>rf.peers\<close> is only ever
  measured and called, so the record keeps its length. Messages sent on the channel
  \<open>rf.sender\<close> are collected in order in the field \<open>sender\<close>. Terms and indices are Go
  \<open>int\<close>s far from overflow and are modelled as \<open>int\<close>; time is an \<open>int\<close> of milliseconds,
  passed in with the random number of \<open>rand.Intn(1000)\<close> where the code reads them.
\<close>

section \<open>Data\<close>

record 'c entry =
  Command :: "'c option"
  Term :: int

record 'c ApplyMsg =
  am_CommandValid :: bool
  am_Command :: "'c option"
  am_CommandIndex :: int
  am_SnapshotValid :: bool
  am_Snapshot :: "byte list"
  am_SnapshotTerm :: int
  am_SnapshotIndex :: int

text \<open>
  A gob stream is modelled by the values encoded into it, in order: \<open>Encode\<close> appends one,
  \<open>Decode\<close> takes the next and fails on a value of another type or at the end.
\<close>

datatype 'c gobval = GobInt int | GobLog "'c entry list"

type_synonym 'c raft_persister = "('c gobval, byte) persister"

record 'c raft =
  peers :: nat
  me :: int
  dead :: int
  leaderId :: int
  currentTerm :: int
  voteFor :: int
  Log :: "'c entry list"
  commitIndex :: int
  lastApplied :: int
  nextIndex :: "int list"
  matchIndex :: "int list"
  sender :: "'c ApplyMsg list"
  electionTimeout :: int
  lastAppliedIndex :: int
  lastAppliedTerm :: int
  rf_persister :: "'c raft_persister"

type_synonym 'c hard_state = "int \<times> int \<times> 'c entry list \<times> int \<times> int"

definition hard_state :: "'c raft \<Rightarrow> 'c hard_state" where
  "hard_state rf =
     (currentTerm rf, voteFor rf, Log rf, lastAppliedIndex rf, lastAppliedTerm rf)"

section \<open>Helpers of util.go\<close>

definition RandomTime :: "int \<Rightarrow> int" where
  "RandomTime rnd = rnd * 1 + 1 * 800"

definition go_min :: "int \<Rightarrow> int \<Rightarrow> int" where
  "go_min num1 num2 = (if num1 > num2 then num2 else num1)"

lemma go_min_eq [simp]: "go_min a b = min a b"
  by (simp add: go_min_def min_def)

section \<open>Encoding of the persistent state\<close>

definition gob_encode :: "'c gobval \<Rightarrow> 'c gobval list \<Rightarrow> 'c gobval list" where
  "gob_encode v w = w @ [v]"

fun gob_decode_int :: "'c gobval list \<Rightarrow> (int \<times> 'c gobval list) option" where
  "gob_decode_int (GobInt i # r) = Some (i, r)"
| "gob_decode_int _ = None"

fun gob_decode_log :: "'c gobval list \<Rightarrow> ('c entry list \<times> 'c gobval list) option" where
  "gob_decode_log (GobLog l # r) = Some (l, r)"
| "gob_decode_log _ = None"

definition encode_raftstate :: "'c hard_state \<Rightarrow> 'c gobval list" where
  "encode_raftstate h = (case h of (t, v, l, i, lt) \<Rightarrow>
     gob_encode (GobInt lt) (gob_encode (GobInt i) (gob_encode (GobLog l)
       (gob_encode (GobInt v) (gob_encode (GobInt t) [])))))"

definition decode_raftstate :: "'c gobval list \<Rightarrow> 'c hard_state option" where
  "decode_raftstate data =
     (case gob_decode_int data of None \<Rightarrow> None | Some (t, d1) \<Rightarrow>
     (case gob_decode_int d1 of None \<Rightarrow> None | Some (v, d2) \<Rightarrow>
     (case gob_decode_log d2 of None \<Rightarrow> None | Some (l, d3) \<Rightarrow>
     (case gob_decode_int d3 of None \<Rightarrow> None | Some (i, d4) \<Rightarrow>
     (case gob_decode_int d4 of None \<Rightarrow> None | Some (lt, d5) \<Rightarrow> Some (t, v, l, i, lt))))))"

section \<open>Operations\<close>

definition persist :: "'c raft \<Rightarrow> 'c raft" where
  "persist rf =
     rf\<lparr>rf_persister := SaveRaftState (encode_raftstate (hard_state rf)) (rf_persister rf)\<rparr>"

definition readPersist :: "'c gobval list \<Rightarrow> 'c raft \<Rightarrow> 'c raft" where
  "readPersist data rf =
     (if data = [] then rf
      else case decode_raftstate data of
          None \<Rightarrow> rf
        | Some (t, v, l, i, lt) \<Rightarrow>
            rf\<lparr>currentTerm := t, voteFor := v, Log := l,
               lastAppliedIndex := i, lastAppliedTerm := lt\<rparr>)"

definition GetState :: "'c raft \<Rightarrow> int \<times> bool" where
  "GetState rf = (currentTerm rf, leaderId rf = me rf)"

definition updateCurrentTerm :: "int \<Rightarrow> 'c raft \<Rightarrow> 'c raft" where
  "updateCurrentTerm t rf = persist (rf\<lparr>currentTerm := t\<rparr>)"

definition updateVoteFor :: "int \<Rightarrow> 'c raft \<Rightarrow> 'c raft" where
  "updateVoteFor candidateId rf = persist (rf\<lparr>voteFor := candidateId\<rparr>)"

definition beLeaer :: "'c raft \<Rightarrow> 'c raft" where
  "beLeaer rf =
     (let n = int (length (Log rf)) + lastAppliedIndex rf + 1
      in rf\<lparr>leaderId := me rf,
            nextIndex := replicate (peers rf) n,
            matchIndex := replicate (peers rf) (n - 1)\<rparr>)"

definition beCandidate :: "'c raft \<Rightarrow> 'c raft" where
  "beCandidate rf =
     (let rf1 = updateCurrentTerm (currentTerm rf + 1) rf;
          rf2 = updateVoteFor (me rf1) rf1
      in rf2\<lparr>leaderId := -1\<rparr>)"

definition updateElectionTimeout :: "int \<Rightarrow> int \<Rightarrow> 'c raft \<Rightarrow> 'c raft" where
  "updateElectionTimeout now rnd rf = rf\<lparr>electionTimeout := now + RandomTime rnd\<rparr>"

definition isTimeout :: "int \<Rightarrow> 'c raft \<Rightarrow> bool" where
  "isTimeout now rf \<longleftrightarrow> electionTimeout rf < now"

definition Start :: "'c \<Rightarrow> 'c raft \<Rightarrow> 'c raft \<times> int \<times> int \<times> bool" where
  "Start command rf =
     (let t = currentTerm rf; isLeader = (leaderId rf = me rf)
      in if isLeader
         then (persist (rf\<lparr>Log := Log rf @ [\<lparr>Command = Some command, Term = t\<rparr>]\<rparr>),
               int (length (Log rf)) + lastAppliedIndex rf + 1, t, isLeader)
         else (rf, -1, t, isLeader))"

definition Kill :: "'c raft \<Rightarrow> 'c raft" where
  "Kill rf = rf\<lparr>dead := 1\<rparr>"

definition killed :: "'c raft \<Rightarrow> bool" where
  "killed rf \<longleftrightarrow> dead rf = 1"

definition Make :: "nat \<Rightarrow> int \<Rightarrow> 'c raft_persister \<Rightarrow> int \<Rightarrow> int \<Rightarrow> 'c raft" where
  "Make n m ps now rnd =
     (let rf0 = \<lparr>peers = n, me = m, dead = 0, leaderId = -1, currentTerm = 0, voteFor = -1,
                 Log = [\<lparr>Command = None, Term = 0\<rparr>], commitIndex = -1, lastApplied = -1,
                 nextIndex = [], matchIndex = [], sender = [], electionTimeout = 0,
                 lastAppliedIndex = -1, lastAppliedTerm = 0, rf_persister = ps\<rparr>;
          rf1 = readPersist (ReadRaftState ps) rf0;
          rf2 = rf1\<lparr>lastApplied := lastAppliedIndex rf1, commitIndex := lastAppliedIndex rf1\<rparr>;
          nxt = int (length (Log rf2)) + lastAppliedIndex rf2 + 1;
          rf3 = rf2\<lparr>nextIndex := replicate n nxt, matchIndex := replicate n (nxt - 1)\<rparr>
      in updateElectionTimeout now rnd rf3)"

section \<open>Frame lemmas\<close>

lemma persist_frame [simp]:
  "peers (persist rf) = peers rf"
  "me (persist rf) = me rf"
  "dead (persist rf) = dead rf"
  "leaderId (persist rf) = leaderId rf"
  "currentTerm (persist rf) = currentTerm rf"
  "voteFor (persist rf) = voteFor rf"
  "Log (persist rf) = Log rf"
  "commitIndex (persist rf) = commitIndex rf"
  "lastApplied (persist rf) = lastApplied rf"
  "nextIndex (persist rf) = nextIndex rf"
  "matchIndex (persist rf) = matchIndex rf"
  "sender (persist rf) = sender rf"
  "electionTimeout (persist rf) = electionTimeout rf"
  "lastAppliedIndex (persist rf) = lastAppliedIndex rf"
  "lastAppliedTerm (persist rf) = lastAppliedTerm rf"
  by (simp_all add: persist_def)

lemma updateCurrentTerm_frame [simp]:
  "peers (updateCurrentTerm t rf) = peers rf"
  "me (updateCurrentTerm t rf) = me rf"
  "dead (updateCurrentTerm t rf) = dead rf"
  "leaderId (updateCurrentTerm t rf) = leaderId rf"
  "voteFor (updateCurrentTerm t rf) = voteFor rf"
  "Log (updateCurrentTerm t rf) = Log rf"
  "commitIndex (updateCurrentTerm t rf) = commitIndex rf"
  "lastApplied (updateCurrentTerm t rf) = lastApplied rf"
  "nextIndex (updateCurrentTerm t rf) = nextIndex rf"
  "matchIndex (updateCurrentTerm t rf) = matchIndex rf"
  "sender (updateCurrentTerm t rf) = sender rf"
  "electionTimeout (updateCurrentTerm t rf) = electionTimeout rf"
  "lastAppliedIndex (updateCurrentTerm t rf) = lastAppliedIndex rf"
  "lastAppliedTerm (updateCurrentTerm t rf) = lastAppliedTerm rf"
  by (simp_all add: updateCurrentTerm_def)

lemma updateVoteFor_frame [simp]:
  "peers (updateVoteFor c rf) = peers rf"
  "me (updateVoteFor c rf) = me rf"
  "dead (updateVoteFor c rf) = dead rf"
  "leaderId (updateVoteFor c rf) = leaderId rf"
  "currentTerm (updateVoteFor c rf) = currentTerm rf"
  "Log (updateVoteFor c rf) = Log rf"
  "commitIndex (updateVoteFor c rf) = commitIndex rf"
  "lastApplied (updateVoteFor c rf) = lastApplied rf"
  "nextIndex (updateVoteFor c rf) = nextIndex rf"
  "matchIndex (updateVoteFor c rf) = matchIndex rf"
  "sender (updateVoteFor c rf) = sender rf"
  "electionTimeout (updateVoteFor c rf) = electionTimeout rf"
  "lastAppliedIndex (updateVoteFor c rf) = lastAppliedIndex rf"
  "lastAppliedTerm (updateVoteFor c rf) = lastAppliedTerm rf"
  by (simp_all add: updateVoteFor_def)

lemma updateElectionTimeout_frame [simp]:
  "peers (updateElectionTimeout now rnd rf) = peers rf"
  "me (updateElectionTimeout now rnd rf) = me rf"
  "dead (updateElectionTimeout now rnd rf) = dead rf"
  "leaderId (updateElectionTimeout now rnd rf) = leaderId rf"
  "currentTerm (updateElectionTimeout now rnd rf) = currentTerm rf"
  "voteFor (updateElectionTimeout now rnd rf) = voteFor rf"
  "Log (updateElectionTimeout now rnd rf) = Log rf"
  "commitIndex (updateElectionTimeout now rnd rf) = commitIndex rf"
  "lastApplied (updateElectionTimeout now rnd rf) = lastApplied rf"
  "nextIndex (updateElectionTimeout now rnd rf) = nextIndex rf"
  "matchIndex (updateElectionTimeout now rnd rf) = matchIndex rf"
  "sender (updateElectionTimeout now rnd rf) = sender rf"
  "lastAppliedIndex (updateElectionTimeout now rnd rf) = lastAppliedIndex rf"
  "lastAppliedTerm (updateElectionTimeout now rnd rf) = lastAppliedTerm rf"
  "rf_persister (updateElectionTimeout now rnd rf) = rf_persister rf"
  by (simp_all add: updateElectionTimeout_def)

lemma beLeaer_frame [simp]:
  "peers (beLeaer rf) = peers rf"
  "me (beLeaer rf) = me rf"
  "dead (beLeaer rf) = dead rf"
  "currentTerm (beLeaer rf) = currentTerm rf"
  "voteFor (beLeaer rf) = voteFor rf"
  "Log (beLeaer rf) = Log rf"
  "commitIndex (beLeaer rf) = commitIndex rf"
  "lastApplied (beLeaer rf) = lastApplied rf"
  "sender (beLeaer rf) = sender rf"
  "electionTimeout (beLeaer rf) = electionTimeout rf"
  "lastAppliedIndex (beLeaer rf) = lastAppliedIndex rf"
  "lastAppliedTerm (beLeaer rf) = lastAppliedTerm rf"
  "rf_persister (beLeaer rf) = rf_persister rf"
  by (simp_all add: beLeaer_def Let_def)

lemma written_fields [simp]:
  "currentTerm (updateCurrentTerm t rf) = t"
  "voteFor (updateVoteFor c rf) = c"
  "leaderId (beLeaer rf) = me rf"
  by (simp_all add: updateCurrentTerm_def updateVoteFor_def beLeaer_def Let_def)

lemma hard_state_frame [simp]:
  "hard_state (persist rf) = hard_state rf"
  "hard_state (updateElectionTimeout now rnd rf) = hard_state rf"
  "hard_state (beLeaer rf) = hard_state rf"
  by (simp_all add: hard_state_def)

section \<open>Persistence and recovery\<close>

text \<open>The contract of the encoder: what was encoded is decoded, and no encoding is empty.\<close>

locale gob_codec =
  fixes enc :: "'x \<Rightarrow> 'b list" and dec :: "'b list \<Rightarrow> 'x option"
  assumes dec_enc [simp]: "dec (enc x) = Some x"
    and enc_nonempty [simp]: "enc x \<noteq> []"
begin

lemma enc_inject: "enc x = enc y \<longleftrightarrow> x = y"
  by (metis dec_enc option.inject)

end

interpretation gob: gob_codec encode_raftstate decode_raftstate
  by unfold_locales
    (auto simp: encode_raftstate_def decode_raftstate_def gob_encode_def split: prod.splits)

text \<open>
  The state a restart finds in the persister: the defaults of \<open>Make\<close> when nothing was
  saved, the decoded state otherwise. A peer is \<^emph>\<open>synced\<close> when a crash now would lose
  nothing.
\<close>

definition boot_state :: "'c hard_state" where
  "boot_state = (0, -1, [\<lparr>Command = None, Term = 0\<rparr>], -1, 0)"

definition durable :: "'c raft_persister \<Rightarrow> 'c hard_state option" where
  "durable ps =
     (if ReadRaftState ps = [] then Some boot_state else decode_raftstate (ReadRaftState ps))"

definition synced :: "'c raft \<Rightarrow> bool" where
  "synced rf \<longleftrightarrow> durable (rf_persister rf) = Some (hard_state rf)"

lemma durable_save [simp]: "durable (SaveRaftState (encode_raftstate h) ps) = Some h"
  by (simp add: durable_def)

lemma durable_save_both [simp]:
  "durable (SaveStateAndSnapshot (encode_raftstate h) snap ps) = Some h"
  by (simp add: durable_def)

lemma durable_Copy [simp]: "durable (Copy ps) = durable ps"
  by (simp add: durable_def)

lemma synced_persist [simp]: "synced (persist rf)"
  by (simp add: synced_def persist_def hard_state_def)

lemma synced_updates [simp]:
  "synced (updateCurrentTerm t rf)" "synced (updateVoteFor c rf)"
  by (simp_all add: updateCurrentTerm_def updateVoteFor_def)

lemma synced_cong:
  "hard_state rf' = hard_state rf \<Longrightarrow> rf_persister rf' = rf_persister rf \<Longrightarrow>
   synced rf' = synced rf"
  by (simp add: synced_def)

lemma synced_volatile [simp]:
  "synced (updateElectionTimeout now rnd rf) = synced rf"
  "synced (beLeaer rf) = synced rf"
  "synced (rf\<lparr>leaderId := l\<rparr>) = synced rf"
  "synced (rf\<lparr>commitIndex := ci\<rparr>) = synced rf"
  "synced (rf\<lparr>lastApplied := la\<rparr>) = synced rf"
  "synced (rf\<lparr>nextIndex := ni\<rparr>) = synced rf"
  "synced (rf\<lparr>matchIndex := mi\<rparr>) = synced rf"
  "synced (rf\<lparr>sender := sn\<rparr>) = synced rf"
  "synced (rf\<lparr>dead := dd\<rparr>) = synced rf"
  by (simp_all add: synced_def hard_state_def)

text \<open>The weaker half that the vote depends on: the term and the vote on disk are current.\<close>

definition vote_synced :: "'c raft \<Rightarrow> bool" where
  "vote_synced rf \<longleftrightarrow>
     map_option (\<lambda>(t, v, _). (t, v)) (durable (rf_persister rf)) = Some (currentTerm rf, voteFor rf)"

lemma synced_vote_synced: "synced rf \<Longrightarrow> vote_synced rf"
  by (simp add: synced_def vote_synced_def hard_state_def)

lemma vote_synced_persist [simp]:
  "vote_synced (persist rf)" "vote_synced (updateCurrentTerm t rf)"
  "vote_synced (updateVoteFor c rf)"
  by (simp_all add: synced_vote_synced)

lemma vote_synced_volatile [simp]:
  "vote_synced (updateElectionTimeout now rnd rf) = vote_synced rf"
  "vote_synced (beLeaer rf) = vote_synced rf"
  "vote_synced (rf\<lparr>leaderId := l\<rparr>) = vote_synced rf"
  "vote_synced (rf\<lparr>commitIndex := ci\<rparr>) = vote_synced rf"
  "vote_synced (rf\<lparr>lastApplied := la\<rparr>) = vote_synced rf"
  "vote_synced (rf\<lparr>nextIndex := ni\<rparr>) = vote_synced rf"
  "vote_synced (rf\<lparr>matchIndex := mi\<rparr>) = vote_synced rf"
  "vote_synced (rf\<lparr>sender := sn\<rparr>) = vote_synced rf"
  "vote_synced (rf\<lparr>Log := lg\<rparr>) = vote_synced rf"
  "vote_synced (rf\<lparr>lastAppliedIndex := lai\<rparr>) = vote_synced rf"
  "vote_synced (rf\<lparr>lastAppliedTerm := lat\<rparr>) = vote_synced rf"
  by (simp_all add: vote_synced_def)

lemma Make_fields:
  "peers (Make n m ps now rnd) = n"
  "me (Make n m ps now rnd) = m"
  "leaderId (Make n m ps now rnd) = -1"
  "rf_persister (Make n m ps now rnd) = ps"
  "sender (Make n m ps now rnd) = []"
  "lastApplied (Make n m ps now rnd) = lastAppliedIndex (Make n m ps now rnd)"
  "commitIndex (Make n m ps now rnd) = lastAppliedIndex (Make n m ps now rnd)"
  "length (nextIndex (Make n m ps now rnd)) = n"
  "length (matchIndex (Make n m ps now rnd)) = n"
  by (simp_all add: Make_def Let_def readPersist_def split: option.splits prod.splits)

lemma Make_hard_state:
  "hard_state (Make n m ps now rnd) =
     (case durable ps of None \<Rightarrow> boot_state | Some h \<Rightarrow> h)"
  by (auto simp: Make_def Let_def readPersist_def durable_def hard_state_def boot_state_def
      split: option.splits prod.splits)

lemma Make_synced: "durable ps \<noteq> None \<Longrightarrow> synced (Make n m ps now rnd)"
  by (auto simp: synced_def Make_hard_state Make_fields)

lemma Make_vote:
  assumes "vote_synced rf" and "rf_persister rf = ps"
  shows "currentTerm (Make n m ps now rnd) = currentTerm rf"
    and "voteFor (Make n m ps now rnd) = voteFor rf"
    and "vote_synced (Make n m ps now rnd)"
proof -
  obtain h where h: "durable ps = Some h" "(\<lambda>(t, v, _). (t, v)) h = (currentTerm rf, voteFor rf)"
    using assms by (auto simp: vote_synced_def)
  then have "hard_state (Make n m ps now rnd) = h"
    by (simp add: Make_hard_state)
  then show "currentTerm (Make n m ps now rnd) = currentTerm rf"
    "voteFor (Make n m ps now rnd) = voteFor rf"
    using h by (auto simp: hard_state_def)
  show "vote_synced (Make n m ps now rnd)"
    using h by (auto intro: synced_vote_synced Make_synced)
qed

section \<open>The log as a map from indices\<close>

text \<open>
  Entries up to \<open>lastAppliedIndex\<close> live in the snapshot; \<open>Log\<close> holds the rest. Entry \<open>i\<close>
  of the replicated log is \<open>log_at rf i\<close>, and \<open>term_at\<close> also knows the term of the last
  entry in the snapshot.
\<close>

definition lastLogIndex :: "'c raft \<Rightarrow> int" where
  "lastLogIndex rf = int (length (Log rf)) + lastAppliedIndex rf"

definition log_at :: "'c raft \<Rightarrow> int \<Rightarrow> 'c entry option" where
  "log_at rf i =
     (if lastAppliedIndex rf < i \<and> i \<le> lastLogIndex rf
      then Some (Log rf ! nat (i - lastAppliedIndex rf - 1)) else None)"

definition term_at :: "'c raft \<Rightarrow> int \<Rightarrow> int option" where
  "term_at rf i =
     (if i = lastAppliedIndex rf then Some (lastAppliedTerm rf)
      else map_option Term (log_at rf i))"

lemma log_at_None_iff: "log_at rf i = None \<longleftrightarrow> i \<le> lastAppliedIndex rf \<or> lastLogIndex rf < i"
  by (auto simp: log_at_def)

lemma log_at_eq_nth:
  "k < length (Log rf) \<Longrightarrow> log_at rf (lastAppliedIndex rf + 1 + int k) = Some (Log rf ! k)"
  by (simp add: log_at_def lastLogIndex_def)

lemma log_at_cong:
  "Log rf' = Log rf \<Longrightarrow> lastAppliedIndex rf' = lastAppliedIndex rf \<Longrightarrow> log_at rf' = log_at rf"
  by (rule ext) (simp add: log_at_def lastLogIndex_def)

lemma term_at_cong:
  "Log rf' = Log rf \<Longrightarrow> lastAppliedIndex rf' = lastAppliedIndex rf \<Longrightarrow>
   lastAppliedTerm rf' = lastAppliedTerm rf \<Longrightarrow> term_at rf' = term_at rf"
  using log_at_cong [of rf' rf] by (simp add: term_at_def fun_eq_iff)

section \<open>Well-formed peers\<close>

definition terms_ok :: "int \<Rightarrow> int \<Rightarrow> 'c entry list \<Rightarrow> bool" where
  "terms_ok lo hi l \<longleftrightarrow> lo \<le> hi \<and> sorted (lo # map Term l) \<and> (\<forall>e \<in> set l. Term e \<le> hi)"

definition raft_wf :: "'c raft \<Rightarrow> bool" where
  "raft_wf rf \<longleftrightarrow>
     length (nextIndex rf) = peers rf \<and> length (matchIndex rf) = peers rf \<and>
     0 \<le> me rf \<and> me rf < int (peers rf) \<and> -1 \<le> lastAppliedIndex rf \<and>
     terms_ok (lastAppliedTerm rf) (currentTerm rf) (Log rf)"

lemma terms_ok_mono: "terms_ok lo hi l \<Longrightarrow> hi \<le> hi' \<Longrightarrow> terms_ok lo hi' l"
  by (force simp: terms_ok_def)

lemma terms_ok_take: "terms_ok lo hi l \<Longrightarrow> terms_ok lo hi (take n l)"
  by (auto simp: terms_ok_def simp flip: take_map dest!: in_set_takeD intro: sorted_wrt_take)

lemma terms_ok_append:
  "terms_ok lo hi (l1 @ l2) \<longleftrightarrow>
     terms_ok lo hi l1 \<and> terms_ok (if l1 = [] then lo else Term (last l1)) hi l2"
proof (cases l1 rule: rev_cases)
  case (snoc xs x)
  then show ?thesis
    by (force simp: terms_ok_def sorted_append)
qed (simp add: terms_ok_def)

lemma terms_ok_drop:
  assumes "terms_ok lo hi l" and "0 < n" and "n \<le> length l"
  shows "terms_ok (Term (l ! (n - 1))) hi (drop n l)"
proof -
  have "terms_ok lo hi (take n l @ drop n l)"
    using assms(1) by simp
  moreover have ne: "take n l \<noteq> []"
    using assms(2,3) by auto
  moreover have "last (take n l) = l ! (n - 1)"
    using assms(2,3) by (subst last_conv_nth [OF ne]) (simp add: min_absorb2)
  ultimately show ?thesis
    by (simp only: terms_ok_append) simp
qed

lemma raft_wf_volatile [simp]:
  "raft_wf (updateElectionTimeout now rnd rf) = raft_wf rf"
  "raft_wf (persist rf) = raft_wf rf"
  "raft_wf (updateVoteFor c rf) = raft_wf rf"
  "raft_wf (rf\<lparr>leaderId := l\<rparr>) = raft_wf rf"
  "raft_wf (rf\<lparr>commitIndex := ci\<rparr>) = raft_wf rf"
  "raft_wf (rf\<lparr>lastApplied := la\<rparr>) = raft_wf rf"
  "raft_wf (rf\<lparr>sender := sn\<rparr>) = raft_wf rf"
  by (simp_all add: raft_wf_def)

lemma raft_wf_updateCurrentTerm:
  "raft_wf rf \<Longrightarrow> currentTerm rf \<le> t \<Longrightarrow> raft_wf (updateCurrentTerm t rf)"
  by (auto simp: raft_wf_def intro: terms_ok_mono)

lemma raft_wf_beLeaer: "raft_wf rf \<Longrightarrow> raft_wf (beLeaer rf)"
  by (simp add: raft_wf_def) (simp add: beLeaer_def Let_def)

lemma raft_wf_beCandidate: "raft_wf rf \<Longrightarrow> raft_wf (beCandidate rf)"
  by (simp add: beCandidate_def Let_def raft_wf_updateCurrentTerm)

lemma raft_wf_Start: "raft_wf rf \<Longrightarrow> Start c rf = (rf', i, t, b) \<Longrightarrow> raft_wf rf'"
  by (cases "Log rf = []")
    (auto simp: Start_def Let_def raft_wf_def terms_ok_append split: if_splits,
     auto simp: terms_ok_def)

lemma raft_wf_Make:
  assumes "durable ps = Some (t, v, l, i, lt)" and "0 \<le> m" and "m < int n" and "-1 \<le> i"
    and "terms_ok lt t l"
  shows "raft_wf (Make n m ps now rnd)"
proof -
  have "hard_state (Make n m ps now rnd) = (t, v, l, i, lt)"
    using assms(1) by (simp add: Make_hard_state)
  then show ?thesis
    using assms(2-) by (simp add: raft_wf_def Make_fields hard_state_def)
qed

section \<open>Properties\<close>

text \<open>
  C10. Recovery. A peer made from a copy of the persister of a peer that just called
  \<open>persist\<close> has that peer's term, vote, log and snapshot position, and nothing else of it:
  it leads nobody and has applied exactly what the snapshot holds.
\<close>

theorem persist_recovers:
  "hard_state (Make n m (Copy (rf_persister (persist rf))) now rnd) = hard_state rf \<and>
   leaderId (Make n m (Copy (rf_persister (persist rf))) now rnd) = -1 \<and>
   lastApplied (Make n m (Copy (rf_persister (persist rf))) now rnd) = lastAppliedIndex rf \<and>
   commitIndex (Make n m (Copy (rf_persister (persist rf))) now rnd) = lastAppliedIndex rf"
proof -
  have "durable (Copy (rf_persister (persist rf))) = Some (hard_state rf)"
    using synced_persist [of rf] by (simp add: synced_def)
  then have "hard_state (Make n m (Copy (rf_persister (persist rf))) now rnd) = hard_state rf"
    by (simp add: Make_hard_state)
  then show ?thesis
    by (auto simp: Make_fields hard_state_def)
qed

end
