(* ===== verification/Raft_Election.thy ===== *)
theory Raft_Election
  imports Raft_State
begin

text \<open>
  Leader election in \<open>src/raft/raft.go\<close>: the \<open>RequestVote\<close> handler, \<open>startElection\<close> and its
  \<open>electionSender\<close> goroutines.

  \<open>startElection\<close> and \<open>electionSender\<close> give up \<open>rf.mu\<close> in the middle (\<open>cond.Wait\<close>, the
  remote call), so each is two functions, one per critical section. What they keep on their
  stacks (the election's term, \<open>voteCount\<close>, \<open>finished\<close>) is the record \<open>election\<close>. The remote
  call itself is an input: \<open>ok\<close> is false when it fails or takes longer than \<open>RPCTimeout\<close>.
\<close>

section \<open>Messages and the election's local variables\<close>

record RequestVoteArgs =
  rva_Term :: int
  rva_CandidateId :: int
  rva_LastLogIndex :: int
  rva_LastLogTerm :: int

record RequestVoteReply =
  rvr_Term :: int
  rvr_VoteGranted :: bool

record election =
  el_currentTerm :: int
  el_voteCount :: int
  el_finished :: int

section \<open>Operations\<close>

text \<open>Index and term of the last entry, from the log or else from the snapshot.\<close>

definition last_log :: "'c raft \<Rightarrow> int \<times> int" where
  "last_log rf =
     (if length (Log rf) \<noteq> 0
      then (int (length (Log rf)) + lastAppliedIndex rf, Term (Log rf ! (length (Log rf) - 1)))
      else (lastAppliedIndex rf, lastAppliedTerm rf))"

definition RequestVote ::
  "int \<Rightarrow> int \<Rightarrow> RequestVoteArgs \<Rightarrow> 'c raft \<Rightarrow> 'c raft \<times> RequestVoteReply" where
  "RequestVote now rnd args rf =
     (let rep = \<lparr>rvr_Term = currentTerm rf, rvr_VoteGranted = False\<rparr>
      in if rva_Term args < currentTerm rf then (updateElectionTimeout now rnd rf, rep)
      else
        let rf1 = (if rva_Term args > currentTerm rf
                   then (updateVoteFor (-1) (updateCurrentTerm (rva_Term args) rf))\<lparr>leaderId := -1\<rparr>
                   else rf)
        in if voteFor rf1 \<noteq> -1 \<and> voteFor rf1 \<noteq> rva_CandidateId args
           then (updateElectionTimeout now rnd rf1, rep)
        else
          let (lastLogIdx, lastLogTrm) = last_log rf1
          in if rva_LastLogTerm args < lastLogTrm then (updateElectionTimeout now rnd rf1, rep)
          else if rva_LastLogTerm args = lastLogTrm \<and> rva_LastLogIndex args < lastLogIdx
               then (updateElectionTimeout now rnd rf1, rep)
          else (updateElectionTimeout now rnd (updateVoteFor (rva_CandidateId args) rf1),
                rep\<lparr>rvr_VoteGranted := True\<rparr>))"

text \<open>\<open>startElection\<close> up to \<open>rf.cond.Wait()\<close>.\<close>

definition startElection_begin :: "'c raft \<Rightarrow> 'c raft \<times> election" where
  "startElection_begin rf =
     (let rf1 = updateCurrentTerm (currentTerm rf + 1) rf;
          rf2 = updateVoteFor (me rf1) rf1;
          rf3 = rf2\<lparr>leaderId := -1\<rparr>
      in (rf3, \<lparr>el_currentTerm = currentTerm rf3, el_voteCount = 1, el_finished = 0\<rparr>))"

text \<open>The wait loop's exit condition, and what \<open>startElection\<close> does after it.\<close>

definition startElection_done :: "'c raft \<Rightarrow> election \<Rightarrow> bool" where
  "startElection_done rf el \<longleftrightarrow> \<not> (el_finished el \<noteq> int (peers rf) - 1)"

definition startElection_finish :: "int \<Rightarrow> int \<Rightarrow> 'c raft \<Rightarrow> election \<Rightarrow> 'c raft" where
  "startElection_finish now rnd rf el =
     updateElectionTimeout now rnd
       (if el_voteCount el > go_quot (int (peers rf)) 2 then beLeaer rf else rf)"

text \<open>\<open>electionSender\<close> before the call: the request, or none when the term has moved on
  (the goroutine then only counts itself as finished).\<close>

definition electionSender_request :: "int \<Rightarrow> 'c raft \<Rightarrow> RequestVoteArgs option" where
  "electionSender_request elTerm rf =
     (if currentTerm rf \<noteq> elTerm then None
      else Some \<lparr>rva_Term = currentTerm rf, rva_CandidateId = me rf,
                 rva_LastLogIndex = fst (last_log rf), rva_LastLogTerm = snd (last_log rf)\<rparr>)"

definition electionSender_skip :: "election \<Rightarrow> election" where
  "electionSender_skip el = el\<lparr>el_finished := el_finished el + 1\<rparr>"

text \<open>\<open>electionSender\<close> after the call; the deferred increment of \<open>finished\<close> comes last.\<close>

definition electionSender_reply ::
  "bool \<Rightarrow> RequestVoteReply \<Rightarrow> 'c raft \<Rightarrow> election \<Rightarrow> 'c raft \<times> election" where
  "electionSender_reply ok rep rf el =
     (if currentTerm rf \<noteq> el_currentTerm el then (rf, electionSender_skip el)
      else if \<not> ok then (rf, electionSender_skip el)
      else
        let rf1 = (if rvr_Term rep > currentTerm rf
                   then updateVoteFor (-1) (rf\<lparr>currentTerm := rvr_Term rep\<rparr>) else rf);
            el1 = (if rvr_VoteGranted rep then el\<lparr>el_voteCount := el_voteCount el + 1\<rparr> else el)
        in (rf1, electionSender_skip el1))"

section \<open>What the vote handler decides\<close>

text \<open>The candidate's log is at least as up to date: a later last term, or the same term and
  at least the same length.\<close>

definition up_to_date :: "RequestVoteArgs \<Rightarrow> 'c raft \<Rightarrow> bool" where
  "up_to_date args rf \<longleftrightarrow>
     snd (last_log rf) < rva_LastLogTerm args \<or>
     snd (last_log rf) = rva_LastLogTerm args \<and> fst (last_log rf) \<le> rva_LastLogIndex args"

lemma last_log_cong:
  "Log rf' = Log rf \<Longrightarrow> lastAppliedIndex rf' = lastAppliedIndex rf \<Longrightarrow>
   lastAppliedTerm rf' = lastAppliedTerm rf \<Longrightarrow> last_log rf' = last_log rf"
  by (simp add: last_log_def)

lemma last_log_frame [simp]:
  "last_log (persist rf) = last_log rf"
  "last_log (updateCurrentTerm t rf) = last_log rf"
  "last_log (updateVoteFor c rf) = last_log rf"
  "last_log (rf\<lparr>leaderId := l\<rparr>) = last_log rf"
  by (simp_all add: last_log_def)

lemma last_log_index: "fst (last_log rf) = lastLogIndex rf"
  by (simp add: last_log_def lastLogIndex_def)

lemma last_log_term: "term_at rf (lastLogIndex rf) = Some (snd (last_log rf))"
proof (cases "Log rf = []")
  case True
  then show ?thesis by (simp add: last_log_def term_at_def lastLogIndex_def)
next
  case False
  then have "lastAppliedIndex rf < lastLogIndex rf"
    and "nat (lastLogIndex rf - lastAppliedIndex rf - 1) = length (Log rf) - 1"
    by (auto simp: lastLogIndex_def)
  with False show ?thesis by (simp add: last_log_def term_at_def log_at_def)
qed

lemma RequestVote_granted_iff:
  "rvr_VoteGranted (snd (RequestVote now rnd args rf)) \<longleftrightarrow>
     currentTerm rf \<le> rva_Term args \<and>
     (currentTerm rf < rva_Term args \<or> voteFor rf = -1 \<or> voteFor rf = rva_CandidateId args) \<and>
     up_to_date args rf"
  by (cases "last_log rf") (auto simp: RequestVote_def Let_def up_to_date_def)

lemma RequestVote_reply_term: "rvr_Term (snd (RequestVote now rnd args rf)) = currentTerm rf"
  by (simp add: RequestVote_def Let_def split: prod.splits)

lemma RequestVote_term:
  "currentTerm (fst (RequestVote now rnd args rf)) = max (currentTerm rf) (rva_Term args)"
  by (auto simp: RequestVote_def Let_def split: prod.splits)

lemma RequestVote_vote:
  "voteFor (fst (RequestVote now rnd args rf)) =
     (if rvr_VoteGranted (snd (RequestVote now rnd args rf)) then rva_CandidateId args
      else if currentTerm rf < rva_Term args then -1 else voteFor rf)"
  by (auto simp: RequestVote_def Let_def split: prod.splits)

lemma RequestVote_leader:
  "leaderId (fst (RequestVote now rnd args rf)) =
     (if currentTerm rf < rva_Term args then -1 else leaderId rf)"
  by (auto simp: RequestVote_def Let_def split: prod.splits)

lemma RequestVote_frame [simp]:
  "peers (fst (RequestVote now rnd args rf)) = peers rf"
  "me (fst (RequestVote now rnd args rf)) = me rf"
  "Log (fst (RequestVote now rnd args rf)) = Log rf"
  "commitIndex (fst (RequestVote now rnd args rf)) = commitIndex rf"
  "lastApplied (fst (RequestVote now rnd args rf)) = lastApplied rf"
  "lastAppliedIndex (fst (RequestVote now rnd args rf)) = lastAppliedIndex rf"
  "lastAppliedTerm (fst (RequestVote now rnd args rf)) = lastAppliedTerm rf"
  "nextIndex (fst (RequestVote now rnd args rf)) = nextIndex rf"
  "matchIndex (fst (RequestVote now rnd args rf)) = matchIndex rf"
  "sender (fst (RequestVote now rnd args rf)) = sender rf"
  by (auto simp: RequestVote_def Let_def split: prod.splits)

lemma RequestVote_synced: "synced rf \<Longrightarrow> synced (fst (RequestVote now rnd args rf))"
  by (auto simp: RequestVote_def Let_def split: prod.splits)

lemma RequestVote_vote_synced:
  "vote_synced rf \<Longrightarrow> vote_synced (fst (RequestVote now rnd args rf))"
  by (auto simp: RequestVote_def Let_def split: prod.splits)

lemma RequestVote_wf: "raft_wf rf \<Longrightarrow> raft_wf (fst (RequestVote now rnd args rf))"
  by (auto simp: raft_wf_def RequestVote_term intro: terms_ok_mono)

section \<open>The other critical sections\<close>

lemma startElection_begin_eq_beCandidate: "fst (startElection_begin rf) = beCandidate rf"
  by (simp add: startElection_begin_def beCandidate_def Let_def)

lemma startElection_begin_fields:
  assumes "startElection_begin rf = (rf', el)"
  shows "currentTerm rf' = currentTerm rf + 1" "voteFor rf' = me rf" "leaderId rf' = -1"
    "el = \<lparr>el_currentTerm = currentTerm rf + 1, el_voteCount = 1, el_finished = 0\<rparr>"
    "peers rf' = peers rf" "me rf' = me rf" "synced rf'"
  using assms by (auto simp: startElection_begin_def Let_def)

lemma startElection_begin_wf:
  "raft_wf rf \<Longrightarrow> startElection_begin rf = (rf', el) \<Longrightarrow> raft_wf rf'"
  using raft_wf_beCandidate [of rf] startElection_begin_eq_beCandidate [of rf] by simp

lemma startElection_finish_fields:
  "currentTerm (startElection_finish now rnd rf el) = currentTerm rf"
  "voteFor (startElection_finish now rnd rf el) = voteFor rf"
  "peers (startElection_finish now rnd rf el) = peers rf"
  "me (startElection_finish now rnd rf el) = me rf"
  "hard_state (startElection_finish now rnd rf el) = hard_state rf"
  "synced (startElection_finish now rnd rf el) = synced rf"
  "vote_synced (startElection_finish now rnd rf el) = vote_synced rf"
  "leaderId (startElection_finish now rnd rf el) =
     (if int (peers rf) div 2 < el_voteCount el then me rf else leaderId rf)"
  by (simp_all add: startElection_finish_def)

lemma startElection_finish_wf: "raft_wf rf \<Longrightarrow> raft_wf (startElection_finish now rnd rf el)"
  by (simp add: startElection_finish_def raft_wf_beLeaer)

lemma electionSender_reply_fields:
  assumes "electionSender_reply ok rep rf el = (rf', el')"
  shows "currentTerm rf \<le> currentTerm rf'"
    "currentTerm rf' = currentTerm rf \<Longrightarrow> voteFor rf' = voteFor rf"
    "currentTerm rf < currentTerm rf' \<Longrightarrow> voteFor rf' = -1 \<and> currentTerm rf = el_currentTerm el"
    "leaderId rf' = leaderId rf" "peers rf' = peers rf" "me rf' = me rf"
    "el_currentTerm el' = el_currentTerm el" "el_finished el' = el_finished el + 1"
    "el_voteCount el' = el_voteCount el +
       (if currentTerm rf = el_currentTerm el \<and> ok \<and> rvr_VoteGranted rep then 1 else 0)"
    "synced rf \<Longrightarrow> synced rf'" "vote_synced rf \<Longrightarrow> vote_synced rf'"
  using assms
  by (auto simp: electionSender_reply_def electionSender_skip_def Let_def split: if_splits)

lemma electionSender_reply_wf:
  assumes "raft_wf rf" and "electionSender_reply ok rep rf el = (rf', el')"
  shows "raft_wf rf'"
proof -
  have "Log rf' = Log rf" "lastAppliedIndex rf' = lastAppliedIndex rf"
    "lastAppliedTerm rf' = lastAppliedTerm rf" "nextIndex rf' = nextIndex rf"
    "matchIndex rf' = matchIndex rf"
    using assms(2) by (auto simp: electionSender_reply_def Let_def split: if_splits)
  then show ?thesis
    using assms electionSender_reply_fields [OF assms(2)]
    by (auto simp: raft_wf_def intro: terms_ok_mono)
qed

section \<open>Properties\<close>

text \<open>
  C8. The vote handler. The reply carries the term the peer had; the vote is granted exactly
  when the request is not older than the peer's term, the peer has not voted for another
  candidate in the request's term, and the candidate's log is at least as up to date; the
  peer's term, vote and leader change accordingly and its log not at all.
\<close>

theorem RequestVote_correct:
  "case RequestVote now rnd args rf of (rf', rep) \<Rightarrow>
     rvr_Term rep = currentTerm rf \<and>
     (rvr_VoteGranted rep \<longleftrightarrow>
        currentTerm rf \<le> rva_Term args \<and>
        (currentTerm rf < rva_Term args \<or> voteFor rf = -1 \<or> voteFor rf = rva_CandidateId args) \<and>
        up_to_date args rf) \<and>
     currentTerm rf' = max (currentTerm rf) (rva_Term args) \<and>
     voteFor rf' = (if rvr_VoteGranted rep then rva_CandidateId args
                    else if currentTerm rf < rva_Term args then -1 else voteFor rf) \<and>
     leaderId rf' = (if currentTerm rf < rva_Term args then -1 else leaderId rf) \<and>
     Log rf' = Log rf \<and> lastAppliedIndex rf' = lastAppliedIndex rf \<and>
     electionTimeout rf' = now + RandomTime rnd"
proof -
  have "electionTimeout (fst (RequestVote now rnd args rf)) = now + RandomTime rnd"
    by (auto simp: RequestVote_def Let_def updateElectionTimeout_def split: prod.splits)
  then show ?thesis
    using RequestVote_granted_iff [of now rnd args rf] RequestVote_reply_term [of now rnd args rf]
      RequestVote_term [of now rnd args rf] RequestVote_vote [of now rnd args rf]
      RequestVote_leader [of now rnd args rf] RequestVote_frame [of now rnd args rf]
    by (simp add: case_prod_unfold)
qed

text \<open>
  C9. A vote survives a crash. A peer that granted a vote and is then restarted from a copy of
  its persister still has the request's term, the vote for that candidate, and its log.
\<close>

theorem vote_survives_crash:
  assumes "RequestVote now rnd args rf = (rf', rep)" and "rvr_VoteGranted rep"
  shows "hard_state (Make n m (Copy (rf_persister rf')) now' rnd') =
    (rva_Term args, rva_CandidateId args, Log rf, lastAppliedIndex rf, lastAppliedTerm rf)"
proof -
  have "synced rf'"
    using assms by (auto simp: RequestVote_def Let_def split: prod.splits if_splits)
  then have "hard_state (Make n m (Copy (rf_persister rf')) now' rnd') = hard_state rf'"
    by (simp add: Make_hard_state synced_def)
  moreover have "rva_Term args \<ge> currentTerm rf"
    using RequestVote_granted_iff [of now rnd args rf] assms by simp
  ultimately show ?thesis
    using RequestVote_term [of now rnd args rf] RequestVote_vote [of now rnd args rf]
      RequestVote_frame [of now rnd args rf] assms
    by (simp add: hard_state_def)
qed

theorem vote_survives_crash_witness:
  "hard_state (Make 3 1 (Copy (rf_persister (fst (RequestVote 5 7
       \<lparr>rva_Term = 4, rva_CandidateId = 2, rva_LastLogIndex = 0, rva_LastLogTerm = 0\<rparr>
       (Make 3 1 MakePersister 0 0 :: nat raft))))) 9 3) =
     (4, 2, [\<lparr>Command = None, Term = 0\<rparr>], -1, 0)"
  (is "hard_state (Make 3 1 (Copy (rf_persister (fst (RequestVote 5 7 ?args ?rf)))) 9 3) = _")
proof -
  obtain rf' rep where rv: "RequestVote 5 7 ?args ?rf = (rf', rep)" by force
  have rf: "?rf = \<lparr>peers = 3, me = 1, dead = 0, leaderId = -1, currentTerm = 0, voteFor = -1,
      Log = [\<lparr>Command = None, Term = 0\<rparr>], commitIndex = -1, lastApplied = -1,
      nextIndex = [1, 1, 1], matchIndex = [0, 0, 0], sender = [], electionTimeout = 800,
      lastAppliedIndex = -1, lastAppliedTerm = 0, rf_persister = MakePersister\<rparr>"
    by (simp add: Make_def readPersist_def Let_def updateElectionTimeout_def RandomTime_def
        numeral_3_eq_3)
  have "rvr_VoteGranted rep"
    using RequestVote_granted_iff [of 5 7 ?args ?rf] rv
    by (simp add: rf up_to_date_def last_log_def)
  from vote_survives_crash [OF rv this, of 3 1 9 3] show ?thesis
    by (simp add: rv) (simp add: rf)
qed

end
