(* ===== verification/Raft_Replication.thy ===== *)
theory Raft_Replication
  imports Raft_Election
begin

text \<open>
  Log replication in \<open>src/raft/raft.go\<close>: the \<open>AppendEntries\<close> handler, the leader's round
  \<open>sendAERpcs\<close> with its \<open>appendRPCWorker\<close> goroutines, and the commit rule \<open>findMaxN\<close>.

  As in the election, a function that gives up \<open>rf.mu\<close> is split at the point where it does,
  and its local variables (\<open>currentTerm\<close>, \<open>count\<close>, \<open>finished\<close>) are the record \<open>ae_round\<close>.
\<close>

section \<open>Messages and the round's local variables\<close>

record 'c AppendEntriesArgs =
  aea_Term :: int
  aea_LeaderId :: int
  aea_PrevLogIndex :: int
  aea_PrevLogTerm :: int
  aea_Entries :: "'c entry list"
  aea_LeaderCommit :: int

record AppendEntriesReply =
  aer_Term :: int
  aer_Success :: bool

record ae_round =
  ar_currentTerm :: int
  ar_count :: int
  ar_finished :: int

section \<open>The follower\<close>

text \<open>The common start of \<open>AppendEntries\<close> and \<open>InstallSnapshot\<close>: adopt the sender's term,
  note it as the leader and as the holder of this peer's vote.\<close>

definition follow_leader :: "int \<Rightarrow> int \<Rightarrow> 'c raft \<Rightarrow> 'c raft" where
  "follow_leader t l rf =
     (let rf1 = (if t > currentTerm rf then updateCurrentTerm t rf else rf);
          rf2 = (if leaderId rf1 \<noteq> l then rf1\<lparr>leaderId := l\<rparr> else rf1)
      in if voteFor rf2 \<noteq> leaderId rf2 then updateVoteFor (leaderId rf2) rf2 else rf2)"

definition AppendEntries ::
  "int \<Rightarrow> int \<Rightarrow> 'c AppendEntriesArgs \<Rightarrow> 'c raft \<Rightarrow> ('c raft \<times> AppendEntriesReply) go" where
  "AppendEntries now rnd args rf =
     (let rep = \<lparr>aer_Term = currentTerm rf, aer_Success = False\<rparr>;
          ret = (\<lambda>rf' rep'. Inr (updateElectionTimeout now rnd rf', rep'))
      in if aea_Term args < currentTerm rf then ret rf rep
      else
        let rf1 = follow_leader (aea_Term args) (aea_LeaderId args) rf;
            prev = aea_PrevLogIndex args;
            base = lastAppliedIndex rf1
        in if prev < base \<or> prev > int (length (Log rf1)) + base then ret rf1 rep
        else
          go_bind (if length (Log rf1) = 0 \<or> prev = base then Inr (lastAppliedTerm rf1)
                   else go_bind (go_nth (Log rf1) (prev - base - 1)) (\<lambda>e. Inr (Term e)))
            (\<lambda>prevLogTerm.
               if aea_PrevLogTerm args \<noteq> prevLogTerm
               then go_bind (go_upto (Log rf1) (prev - base - 1))
                      (\<lambda>l. ret (persist (rf1\<lparr>Log := l\<rparr>)) rep)
               else
                 go_bind (if length (aea_Entries args) > 0
                          then go_bind (go_upto (Log rf1) (prev - base))
                                 (\<lambda>l. Inr (persist (rf1\<lparr>Log := l @ aea_Entries args\<rparr>)))
                          else Inr rf1)
                   (\<lambda>rf2.
                      let rf3 = (if aea_LeaderCommit args > commitIndex rf2
                                 then rf2\<lparr>commitIndex :=
                                        go_min (aea_LeaderCommit args)
                                          (int (length (Log rf2)) + lastAppliedIndex rf2)\<rparr>
                                 else rf2)
                      in ret rf3 (rep\<lparr>aer_Success := True\<rparr>))))"

section \<open>The leader's round\<close>

text \<open>For every other peer, whether it gets the snapshot or entries.\<close>

definition sendAERpcs_begin :: "'c raft \<Rightarrow> (ae_round \<times> (nat \<times> bool) list) go" where
  "sendAERpcs_begin rf =
     go_bind
       (foldr (\<lambda>i acc. go_bind (go_nth (nextIndex rf) (int i))
                 (\<lambda>nxt. go_bind acc (\<lambda>ws. Inr ((i, nxt - 1 < lastAppliedIndex rf) # ws))))
          (filter (\<lambda>i. int i \<noteq> me rf) [0..<peers rf]) (Inr []))
       (\<lambda>ws. Inr (\<lparr>ar_currentTerm = currentTerm rf, ar_count = 1, ar_finished = 0\<rparr>, ws))"

definition appendRPCWorker_request ::
  "nat \<Rightarrow> int \<Rightarrow> 'c raft \<Rightarrow> 'c AppendEntriesArgs option go" where
  "appendRPCWorker_request index roundTerm rf =
     go_bind (go_nth (nextIndex rf) (int index)) (\<lambda>nxt.
       if nxt - 1 < lastAppliedIndex rf then Inr None
       else if currentTerm rf \<noteq> roundTerm \<or> leaderId rf \<noteq> me rf then Inr None
       else
         let prev = nxt - 1
         in go_bind
              (if prev \<noteq> -1 \<and> prev \<noteq> lastAppliedIndex rf
               then go_bind (go_nth (Log rf) (prev - lastAppliedIndex rf - 1)) (\<lambda>e. Inr (Term e))
               else if prev = lastAppliedIndex rf then Inr (lastAppliedTerm rf) else Inr 0)
              (\<lambda>prevTerm. go_bind (go_from (Log rf) (nxt - lastAppliedIndex rf - 1))
                 (\<lambda>es. Inr (Some \<lparr>aea_Term = currentTerm rf, aea_LeaderId = me rf,
                     aea_PrevLogIndex = prev, aea_PrevLogTerm = prevTerm, aea_Entries = es,
                     aea_LeaderCommit = commitIndex rf\<rparr>))))"

definition ae_round_skip :: "ae_round \<Rightarrow> ae_round" where
  "ae_round_skip ar = ar\<lparr>ar_finished := ar_finished ar + 1\<rparr>"

definition appendRPCWorker_reply ::
  "nat \<Rightarrow> bool \<Rightarrow> 'c AppendEntriesArgs \<Rightarrow> AppendEntriesReply \<Rightarrow> 'c raft \<Rightarrow> ae_round \<Rightarrow>
   ('c raft \<times> ae_round) go" where
  "appendRPCWorker_reply index ok args rep rf ar =
     (if currentTerm rf \<noteq> ar_currentTerm ar \<or> leaderId rf \<noteq> me rf then Inr (rf, ae_round_skip ar)
      else if \<not> ok then Inr (rf, ae_round_skip ar)
      else if aer_Term rep > currentTerm rf
           then Inr (updateVoteFor (-1) ((updateCurrentTerm (aer_Term rep) rf)\<lparr>leaderId := -1\<rparr>),
                     ae_round_skip ar)
      else if aer_Success rep
           then go_bind (go_nth (nextIndex rf) (int index)) (\<lambda>nxt.
                let nxt' = nxt + int (length (aea_Entries args)) in
                go_bind (go_set (nextIndex rf) (int index) nxt') (\<lambda>ni.
                go_bind (go_set (matchIndex rf) (int index) (nxt' - 1)) (\<lambda>mi.
                Inr (rf\<lparr>nextIndex := ni, matchIndex := mi\<rparr>,
                     ae_round_skip (ar\<lparr>ar_count := ar_count ar + 1\<rparr>)))))
      else go_bind (go_nth (nextIndex rf) (int index)) (\<lambda>nxt.
           go_bind (go_set (nextIndex rf) (int index)
                      (go_min (lastApplied rf + 1) (go_quot nxt 2))) (\<lambda>ni.
           Inr (rf\<lparr>nextIndex := ni\<rparr>, ae_round_skip ar))))"

section \<open>The commit rule\<close>

text \<open>The inner loop of \<open>findMaxN\<close>; the log is only read for a peer that matches.\<close>

fun findMaxN_count :: "'c raft \<Rightarrow> int \<Rightarrow> nat list \<Rightarrow> int \<Rightarrow> int go" where
  "findMaxN_count rf N [] count = Inr count"
| "findMaxN_count rf N (i # is) count =
     (if int i \<noteq> me rf
      then go_bind (go_nth (matchIndex rf) (int i)) (\<lambda>m.
             if m \<ge> N
             then go_bind (go_nth (Log rf) (N - lastAppliedIndex rf - 1)) (\<lambda>e.
                    findMaxN_count rf N is (if Term e = currentTerm rf then count + 1 else count))
             else findMaxN_count rf N is count)
      else findMaxN_count rf N is count)"

function findMaxN_from :: "'c raft \<Rightarrow> int \<Rightarrow> int go" where
  "findMaxN_from rf N =
     (if N > commitIndex rf
      then go_bind (findMaxN_count rf N [0..<peers rf] 1)
             (\<lambda>count. if count > go_quot (int (peers rf)) 2 then Inr N
                      else findMaxN_from rf (N - 1))
      else Inr N)"
  by pat_completeness auto
termination
  by (relation "measure (\<lambda>(rf, N). nat (N - commitIndex rf))") auto

declare findMaxN_from.simps [simp del]

definition findMaxN :: "'c raft \<Rightarrow> int go" where
  "findMaxN rf = findMaxN_from rf (int (length (Log rf)) + lastAppliedIndex rf)"

definition sendAERpcs_done :: "'c raft \<Rightarrow> ae_round \<Rightarrow> bool" where
  "sendAERpcs_done rf ar \<longleftrightarrow> \<not> (ar_finished ar \<noteq> int (peers rf) - 1)"

definition sendAERpcs_finish :: "'c raft \<Rightarrow> ae_round \<Rightarrow> 'c raft go" where
  "sendAERpcs_finish rf ar =
     (if ar_count ar > go_quot (int (peers rf)) 2
      then go_bind (findMaxN rf)
             (\<lambda>N. Inr (if N > commitIndex rf then rf\<lparr>commitIndex := N\<rparr> else rf))
      else Inr rf)"

section \<open>What the follower does\<close>

lemma follow_leader_fields [simp]:
  "leaderId (follow_leader t l rf) = l"
  "voteFor (follow_leader t l rf) = l"
  "currentTerm (follow_leader t l rf) = max (currentTerm rf) t"
  "peers (follow_leader t l rf) = peers rf"
  "me (follow_leader t l rf) = me rf"
  "Log (follow_leader t l rf) = Log rf"
  "commitIndex (follow_leader t l rf) = commitIndex rf"
  "lastApplied (follow_leader t l rf) = lastApplied rf"
  "nextIndex (follow_leader t l rf) = nextIndex rf"
  "matchIndex (follow_leader t l rf) = matchIndex rf"
  "sender (follow_leader t l rf) = sender rf"
  "lastAppliedIndex (follow_leader t l rf) = lastAppliedIndex rf"
  "lastAppliedTerm (follow_leader t l rf) = lastAppliedTerm rf"
  by (auto simp: follow_leader_def Let_def)

lemma follow_leader_synced: "synced rf \<Longrightarrow> synced (follow_leader t l rf)"
  by (auto simp: follow_leader_def Let_def)

lemma follow_leader_vote_synced: "vote_synced rf \<Longrightarrow> vote_synced (follow_leader t l rf)"
  by (auto simp: follow_leader_def Let_def)

lemma follow_leader_wf: "raft_wf rf \<Longrightarrow> raft_wf (follow_leader t l rf)"
  by (auto simp: raft_wf_def intro: terms_ok_mono)

text \<open>The accepting branch as one state update.\<close>

definition ae_accept :: "'c AppendEntriesArgs \<Rightarrow> 'c raft \<Rightarrow> 'c raft" where
  "ae_accept args rf =
     (let l = take (nat (aea_PrevLogIndex args - lastAppliedIndex rf)) (Log rf);
          rf2 = (if aea_Entries args \<noteq> [] then persist (rf\<lparr>Log := l @ aea_Entries args\<rparr>) else rf)
      in if aea_LeaderCommit args > commitIndex rf2
         then rf2\<lparr>commitIndex := min (aea_LeaderCommit args) (lastLogIndex rf2)\<rparr> else rf2)"

lemma term_at_inner:
  "lastAppliedIndex rf < i \<Longrightarrow> i \<le> lastLogIndex rf \<Longrightarrow>
   term_at rf i = Some (Term (Log rf ! nat (i - lastAppliedIndex rf - 1)))"
  by (simp add: term_at_def log_at_def)

text \<open>Every branch of the handler, with the consistency check read as \<open>term_at\<close>.\<close>

lemma AppendEntries_branches:
  fixes rf :: "'c raft" and args :: "'c AppendEntriesArgs" and now rnd :: int
  defines "rep \<equiv> \<lparr>aer_Term = currentTerm rf, aer_Success = False\<rparr>"
    and "rf1 \<equiv> follow_leader (aea_Term args) (aea_LeaderId args) rf"
    and "prev \<equiv> aea_PrevLogIndex args" and "base \<equiv> lastAppliedIndex rf"
  shows "AppendEntries now rnd args rf =
    (if aea_Term args < currentTerm rf then Inr (updateElectionTimeout now rnd rf, rep)
     else if prev < base \<or> lastLogIndex rf < prev then Inr (updateElectionTimeout now rnd rf1, rep)
     else if term_at rf prev \<noteq> Some (aea_PrevLogTerm args)
     then if prev = base then Inl SliceOutOfRange
          else Inr (updateElectionTimeout now rnd
                      (persist (rf1\<lparr>Log := take (nat (prev - base - 1)) (Log rf)\<rparr>)), rep)
     else Inr (updateElectionTimeout now rnd (ae_accept args rf1), rep\<lparr>aer_Success := True\<rparr>))"
proof (cases "aea_Term args < currentTerm rf \<or> prev < base \<or> lastLogIndex rf < prev")
  case True
  then show ?thesis
    by (auto simp: AppendEntries_def Let_def rep_def rf1_def prev_def base_def lastLogIndex_def)
next
  case False
  then have rng: "base \<le> prev" "prev \<le> int (length (Log rf)) + base"
    by (auto simp: lastLogIndex_def base_def)
  show ?thesis
  proof (cases "prev = base")
    case True
    then show ?thesis
      using False
      by (auto simp: AppendEntries_def Let_def rep_def rf1_def prev_def base_def term_at_def
          go_upto_def lastLogIndex_def ae_accept_def)
  next
    case neq: False
    then have k: "go_nth (Log rf) (prev - base - 1) = Inr (Log rf ! nat (prev - base - 1))"
      "go_upto (Log rf) (prev - base - 1) = Inr (take (nat (prev - base - 1)) (Log rf))"
      using rng by (auto simp: go_nth_in go_upto_in)
    moreover have "term_at rf prev = Some (Term (Log rf ! nat (prev - base - 1)))"
      using False neq by (auto simp: base_def intro: term_at_inner)
    moreover have "Log rf \<noteq> []"
      using rng neq by auto
    ultimately show ?thesis
      using False neq rng
      by (auto simp: AppendEntries_def Let_def rep_def rf1_def prev_def base_def
          go_upto_in lastLogIndex_def ae_accept_def)
  qed
qed

lemma ae_accept_frame [simp]:
  "peers (ae_accept args rf) = peers rf" "me (ae_accept args rf) = me rf"
  "leaderId (ae_accept args rf) = leaderId rf" "currentTerm (ae_accept args rf) = currentTerm rf"
  "voteFor (ae_accept args rf) = voteFor rf" "lastApplied (ae_accept args rf) = lastApplied rf"
  "nextIndex (ae_accept args rf) = nextIndex rf" "matchIndex (ae_accept args rf) = matchIndex rf"
  "sender (ae_accept args rf) = sender rf"
  "lastAppliedIndex (ae_accept args rf) = lastAppliedIndex rf"
  "lastAppliedTerm (ae_accept args rf) = lastAppliedTerm rf"
  by (simp_all add: ae_accept_def Let_def)

lemma ae_accept_Log:
  "Log (ae_accept args rf) =
     (if aea_Entries args = [] then Log rf
      else take (nat (aea_PrevLogIndex args - lastAppliedIndex rf)) (Log rf) @ aea_Entries args)"
  by (simp add: ae_accept_def Let_def)

lemma ae_accept_commit:
  "commitIndex (ae_accept args rf) =
     (if commitIndex rf < aea_LeaderCommit args
      then min (aea_LeaderCommit args) (lastLogIndex (ae_accept args rf)) else commitIndex rf)"
  by (simp add: ae_accept_def Let_def lastLogIndex_def)

lemma ae_accept_synced: "synced rf \<Longrightarrow> synced (ae_accept args rf)"
  by (auto simp: ae_accept_def Let_def)

lemma ae_accept_vote_synced: "vote_synced rf \<Longrightarrow> vote_synced (ae_accept args rf)"
  by (auto simp: ae_accept_def Let_def)

lemma AppendEntries_panics_iff:
  "AppendEntries now rnd args rf = Inl e \<longleftrightarrow>
     currentTerm rf \<le> aea_Term args \<and> aea_PrevLogIndex args = lastAppliedIndex rf \<and>
     aea_PrevLogTerm args \<noteq> lastAppliedTerm rf \<and> e = SliceOutOfRange"
  by (auto simp: AppendEntries_branches term_at_def lastLogIndex_def)

lemma AppendEntries_success_iff:
  assumes "AppendEntries now rnd args rf = Inr (rf', rep)"
  shows "aer_Success rep \<longleftrightarrow>
     currentTerm rf \<le> aea_Term args \<and> term_at rf (aea_PrevLogIndex args) = Some (aea_PrevLogTerm args)"
proof -
  have "term_at rf i = Some t \<Longrightarrow> lastAppliedIndex rf \<le> i \<and> i \<le> lastLogIndex rf" for i t
    by (auto simp: term_at_def log_at_def lastLogIndex_def split: if_splits)
  then show ?thesis
    using assms by (fastforce simp: AppendEntries_branches split: if_splits)
qed

lemma AppendEntries_success_state:
  assumes "AppendEntries now rnd args rf = Inr (rf', rep)" and "aer_Success rep"
  shows "rf' = updateElectionTimeout now rnd
    (ae_accept args (follow_leader (aea_Term args) (aea_LeaderId args) rf))"
  using assms by (auto simp: AppendEntries_branches split: if_splits)

lemma AppendEntries_reply_term:
  "AppendEntries now rnd args rf = Inr (rf', rep) \<Longrightarrow> aer_Term rep = currentTerm rf"
  by (auto simp: AppendEntries_branches split: if_splits)

lemma AppendEntries_vote:
  assumes "AppendEntries now rnd args rf = Inr (rf', rep)"
  shows "aea_Term args < currentTerm rf \<Longrightarrow>
      currentTerm rf' = currentTerm rf \<and> voteFor rf' = voteFor rf \<and> leaderId rf' = leaderId rf"
    and "currentTerm rf \<le> aea_Term args \<Longrightarrow> currentTerm rf' = aea_Term args \<and>
      voteFor rf' = aea_LeaderId args \<and> leaderId rf' = aea_LeaderId args"
    and "peers rf' = peers rf" and "me rf' = me rf"
    and "lastAppliedIndex rf' = lastAppliedIndex rf"
    and "lastAppliedTerm rf' = lastAppliedTerm rf"
    and "nextIndex rf' = nextIndex rf" and "matchIndex rf' = matchIndex rf"
    and "lastApplied rf' = lastApplied rf" and "sender rf' = sender rf"
  using assms by (auto simp: AppendEntries_branches max_def split: if_splits)

lemma AppendEntries_synced:
  "AppendEntries now rnd args rf = Inr (rf', rep) \<Longrightarrow> synced rf \<Longrightarrow> synced rf'"
  by (auto simp: AppendEntries_branches follow_leader_synced ae_accept_synced split: if_splits)

lemma AppendEntries_vote_synced:
  "AppendEntries now rnd args rf = Inr (rf', rep) \<Longrightarrow> vote_synced rf \<Longrightarrow> vote_synced rf'"
  by (auto simp: AppendEntries_branches follow_leader_vote_synced ae_accept_vote_synced
      split: if_splits)

text \<open>Entries a leader may send: terms that continue from the previous entry's and do not
  exceed the leader's own.\<close>

definition ae_args_ok :: "'c AppendEntriesArgs \<Rightarrow> bool" where
  "ae_args_ok args \<longleftrightarrow> terms_ok (aea_PrevLogTerm args) (aea_Term args) (aea_Entries args)"

lemma ae_accept_terms_ok:
  assumes wf: "terms_ok (lastAppliedTerm rf) (currentTerm rf) (Log rf)"
    and args: "ae_args_ok args" "aea_Term args \<le> currentTerm rf"
    and prev: "term_at rf (aea_PrevLogIndex args) = Some (aea_PrevLogTerm args)"
  shows "terms_ok (lastAppliedTerm rf) (currentTerm rf) (Log (ae_accept args rf))"
proof (cases "aea_Entries args = []")
  case True
  then show ?thesis using wf by (simp add: ae_accept_Log)
next
  case False
  let ?k = "nat (aea_PrevLogIndex args - lastAppliedIndex rf)"
  have es: "terms_ok (aea_PrevLogTerm args) (currentTerm rf) (aea_Entries args)"
    using args by (auto simp: ae_args_ok_def intro: terms_ok_mono)
  have "(if take ?k (Log rf) = [] then lastAppliedTerm rf else Term (last (take ?k (Log rf)))) =
      aea_PrevLogTerm args"
  proof (cases "aea_PrevLogIndex args = lastAppliedIndex rf")
    case True
    then show ?thesis using prev by (simp add: term_at_def)
  next
    case neq: False
    then have rng: "lastAppliedIndex rf < aea_PrevLogIndex args"
      "aea_PrevLogIndex args \<le> lastLogIndex rf"
      using prev by (auto simp: term_at_def log_at_def split: if_splits)
    then have k: "0 < ?k" "?k \<le> length (Log rf)"
      by (auto simp: lastLogIndex_def)
    then have ne: "take ?k (Log rf) \<noteq> []" by auto
    have "last (take ?k (Log rf)) = Log rf ! (?k - 1)"
      using k by (subst last_conv_nth [OF ne]) (simp add: min_absorb2)
    also have "?k - 1 = nat (aea_PrevLogIndex args - lastAppliedIndex rf - 1)"
      by simp
    finally show ?thesis
      using prev term_at_inner [OF rng] ne by simp
  qed
  then show ?thesis
    using False wf es by (simp add: ae_accept_Log terms_ok_append terms_ok_take)
qed

lemma AppendEntries_wf:
  assumes "raft_wf rf" and "ae_args_ok args" and "AppendEntries now rnd args rf = Inr (rf', rep)"
  shows "raft_wf rf'"
proof -
  let ?rf1 = "follow_leader (aea_Term args) (aea_LeaderId args) rf"
  have rf1: "raft_wf ?rf1" using assms(1) by (rule follow_leader_wf)
  have "term_at ?rf1 = term_at rf"
    by (rule term_at_cong) simp_all
  then have acc: "term_at rf (aea_PrevLogIndex args) = Some (aea_PrevLogTerm args) \<Longrightarrow>
      raft_wf (ae_accept args ?rf1)"
    using rf1 ae_accept_terms_ok [of ?rf1 args] assms(2) by (simp add: raft_wf_def)
  have tk: "raft_wf (?rf1\<lparr>Log := take k (Log rf)\<rparr>)" for k
    using rf1 by (simp add: raft_wf_def terms_ok_take)
  show ?thesis
    using assms(1,3) rf1 acc tk by (auto simp: AppendEntries_branches split: if_splits)
qed

text \<open>The follower's log after a success: unchanged up to the previous index, the sent
  entries right after it, and nothing beyond them.\<close>

lemma ae_accept_log_at:
  assumes prev: "lastAppliedIndex rf \<le> aea_PrevLogIndex args" "aea_PrevLogIndex args \<le> lastLogIndex rf"
    and es: "aea_Entries args \<noteq> []"
  shows "i \<le> aea_PrevLogIndex args \<Longrightarrow> log_at (ae_accept args rf) i = log_at rf i"
    and "k < length (aea_Entries args) \<Longrightarrow>
      log_at (ae_accept args rf) (aea_PrevLogIndex args + 1 + int k) = Some (aea_Entries args ! k)"
    and "lastLogIndex (ae_accept args rf) = aea_PrevLogIndex args + int (length (aea_Entries args))"
  using assms
  by (auto simp: log_at_def lastLogIndex_def ae_accept_Log nth_append min_absorb2 nat_less_iff
      intro!: arg_cong [where f = "(!) (aea_Entries args)"])

section \<open>The leader's view of its peers\<close>

text \<open>A request carries exactly the entries from \<open>nextIndex\<close> on, and the term of the entry
  before them.\<close>

lemma appendRPCWorker_request_Some:
  assumes "appendRPCWorker_request i t rf = Inr (Some args)"
    and "-1 \<le> lastAppliedIndex rf"
  shows "leaderId rf = me rf" and "currentTerm rf = t"
    and "aea_Term args = t" and "aea_LeaderId args = me rf"
    and "aea_LeaderCommit args = commitIndex rf"
    and "aea_PrevLogIndex args = nextIndex rf ! i - 1"
    and "lastAppliedIndex rf \<le> aea_PrevLogIndex args"
    and "aea_PrevLogIndex args \<le> lastLogIndex rf"
    and "term_at rf (aea_PrevLogIndex args) = Some (aea_PrevLogTerm args)"
    and "aea_Entries args = drop (nat (aea_PrevLogIndex args - lastAppliedIndex rf)) (Log rf)"
  using assms
  by (auto simp: appendRPCWorker_request_def Let_def go_Inr_iffs lastLogIndex_def term_at_def
      log_at_def split: if_splits intro!: arg_cong [where f = "\<lambda>k. drop (nat k) (Log rf)"])

lemma appendRPCWorker_request_ok:
  assumes "appendRPCWorker_request i t rf = Inr (Some args)" and "raft_wf rf"
  shows "ae_args_ok args"
proof -
  note req = appendRPCWorker_request_Some [OF assms(1)]
  let ?k = "nat (aea_PrevLogIndex args - lastAppliedIndex rf)"
  have wf: "-1 \<le> lastAppliedIndex rf" "terms_ok (lastAppliedTerm rf) (currentTerm rf) (Log rf)"
    using assms(2) by (auto simp: raft_wf_def)
  show ?thesis
  proof (cases "aea_PrevLogIndex args = lastAppliedIndex rf")
    case True
    then show ?thesis
      using req wf by (auto simp: ae_args_ok_def term_at_def)
  next
    case False
    then have rng: "lastAppliedIndex rf < aea_PrevLogIndex args"
      using req(7) wf by linarith
    then have k: "0 < ?k" "?k \<le> length (Log rf)"
      using req(8) wf by (auto simp: lastLogIndex_def)
    have "?k - 1 = nat (aea_PrevLogIndex args - lastAppliedIndex rf - 1)" by simp
    then show ?thesis
      using terms_ok_drop [OF wf(2) k] term_at_inner [OF rng] req wf
      by (simp add: ae_args_ok_def)
  qed
qed

lemma appendRPCWorker_reply_fields:
  assumes "appendRPCWorker_reply i ok args rep rf ar = Inr (rf', ar')"
  shows "currentTerm rf \<le> currentTerm rf'"
    and "currentTerm rf' = currentTerm rf \<Longrightarrow> voteFor rf' = voteFor rf \<and> leaderId rf' = leaderId rf"
    and "currentTerm rf < currentTerm rf' \<Longrightarrow> voteFor rf' = -1 \<and> leaderId rf' = -1"
    and "peers rf' = peers rf" and "me rf' = me rf" and "Log rf' = Log rf"
    and "lastAppliedIndex rf' = lastAppliedIndex rf"
    and "lastAppliedTerm rf' = lastAppliedTerm rf"
    and "ar_currentTerm ar' = ar_currentTerm ar" and "ar_finished ar' = ar_finished ar + 1"
    and "length (nextIndex rf') = length (nextIndex rf)"
    and "length (matchIndex rf') = length (matchIndex rf)"
    and "synced rf \<Longrightarrow> synced rf'" and "vote_synced rf \<Longrightarrow> vote_synced rf'"
  using assms
  by (auto simp: appendRPCWorker_reply_def ae_round_skip_def Let_def go_Inr_iffs
      split: if_splits)

lemma appendRPCWorker_reply_wf:
  assumes "raft_wf rf" and "appendRPCWorker_reply i ok args rep rf ar = Inr (rf', ar')"
  shows "raft_wf rf'"
  using assms(1) appendRPCWorker_reply_fields [OF assms(2)]
  by (auto simp: raft_wf_def intro: terms_ok_mono)

section \<open>The commit rule\<close>

text \<open>The peers \<open>findMaxN\<close> counts for index \<open>N\<close>, and the majority it asks for.\<close>

definition supporters :: "'c raft \<Rightarrow> int \<Rightarrow> nat set" where
  "supporters rf N =
     {i. i < peers rf \<and> int i \<noteq> me rf \<and> N \<le> matchIndex rf ! i \<and>
         term_at rf N = Some (currentTerm rf)}"

definition commit_quorum :: "'c raft \<Rightarrow> int \<Rightarrow> bool" where
  "commit_quorum rf N \<longleftrightarrow> peers rf div 2 < Suc (card (supporters rf N))"

lemma findMaxN_count_eq:
  assumes "length (matchIndex rf) = peers rf" and "set is \<subseteq> {..<peers rf}"
    and "lastAppliedIndex rf < N" and "N \<le> lastLogIndex rf"
  shows "findMaxN_count rf N is c = Inr (c + int (length (filter (\<lambda>i. i \<in> supporters rf N) is)))"
  using assms(2)
proof (induction "is" arbitrary: c)
  case (Cons i "is")
  have nth: "go_nth (Log rf) (N - lastAppliedIndex rf - 1) =
      Inr (Log rf ! nat (N - lastAppliedIndex rf - 1))"
    using assms(3,4) by (intro go_nth_in) (auto simp: lastLogIndex_def)
  show ?case
    using Cons assms(1) term_at_inner [OF assms(3,4)] nth
    by (auto simp: go_nth_in supporters_def)
qed simp

lemma findMaxN_count_all:
  assumes "raft_wf rf" and "lastAppliedIndex rf < N" and "N \<le> lastLogIndex rf"
  shows "findMaxN_count rf N [0..<peers rf] 1 = Inr (1 + int (card (supporters rf N)))"
proof -
  have "length (filter (\<lambda>i. i \<in> supporters rf N) [0..<peers rf]) = card (supporters rf N)"
    by (auto simp: length_filter_conv_card supporters_def intro!: arg_cong [where f = card])
  moreover have "set [0..<peers rf] \<subseteq> {..<peers rf}" by auto
  ultimately show ?thesis
    using findMaxN_count_eq [of rf "[0..<peers rf]" N 1] assms by (simp add: raft_wf_def)
qed

lemma findMaxN_from_spec:
  assumes "raft_wf rf" and "lastAppliedIndex rf \<le> commitIndex rf" and "N \<le> lastLogIndex rf"
  shows "\<exists>K. findMaxN_from rf N = Inr K \<and> K \<le> N \<and>
    (commitIndex rf < N \<longrightarrow> commitIndex rf \<le> K) \<and>
    (commitIndex rf < K \<longrightarrow> commit_quorum rf K) \<and>
    (\<forall>M. K < M \<and> M \<le> N \<and> commitIndex rf < M \<longrightarrow> \<not> commit_quorum rf M)"
  using assms
proof (induction rf N rule: findMaxN_from.induct)
  case (1 rf N)
  show ?case
  proof (cases "commitIndex rf < N")
    case False
    then show ?thesis by (auto simp: findMaxN_from.simps [of rf N])
  next
    case True
    then have cnt: "findMaxN_count rf N [0..<peers rf] 1 = Inr (1 + int (card (supporters rf N)))"
      using "1.prems" by (intro findMaxN_count_all) auto
    have test: "go_quot (int (peers rf)) 2 < 1 + int (card (supporters rf N)) \<longleftrightarrow> commit_quorum rf N"
      by (simp add: commit_quorum_def) linarith
    show ?thesis
    proof (cases "commit_quorum rf N")
      case q: True
      then show ?thesis
        using True cnt test by (auto simp: findMaxN_from.simps [of rf N])
    next
      case nq: False
      then have "findMaxN_from rf N = findMaxN_from rf (N - 1)"
        using True cnt test by (simp add: findMaxN_from.simps [of rf N])
      moreover obtain K where K: "findMaxN_from rf (N - 1) = Inr K" "K \<le> N - 1"
        "commitIndex rf < N - 1 \<longrightarrow> commitIndex rf \<le> K"
        "commitIndex rf < K \<longrightarrow> commit_quorum rf K"
        "\<And>M. K < M \<Longrightarrow> M \<le> N - 1 \<Longrightarrow> commitIndex rf < M \<Longrightarrow> \<not> commit_quorum rf M"
        using "1.IH" [OF True cnt] nq test "1.prems" by auto
      moreover have "commitIndex rf \<le> K"
        using K(1,3) True by (cases "commitIndex rf < N - 1") (auto simp: findMaxN_from.simps)
      moreover have "\<not> commit_quorum rf M" if "K < M" "M \<le> N" "commitIndex rf < M" for M
        using K(5) [of M] that nq by (cases "M = N") auto
      ultimately show ?thesis by auto
    qed
  qed
qed

lemma findMaxN_spec:
  assumes "raft_wf rf" and "lastAppliedIndex rf \<le> commitIndex rf"
  obtains K where "findMaxN rf = Inr K" and "K \<le> lastLogIndex rf"
    and "commitIndex rf < K \<Longrightarrow> commit_quorum rf K"
    and "\<And>M. K < M \<Longrightarrow> M \<le> lastLogIndex rf \<Longrightarrow> commitIndex rf < M \<Longrightarrow> \<not> commit_quorum rf M"
  using findMaxN_from_spec [OF assms, of "lastLogIndex rf"]
  by (auto simp: findMaxN_def lastLogIndex_def)

lemma sendAERpcs_finish_fields:
  assumes "sendAERpcs_finish rf ar = Inr rf'"
  shows "rf' = rf\<lparr>commitIndex := commitIndex rf'\<rparr>" and "commitIndex rf \<le> commitIndex rf'"
  using assms by (auto simp: sendAERpcs_finish_def go_bind_Inr_iff split: if_splits)

section \<open>Properties\<close>

text \<open>A peer of a cluster of three in term 2, for the concrete instances below.\<close>

definition sample_peer :: "int \<Rightarrow> int \<Rightarrow> nat entry list \<Rightarrow> int \<Rightarrow> nat raft" where
  "sample_peer m l lg ci =
     \<lparr>peers = 3, me = m, dead = 0, leaderId = l, currentTerm = 2, voteFor = l, Log = lg,
      commitIndex = ci, lastApplied = -1, nextIndex = [1, 1, 1], matchIndex = [0, 2, 1],
      sender = [], electionTimeout = 0, lastAppliedIndex = -1, lastAppliedTerm = 0,
      rf_persister = MakePersister\<rparr>"

definition sample_log :: "nat entry list" where
  "sample_log = [\<lparr>Command = None, Term = 0\<rparr>, \<lparr>Command = Some 7, Term = 2\<rparr>,
     \<lparr>Command = Some 8, Term = 2\<rparr>]"

lemmas sample_simps = sample_peer_def sample_log_def

lemma sample_peer_wf: "raft_wf (sample_peer 0 0 sample_log 0)"
  by (simp add: raft_wf_def sample_simps terms_ok_def)

lemma sample_request:
  "appendRPCWorker_request 1 2 (sample_peer 0 0 sample_log 0) =
     Inr (Some \<lparr>aea_Term = 2, aea_LeaderId = 0, aea_PrevLogIndex = 0, aea_PrevLogTerm = 0,
                aea_Entries = tl sample_log, aea_LeaderCommit = 0\<rparr>)"
  by (simp add: appendRPCWorker_request_def sample_simps go_nth_def go_from_def)

text \<open>The follower's reply to it, from a log that only has the first entry.\<close>

lemma sample_success:
  "\<exists>fw' rep. AppendEntries 0 0 \<lparr>aea_Term = 2, aea_LeaderId = 0, aea_PrevLogIndex = 0,
      aea_PrevLogTerm = 0, aea_Entries = tl sample_log, aea_LeaderCommit = 0\<rparr>
      (sample_peer 1 0 [\<lparr>Command = None, Term = 0\<rparr>] (-1)) = Inr (fw', rep) \<and> aer_Success rep"
  by (simp add: AppendEntries_branches sample_simps lastLogIndex_def term_at_def log_at_def)

lemma request_entries_log_at:
  assumes "appendRPCWorker_request j t ld = Inr (Some args)" and "-1 \<le> lastAppliedIndex ld"
  shows "k < length (aea_Entries args) \<Longrightarrow>
      log_at ld (aea_PrevLogIndex args + 1 + int k) = Some (aea_Entries args ! k)"
    and "lastLogIndex ld = aea_PrevLogIndex args + int (length (aea_Entries args))"
  using appendRPCWorker_request_Some(7,8,10) [OF assms]
  by (auto simp: log_at_def lastLogIndex_def intro!: arg_cong [where f = "(!) (Log ld)"])

lemma replication_entries:
  assumes req: "appendRPCWorker_request j t ld = Inr (Some args)" and wf: "raft_wf ld"
    and ae: "AppendEntries now rnd args fw = Inr (fw', rep)" and ok: "aer_Success rep"
    and es: "aea_Entries args \<noteq> []"
  shows "lastLogIndex fw' = lastLogIndex ld \<and>
    log_at fw' i = (if i \<le> aea_PrevLogIndex args then log_at fw i else log_at ld i)"
proof (intro conjI)
  have la: "-1 \<le> lastAppliedIndex ld" using wf by (simp add: raft_wf_def)
  let ?fw1 = "follow_leader (aea_Term args) (aea_LeaderId args) fw"
  have "term_at fw (aea_PrevLogIndex args) = Some (aea_PrevLogTerm args)"
    using AppendEntries_success_iff [OF ae] ok by simp
  then have rng: "lastAppliedIndex ?fw1 \<le> aea_PrevLogIndex args"
    "aea_PrevLogIndex args \<le> lastLogIndex ?fw1"
    by (auto simp: term_at_def log_at_def lastLogIndex_def split: if_splits)
  have fw1: "log_at ?fw1 = log_at fw" by (rule log_at_cong) simp_all
  have fw': "log_at fw' = log_at (ae_accept args ?fw1)"
    "lastLogIndex fw' = lastLogIndex (ae_accept args ?fw1)"
    using AppendEntries_success_state [OF ae ok] log_at_cong [of fw' "ae_accept args ?fw1"]
    by (simp_all add: lastLogIndex_def)
  note acc = ae_accept_log_at [OF rng es]
  show len: "lastLogIndex fw' = lastLogIndex ld"
    using fw'(2) acc(3) request_entries_log_at(2) [OF req la] by simp
  show "log_at fw' i = (if i \<le> aea_PrevLogIndex args then log_at fw i else log_at ld i)"
  proof (cases "i \<le> aea_PrevLogIndex args \<or> lastLogIndex ld < i")
    case True
    then show ?thesis
      using acc(1) [of i] fw' fw1 len log_at_None_iff [of ld i] log_at_None_iff [of fw' i] by auto
  next
    case False
    define k where "k = nat (i - aea_PrevLogIndex args - 1)"
    have "i = aea_PrevLogIndex args + 1 + int k" "k < length (aea_Entries args)"
      using False request_entries_log_at(2) [OF req la] by (auto simp: k_def)
    then show ?thesis
      using False fw'(1) acc(2) [of k] request_entries_log_at(1) [OF req la, of k] by simp
  qed
qed

text \<open>
  C6. Replication. When a follower answers success to a request that a well-formed leader made for
  it: if the request carried entries, the follower's log is the leader's from the previous index
  on, and its own up to there; if it carried none, the follower's log is as it was.
\<close>

theorem replication_copies_log:
  assumes "appendRPCWorker_request j t ld = Inr (Some args)" and "raft_wf ld"
    and ae: "AppendEntries now rnd args fw = Inr (fw', rep)" and ok: "aer_Success rep"
  shows "lastLogIndex fw' = (if aea_Entries args = [] then lastLogIndex fw else lastLogIndex ld) \<and>
    log_at fw' i = (if aea_Entries args = [] \<or> i \<le> aea_PrevLogIndex args then log_at fw i else log_at ld i)"
proof (cases "aea_Entries args = []")
  case True
  let ?fw1 = "follow_leader (aea_Term args) (aea_LeaderId args) fw"
  have "Log fw' = Log fw" "lastAppliedIndex fw' = lastAppliedIndex fw"
    using AppendEntries_success_state [OF ae ok] True by (simp_all add: ae_accept_Log)
  then show ?thesis using True log_at_cong [of fw' fw] by (simp add: lastLogIndex_def)
next
  case False
  then show ?thesis using replication_entries [OF assms False, of i] by simp
qed

theorem replication_copies_log_witness:
  "log_at (fst (projr (AppendEntries 0 0 \<lparr>aea_Term = 2, aea_LeaderId = 0, aea_PrevLogIndex = 0,
      aea_PrevLogTerm = 0, aea_Entries = tl sample_log, aea_LeaderCommit = 0\<rparr>
      (sample_peer 1 0 [\<lparr>Command = None, Term = 0\<rparr>] (-1))))) 2 = Some \<lparr>Command = Some 8, Term = 2\<rparr>"
  (is "log_at (fst (projr ?ae)) 2 = _")
proof -
  obtain fw' rep where ae: "?ae = Inr (fw', rep)" and ok: "aer_Success rep"
    using sample_success by blast
  have "tl sample_log \<noteq> []" by (simp add: sample_log_def)
  from replication_copies_log [OF sample_request sample_peer_wf ae ok, of 2] this
  have "log_at fw' 2 = log_at (sample_peer 0 0 sample_log 0) 2" by simp
  then show ?thesis
    by (simp add: ae) (simp add: log_at_def lastLogIndex_def sample_simps)
qed

text \<open>
  C13. When the follower panics. \<open>AppendEntries\<close> fails with a slice error in exactly one case:
  the request is current, its previous index is the last index of the follower's snapshot, and
  the terms there differ (the deletion of the conflicting entry then reaches into the
  snapshot). Otherwise it returns, and it answers success exactly when the request is current
  and the follower has an entry of the previous term at the previous index.
\<close>

theorem AppendEntries_outcome:
  "AppendEntries now rnd args rf =
     (if currentTerm rf \<le> aea_Term args \<and> aea_PrevLogIndex args = lastAppliedIndex rf \<and>
         aea_PrevLogTerm args \<noteq> lastAppliedTerm rf then Inl SliceOutOfRange
      else Inr (fst (projr (AppendEntries now rnd args rf)),
                \<lparr>aer_Term = currentTerm rf,
                 aer_Success = (currentTerm rf \<le> aea_Term args \<and>
                   term_at rf (aea_PrevLogIndex args) = Some (aea_PrevLogTerm args))\<rparr>))"
proof (cases "AppendEntries now rnd args rf")
  case (Inl e)
  then show ?thesis using AppendEntries_panics_iff [of now rnd args rf e] by simp
next
  case (Inr p)
  obtain rf' rep where p: "p = (rf', rep)" by force
  have "\<not> (currentTerm rf \<le> aea_Term args \<and> aea_PrevLogIndex args = lastAppliedIndex rf \<and>
         aea_PrevLogTerm args \<noteq> lastAppliedTerm rf)"
    using AppendEntries_panics_iff [of now rnd args rf SliceOutOfRange] Inr by simp
  then show ?thesis
    using Inr p AppendEntries_success_iff [of now rnd args rf rf' rep]
      AppendEntries_reply_term [of now rnd args rf rf' rep]
    by (cases rep) simp
qed

text \<open>
  A delayed request takes entries back. A follower that already holds all entries of a
  request replaces its whole log after the previous index by them, so a request that was
  overtaken by a later one removes entries the follower has acknowledged and even counts as
  committed.
\<close>

theorem stale_append_truncates:
  "\<exists>(rf :: nat raft) args rf' rep.
     AppendEntries 0 0 args rf = Inr (rf', rep) \<and> aer_Success rep \<and>
     map (\<lambda>k. log_at rf (aea_PrevLogIndex args + 1 + int k)) [0..<length (aea_Entries args)] =
       map Some (aea_Entries args) \<and>
     commitIndex rf' = 2 \<and> log_at rf 2 = Some \<lparr>Command = Some 8, Term = 2\<rparr> \<and> log_at rf' 2 = None"
proof -
  let ?rf = "sample_peer 1 0 sample_log 2"
  let ?args = "\<lparr>aea_Term = 2, aea_LeaderId = 0, aea_PrevLogIndex = 0, aea_PrevLogTerm = 0,
      aea_Entries = [\<lparr>Command = Some 7, Term = 2\<rparr>], aea_LeaderCommit = 0\<rparr> :: nat AppendEntriesArgs"
  obtain rf' rep where ae: "AppendEntries 0 0 ?args ?rf = Inr (rf', rep)" "aer_Success rep"
    "commitIndex rf' = 2" "Log rf' = take 2 sample_log" "lastAppliedIndex rf' = -1"
    by (simp add: AppendEntries_branches sample_simps lastLogIndex_def term_at_def log_at_def
        ae_accept_Log ae_accept_commit)
  have "log_at rf' 2 = None" "log_at ?rf 2 = Some \<lparr>Command = Some 8, Term = 2\<rparr>"
    "map (\<lambda>k. log_at ?rf (aea_PrevLogIndex ?args + 1 + int k)) [0..<length (aea_Entries ?args)] =
       map Some (aea_Entries ?args)"
    using ae by (simp_all add: log_at_def lastLogIndex_def sample_simps)
  with ae show ?thesis by blast
qed

text \<open>
  C7. The commit rule. On a well-formed peer whose commit index is not below its snapshot,
  \<open>findMaxN\<close> returns. If the index it returns is above the commit index, then more than half of
  the peers (the leader among them) match it and, when there are at least two peers, the entry
  there is of the current term; and no larger index of the log has such a majority. A peer on its
  own counts itself as the majority of any index.
\<close>

theorem findMaxN_correct:
  assumes "raft_wf rf" and "lastAppliedIndex rf \<le> commitIndex rf"
  shows "\<exists>K. findMaxN rf = Inr K \<and> K \<le> lastLogIndex rf \<and>
    (commitIndex rf < K \<longrightarrow> term_at rf K = Some (currentTerm rf) \<or> peers rf < 2) \<and>
    (commitIndex rf < K \<longrightarrow> commit_quorum rf K) \<and>
    (\<forall>M. K < M \<and> M \<le> lastLogIndex rf \<and> commitIndex rf < M \<longrightarrow> \<not> commit_quorum rf M)"
proof -
  obtain K where K: "findMaxN rf = Inr K" "K \<le> lastLogIndex rf"
    "commitIndex rf < K \<Longrightarrow> commit_quorum rf K"
    "\<And>M. K < M \<Longrightarrow> M \<le> lastLogIndex rf \<Longrightarrow> commitIndex rf < M \<Longrightarrow> \<not> commit_quorum rf M"
    using findMaxN_spec [OF assms] by blast
  have "term_at rf K = Some (currentTerm rf)" if "commitIndex rf < K" "\<not> peers rf < 2"
  proof (rule ccontr)
    assume "term_at rf K \<noteq> Some (currentTerm rf)"
    then have "supporters rf K = {}" by (simp add: supporters_def)
    then show False using K(3) [OF that(1)] that(2) by (simp add: commit_quorum_def)
  qed
  then show ?thesis using K by blast
qed

theorem findMaxN_correct_witness:
  "\<exists>K. findMaxN (sample_peer 0 0 sample_log 0) = Inr K \<and> K = 2"
proof -
  let ?rf = "sample_peer 0 0 sample_log 0"
  have "supporters ?rf 2 = {1}"
    by (auto simp: supporters_def sample_simps term_at_def log_at_def lastLogIndex_def
        less_Suc_eq numeral_3_eq_3)
  then have "commit_quorum ?rf 2" by (simp add: commit_quorum_def sample_simps)
  moreover have "lastLogIndex ?rf = 2" "lastAppliedIndex ?rf \<le> commitIndex ?rf"
    "commitIndex ?rf = 0"
    by (simp_all add: sample_simps lastLogIndex_def)
  ultimately show ?thesis
    using findMaxN_correct [OF sample_peer_wf] by (auto simp: order_le_less)
qed

end
