(* ===== verification/Raft_Snapshot.thy ===== *)
theory Raft_Snapshot
  imports Raft_Replication
begin

text \<open>
  Log compaction in \<open>src/raft/raft.go\<close>: \<open>Snapshot\<close>/\<open>doSnapshot\<close>, the \<open>InstallSnapshot\<close>
  handler and the leader's \<open>InstallSnapshotSender\<close>.

  \<open>Snapshot\<close> only starts \<open>doSnapshot\<close> in a goroutine of its own; the handler's last line does
  so too, so it returns the call it spawned. \<open>InstallSnapshotSender\<close> keeps \<open>rf.mu\<close> during the
  remote call; it is split at the call all the same, and no step of the sender's own peer may
  come between its halves.
\<close>

record InstallsnapshotArgs =
  isa_Term :: int
  isa_LeaderId :: int
  isa_LastIncludedIndex :: int
  isa_LastIncludedTerm :: int
  isa_Data :: "byte list"

record InstallsnapshotReply =
  isr_Term :: int

section \<open>Operations\<close>

definition CondInstallSnapshot :: "int \<Rightarrow> int \<Rightarrow> byte list \<Rightarrow> 'c raft \<Rightarrow> bool" where
  "CondInstallSnapshot lastIncludedTerm lastIncludedIndex snap rf = True"

definition snapshot_msg :: "byte list \<Rightarrow> int \<Rightarrow> int \<Rightarrow> 'c ApplyMsg" where
  "snapshot_msg snap t i =
     \<lparr>am_CommandValid = False, am_Command = None, am_CommandIndex = 0,
      am_SnapshotValid = True, am_Snapshot = snap, am_SnapshotTerm = t, am_SnapshotIndex = i\<rparr>"

definition doSnapshot :: "int \<Rightarrow> byte list \<Rightarrow> 'c raft \<Rightarrow> 'c raft go" where
  "doSnapshot index snap rf =
     (if index < lastAppliedIndex rf then Inr rf
      else
        go_bind (if index = lastAppliedIndex rf
                 then Inr (lastAppliedIndex rf, lastAppliedTerm rf)
                 else go_bind (go_nth (Log rf) (index - lastAppliedIndex rf - 1))
                        (\<lambda>e. Inr (index, Term e)))
          (\<lambda>(newIndex, newTerm).
             go_bind (go_from (Log rf) (index - lastAppliedIndex rf)) (\<lambda>l.
               let rf1 = rf\<lparr>Log := l, lastAppliedIndex := newIndex, lastAppliedTerm := newTerm\<rparr>;
                   rf2 = rf1\<lparr>rf_persister :=
                           SaveStateAndSnapshot (encode_raftstate (hard_state rf1)) snap
                             (rf_persister rf1)\<rparr>;
                   rf3 = rf2\<lparr>lastApplied := index\<rparr>
               in Inr (rf3\<lparr>sender := sender rf3 @ [snapshot_msg snap newTerm newIndex]\<rparr>))))"

definition InstallSnapshotSender_request ::
  "int \<Rightarrow> 'c raft \<Rightarrow> InstallsnapshotArgs option" where
  "InstallSnapshotSender_request roundTerm rf =
     (if currentTerm rf \<noteq> roundTerm \<or> leaderId rf \<noteq> me rf then None
      else Some \<lparr>isa_Term = currentTerm rf, isa_LeaderId = leaderId rf,
                 isa_LastIncludedIndex = lastAppliedIndex rf,
                 isa_LastIncludedTerm = lastAppliedTerm rf,
                 isa_Data = ReadSnapshot (rf_persister rf)\<rparr>)"

definition InstallSnapshotSender_reply ::
  "nat \<Rightarrow> bool \<Rightarrow> InstallsnapshotReply \<Rightarrow> 'c raft \<Rightarrow> ae_round \<Rightarrow> ('c raft \<times> ae_round) go" where
  "InstallSnapshotSender_reply index ok rep rf ar =
     (if \<not> ok then Inr (rf, ae_round_skip ar)
      else if isr_Term rep > currentTerm rf
           then Inr ((updateVoteFor (-1) (updateCurrentTerm (isr_Term rep) rf))\<lparr>leaderId := -1\<rparr>,
                     ae_round_skip ar)
      else go_bind (go_set (nextIndex rf) (int index) (lastAppliedIndex rf + 1)) (\<lambda>ni.
           go_bind (go_nth ni (int index)) (\<lambda>nxt.
           go_bind (go_set (matchIndex rf) (int index) (nxt - 1)) (\<lambda>mi.
           Inr (rf\<lparr>nextIndex := ni, matchIndex := mi\<rparr>, ae_round_skip ar)))))"

definition InstallSnapshot ::
  "int \<Rightarrow> int \<Rightarrow> InstallsnapshotArgs \<Rightarrow> 'c raft \<Rightarrow>
   ('c raft \<times> InstallsnapshotReply \<times> (int \<times> byte list) option) go" where
  "InstallSnapshot now rnd args rf =
     (let rep = \<lparr>isr_Term = currentTerm rf\<rparr>;
          idx = isa_LastIncludedIndex args
      in if isa_Term args < currentTerm rf then Inr (updateElectionTimeout now rnd rf, rep, None)
      else
        let rf1 = follow_leader (isa_Term args) (isa_LeaderId args) rf
        in go_bind
             (if lastAppliedIndex rf1 + int (length (Log rf1)) \<le> idx
              then Inr (rf1\<lparr>Log := [], lastAppliedIndex := idx,
                           lastAppliedTerm := isa_LastIncludedTerm args\<rparr>)
              else if lastAppliedIndex rf1 < idx
              then go_bind (go_nth (Log rf1) (idx - lastAppliedIndex rf1 - 1)) (\<lambda>e.
                   go_bind (go_from (Log rf1) (idx - lastAppliedIndex rf1)) (\<lambda>l.
                   Inr (rf1\<lparr>Log := l, lastAppliedIndex := idx,
                           lastAppliedTerm := isa_LastIncludedTerm args, lastApplied := idx\<rparr>)))
              else Inr rf1)
             (\<lambda>rf2. Inr (updateElectionTimeout now rnd rf2, rep, Some (idx, isa_Data args))))"

section \<open>Compaction keeps the log\<close>

lemma doSnapshot_branches:
  "doSnapshot index snap rf =
     (if index < lastAppliedIndex rf then Inr rf
      else if lastLogIndex rf < index then Inl IndexOutOfRange
      else
        let t = the (term_at rf index);
            rf1 = rf\<lparr>Log := drop (nat (index - lastAppliedIndex rf)) (Log rf),
                     lastAppliedIndex := index, lastAppliedTerm := t\<rparr>
        in Inr (rf1\<lparr>rf_persister := SaveStateAndSnapshot (encode_raftstate (hard_state rf1)) snap
                       (rf_persister rf),
                    lastApplied := index, sender := sender rf @ [snapshot_msg snap t index]\<rparr>))"
proof -
  consider "index < lastAppliedIndex rf" | "index = lastAppliedIndex rf"
    | "lastLogIndex rf < index" "lastAppliedIndex rf < index"
    | "lastAppliedIndex rf < index" "index \<le> lastLogIndex rf"
    by linarith
  then show ?thesis
  proof cases
    case 1
    then show ?thesis by (simp add: doSnapshot_def)
  next
    case 2
    then show ?thesis by (simp add: doSnapshot_def Let_def go_from_in lastLogIndex_def term_at_def)
  next
    case 3
    then have "go_nth (Log rf) (index - lastAppliedIndex rf - 1) = Inl IndexOutOfRange"
      by (intro go_nth_out) (simp add: lastLogIndex_def)
    with 3 show ?thesis by (simp add: doSnapshot_def)
  next
    case 4
    then have "go_nth (Log rf) (index - lastAppliedIndex rf - 1) =
        Inr (Log rf ! nat (index - lastAppliedIndex rf - 1))"
      and "go_from (Log rf) (index - lastAppliedIndex rf) =
        Inr (drop (nat (index - lastAppliedIndex rf)) (Log rf))"
      by (simp_all add: go_nth_in go_from_in lastLogIndex_def)
    with 4 show ?thesis
      using term_at_inner [OF 4] by (simp add: doSnapshot_def Let_def)
  qed
qed

lemma doSnapshot_fields:
  assumes "doSnapshot index snap rf = Inr rf'" and "lastAppliedIndex rf \<le> index"
  shows "lastAppliedIndex rf' = index" and "lastApplied rf' = index"
    and "lastLogIndex rf' = lastLogIndex rf" and "index \<le> lastLogIndex rf"
    and "term_at rf index = Some (lastAppliedTerm rf')"
    and "currentTerm rf' = currentTerm rf" and "voteFor rf' = voteFor rf"
    and "leaderId rf' = leaderId rf" and "peers rf' = peers rf" and "me rf' = me rf"
    and "commitIndex rf' = commitIndex rf"
    and "nextIndex rf' = nextIndex rf" and "matchIndex rf' = matchIndex rf"
    and "synced rf'" and "ReadSnapshot (rf_persister rf') = snap"
    and "sender rf' = sender rf @ [snapshot_msg snap (lastAppliedTerm rf') index]"
    and "Log rf' = drop (nat (index - lastAppliedIndex rf)) (Log rf)"
proof -
  have rng: "index \<le> lastLogIndex rf"
    using assms by (auto simp: doSnapshot_branches split: if_splits)
  then have "term_at rf index \<noteq> None"
    using assms(2) by (auto simp: term_at_def log_at_def)
  then show "term_at rf index = Some (lastAppliedTerm rf')"
    using assms rng by (auto simp: doSnapshot_branches Let_def)
  show "lastAppliedIndex rf' = index" "lastApplied rf' = index" "index \<le> lastLogIndex rf"
    "lastLogIndex rf' = lastLogIndex rf"
    "currentTerm rf' = currentTerm rf" "voteFor rf' = voteFor rf"
    "leaderId rf' = leaderId rf" "peers rf' = peers rf" "me rf' = me rf"
    "commitIndex rf' = commitIndex rf"
    "nextIndex rf' = nextIndex rf" "matchIndex rf' = matchIndex rf"
    "synced rf'" "ReadSnapshot (rf_persister rf') = snap"
    "sender rf' = sender rf @ [snapshot_msg snap (lastAppliedTerm rf') index]"
    "Log rf' = drop (nat (index - lastAppliedIndex rf)) (Log rf)"
    using assms rng
    by (auto simp: doSnapshot_branches Let_def synced_def hard_state_def lastLogIndex_def)
qed

lemma drop_log_at:
  assumes "Log rf' = drop (nat (index - lastAppliedIndex rf)) (Log rf)"
    and "lastAppliedIndex rf' = index" and "lastAppliedIndex rf \<le> index"
    and "index \<le> lastLogIndex rf"
  shows "log_at rf' i = (if index < i then log_at rf i else None)"
  using assms
  by (auto simp: log_at_def lastLogIndex_def intro!: arg_cong [where f = "(!) (Log rf)"])

lemma doSnapshot_log_at:
  assumes "doSnapshot index snap rf = Inr rf'" and "lastAppliedIndex rf \<le> index"
  shows "log_at rf' i = (if index < i then log_at rf i else None)"
    and "index \<le> i \<Longrightarrow> term_at rf' i = term_at rf i"
proof -
  note f = doSnapshot_fields [OF assms]
  show "log_at rf' i = (if index < i then log_at rf i else None)" for i
    using drop_log_at f(1,4,17) assms(2) by blast
  then show "index \<le> i \<Longrightarrow> term_at rf' i = term_at rf i"
    using f(1,5) assms(2) by (cases "i = index") (auto simp: term_at_def)
qed

lemma doSnapshot_wf:
  assumes "raft_wf rf" and "doSnapshot index snap rf = Inr rf'"
  shows "raft_wf rf'"
proof (cases "lastAppliedIndex rf \<le> index")
  case False
  then show ?thesis using assms by (simp add: doSnapshot_branches)
next
  case True
  note f = doSnapshot_fields [OF assms(2) True]
  let ?k = "nat (index - lastAppliedIndex rf)"
  have ok: "terms_ok (lastAppliedTerm rf) (currentTerm rf) (Log rf)"
    using assms(1) by (simp add: raft_wf_def)
  have "terms_ok (lastAppliedTerm rf') (currentTerm rf) (drop ?k (Log rf))"
  proof (cases "index = lastAppliedIndex rf")
    case eq: True
    then have "lastAppliedTerm rf' = lastAppliedTerm rf"
      using f(5) by (simp add: term_at_def)
    then show ?thesis using eq ok by simp
  next
    case neq: False
    have k: "0 < ?k" "?k \<le> length (Log rf)"
      using True neq f(4) by (auto simp: lastLogIndex_def)
    have "term_at rf index = Some (Term (Log rf ! (?k - 1)))"
      using True neq f(4) term_at_inner [of rf index] by (simp add: nat_diff_distrib')
    then show ?thesis
      using f(5) terms_ok_drop [OF ok k] by simp
  qed
  then show ?thesis
    using assms(1) True f by (simp add: raft_wf_def)
qed

section \<open>Installing a leader's snapshot\<close>

text \<open>The handler's effect on the log, as one update.\<close>

definition is_accept :: "InstallsnapshotArgs \<Rightarrow> 'c raft \<Rightarrow> 'c raft" where
  "is_accept args rf =
     (let idx = isa_LastIncludedIndex args; t = isa_LastIncludedTerm args
      in if lastLogIndex rf \<le> idx then rf\<lparr>Log := [], lastAppliedIndex := idx, lastAppliedTerm := t\<rparr>
         else if lastAppliedIndex rf < idx
         then rf\<lparr>Log := drop (nat (idx - lastAppliedIndex rf)) (Log rf), lastAppliedIndex := idx,
                 lastAppliedTerm := t, lastApplied := idx\<rparr>
         else rf)"

lemma is_accept_frame [simp]:
  "peers (is_accept args rf) = peers rf" "me (is_accept args rf) = me rf"
  "leaderId (is_accept args rf) = leaderId rf" "currentTerm (is_accept args rf) = currentTerm rf"
  "voteFor (is_accept args rf) = voteFor rf" "commitIndex (is_accept args rf) = commitIndex rf"
  "nextIndex (is_accept args rf) = nextIndex rf" "matchIndex (is_accept args rf) = matchIndex rf"
  "sender (is_accept args rf) = sender rf" "rf_persister (is_accept args rf) = rf_persister rf"
  by (simp_all add: is_accept_def Let_def)

lemma is_accept_vote_synced [simp]: "vote_synced (is_accept args rf) = vote_synced rf"
  by (simp add: vote_synced_def)

text \<open>The handler never panics: its slice expressions are guarded.\<close>

lemma InstallSnapshot_branches:
  "InstallSnapshot now rnd args rf =
     Inr (if isa_Term args < currentTerm rf
          then (updateElectionTimeout now rnd rf, \<lparr>isr_Term = currentTerm rf\<rparr>, None)
          else (updateElectionTimeout now rnd
                  (is_accept args (follow_leader (isa_Term args) (isa_LeaderId args) rf)),
                \<lparr>isr_Term = currentTerm rf\<rparr>, Some (isa_LastIncludedIndex args, isa_Data args)))"
proof -
  let ?idx = "isa_LastIncludedIndex args" and ?base = "lastAppliedIndex rf"
  have "go_nth (Log rf) (?idx - ?base - 1) = Inr (Log rf ! nat (?idx - ?base - 1))"
    and "go_from (Log rf) (?idx - ?base) = Inr (drop (nat (?idx - ?base)) (Log rf))"
    if "?base < ?idx" and "\<not> lastLogIndex rf \<le> ?idx"
    using that by (auto simp: go_nth_in go_from_in lastLogIndex_def)
  then show ?thesis
    by (auto simp: InstallSnapshot_def Let_def is_accept_def lastLogIndex_def)
qed

lemma InstallSnapshot_vote:
  assumes "InstallSnapshot now rnd args rf = Inr (rf', rep, sp)"
  shows "isa_Term args < currentTerm rf \<Longrightarrow>
      currentTerm rf' = currentTerm rf \<and> voteFor rf' = voteFor rf \<and> leaderId rf' = leaderId rf"
    and "currentTerm rf \<le> isa_Term args \<Longrightarrow> currentTerm rf' = isa_Term args \<and>
      voteFor rf' = isa_LeaderId args \<and> leaderId rf' = isa_LeaderId args"
    and "peers rf' = peers rf" and "me rf' = me rf"
    and "vote_synced rf \<Longrightarrow> vote_synced rf'"
  using assms
  by (auto simp: InstallSnapshot_branches max_def follow_leader_vote_synced split: if_splits)

text \<open>What the leader must have sent for the log to stay well formed.\<close>

definition is_args_ok :: "InstallsnapshotArgs \<Rightarrow> 'c raft \<Rightarrow> bool" where
  "is_args_ok args rf \<longleftrightarrow>
     -1 \<le> isa_LastIncludedIndex args \<and> isa_LastIncludedTerm args \<le> isa_Term args \<and>
     (lastAppliedIndex rf < isa_LastIncludedIndex args \<and>
        isa_LastIncludedIndex args < lastLogIndex rf \<longrightarrow>
      term_at rf (isa_LastIncludedIndex args) = Some (isa_LastIncludedTerm args))"

lemma is_accept_wf:
  assumes "raft_wf rf" and "is_args_ok args rf" and "isa_Term args \<le> currentTerm rf"
  shows "raft_wf (is_accept args rf)"
proof (cases "lastAppliedIndex rf < isa_LastIncludedIndex args \<and>
    isa_LastIncludedIndex args < lastLogIndex rf")
  case False
  then show ?thesis
    using assms by (auto simp: is_accept_def Let_def raft_wf_def is_args_ok_def terms_ok_def)
next
  case True
  let ?k = "nat (isa_LastIncludedIndex args - lastAppliedIndex rf)"
  have k: "0 < ?k" "?k \<le> length (Log rf)" and k1:
    "?k - 1 = nat (isa_LastIncludedIndex args - lastAppliedIndex rf - 1)"
    using True by (auto simp: lastLogIndex_def)
  have "Some (isa_LastIncludedTerm args) = Some (Term (Log rf ! (?k - 1)))"
    using True assms(2) term_at_inner [of rf "isa_LastIncludedIndex args"] k1
    by (simp add: is_args_ok_def)
  moreover have "terms_ok (Term (Log rf ! (?k - 1))) (currentTerm rf) (drop ?k (Log rf))"
    using assms(1) k by (intro terms_ok_drop) (auto simp: raft_wf_def)
  ultimately show ?thesis
    using True assms by (simp add: is_accept_def Let_def raft_wf_def is_args_ok_def)
qed

lemma InstallSnapshot_wf:
  assumes "raft_wf rf" and "is_args_ok args rf"
    and "InstallSnapshot now rnd args rf = Inr (rf', rep, sp)"
  shows "raft_wf rf'"
proof -
  let ?rf1 = "follow_leader (isa_Term args) (isa_LeaderId args) rf"
  have "term_at ?rf1 = term_at rf"
    by (rule term_at_cong) simp_all
  then have "is_args_ok args ?rf1"
    using assms(2) by (simp add: is_args_ok_def lastLogIndex_def)
  then have "currentTerm rf \<le> isa_Term args \<Longrightarrow> raft_wf (is_accept args ?rf1)"
    using assms(1) by (intro is_accept_wf follow_leader_wf) auto
  then show ?thesis
    using assms(1,3) by (auto simp: InstallSnapshot_branches split: if_splits)
qed

lemma InstallSnapshotSender_reply_fields:
  assumes "InstallSnapshotSender_reply i ok rep rf ar = Inr (rf', ar')"
  shows "currentTerm rf \<le> currentTerm rf'"
    and "currentTerm rf' = currentTerm rf \<Longrightarrow> voteFor rf' = voteFor rf \<and> leaderId rf' = leaderId rf"
    and "currentTerm rf < currentTerm rf' \<Longrightarrow> voteFor rf' = -1 \<and> leaderId rf' = -1"
    and "peers rf' = peers rf" and "me rf' = me rf" and "Log rf' = Log rf"
    and "lastAppliedIndex rf' = lastAppliedIndex rf"
    and "lastAppliedTerm rf' = lastAppliedTerm rf"
    and "length (nextIndex rf') = length (nextIndex rf)"
    and "length (matchIndex rf') = length (matchIndex rf)"
    and "synced rf \<Longrightarrow> synced rf'" and "vote_synced rf \<Longrightarrow> vote_synced rf'"
    and "ar_currentTerm ar' = ar_currentTerm ar" and "ar_count ar' = ar_count ar"
    and "ar_finished ar' = ar_finished ar + 1"
  using assms
  by (auto simp: InstallSnapshotSender_reply_def ae_round_skip_def go_Inr_iffs split: if_splits)

lemma InstallSnapshotSender_reply_wf:
  assumes "raft_wf rf" and "InstallSnapshotSender_reply i ok rep rf ar = Inr (rf', ar')"
  shows "raft_wf rf'"
  using assms(1) InstallSnapshotSender_reply_fields [OF assms(2)]
  by (auto simp: raft_wf_def intro: terms_ok_mono)

section \<open>Properties\<close>

text \<open>
  C14. Compaction. \<open>doSnapshot\<close> up to an index that the log holds (and that is not already
  inside the snapshot) removes exactly the entries up to it: later entries, the last index and
  the term at the boundary stay, the new log and the snapshot reach the disk together, and the
  service is told. Beyond the log it panics; inside the snapshot it does nothing.
\<close>

theorem doSnapshot_correct:
  assumes "lastAppliedIndex rf \<le> index" and "index \<le> lastLogIndex rf"
  shows "\<exists>rf'. doSnapshot index snap rf = Inr rf' \<and> lastAppliedIndex rf' = index \<and>
    lastLogIndex rf' = lastLogIndex rf \<and>
    (\<forall>i. log_at rf' i = (if index < i then log_at rf i else None)) \<and>
    term_at rf' index = term_at rf index \<and>
    durable (rf_persister rf') = Some (hard_state rf') \<and> ReadSnapshot (rf_persister rf') = snap \<and>
    sender rf' = sender rf @ [snapshot_msg snap (the (term_at rf index)) index]"
proof -
  obtain rf' where r: "doSnapshot index snap rf = Inr rf'"
    using assms by (simp add: doSnapshot_branches Let_def)
  note f = doSnapshot_fields [OF r assms(1)]
  show ?thesis
    using r f doSnapshot_log_at [OF r assms(1)] by (auto simp: synced_def)
qed

theorem doSnapshot_correct_witness:
  "\<exists>rf'. doSnapshot 1 [3] (sample_peer 1 0 sample_log 2) = Inr rf' \<and> log_at rf' 1 = None \<and>
     log_at rf' 2 = Some \<lparr>Command = Some 8, Term = 2\<rparr>"
proof -
  let ?rf = "sample_peer 1 0 sample_log 2"
  have "log_at ?rf 2 = Some \<lparr>Command = Some 8, Term = 2\<rparr>" "lastAppliedIndex ?rf \<le> 1"
    "1 \<le> lastLogIndex ?rf"
    by (simp_all add: sample_simps log_at_def lastLogIndex_def)
  then show ?thesis
    using doSnapshot_correct [of ?rf 1 "[3]"] by auto
qed

text \<open>
  C15. Installing a snapshot. The handler never panics. A current request makes the sender the
  leader; the follower then holds nothing up to the snapshot's last index beyond what its own
  snapshot covered, keeps the entries after it when its log reaches further, and hands the
  snapshot to \<open>doSnapshot\<close>.
\<close>

theorem InstallSnapshot_correct:
  assumes "currentTerm rf \<le> isa_Term args"
  shows "\<exists>rf' rep. InstallSnapshot now rnd args rf =
      Inr (rf', rep, Some (isa_LastIncludedIndex args, isa_Data args)) \<and>
    isr_Term rep = currentTerm rf \<and> currentTerm rf' = isa_Term args \<and>
    leaderId rf' = isa_LeaderId args \<and> voteFor rf' = isa_LeaderId args \<and>
    lastAppliedIndex rf' = max (lastAppliedIndex rf) (isa_LastIncludedIndex args) \<and>
    lastLogIndex rf' = max (lastLogIndex rf) (isa_LastIncludedIndex args) \<and>
    (\<forall>i. log_at rf' i = (if isa_LastIncludedIndex args < i then log_at rf i else None) \<or>
         isa_LastIncludedIndex args \<le> lastAppliedIndex rf \<and> log_at rf' i = log_at rf i)"
proof -
  let ?rf1 = "follow_leader (isa_Term args) (isa_LeaderId args) rf"
  let ?rf' = "updateElectionTimeout now rnd (is_accept args ?rf1)"
  have r: "InstallSnapshot now rnd args rf = Inr (?rf', \<lparr>isr_Term = currentTerm rf\<rparr>,
      Some (isa_LastIncludedIndex args, isa_Data args))"
    using assms by (simp add: InstallSnapshot_branches)
  have idx: "lastAppliedIndex ?rf' = max (lastAppliedIndex rf) (isa_LastIncludedIndex args)"
    "lastLogIndex ?rf' = max (lastLogIndex rf) (isa_LastIncludedIndex args)"
    by (auto simp: is_accept_def Let_def lastLogIndex_def)
  have log: "log_at ?rf' i = (if isa_LastIncludedIndex args < i then log_at rf i else None) \<or>
         isa_LastIncludedIndex args \<le> lastAppliedIndex rf \<and> log_at ?rf' i = log_at rf i" for i
    by (auto simp: log_at_def is_accept_def Let_def lastLogIndex_def
        intro!: arg_cong [where f = "(!) (Log rf)"])
  have "currentTerm ?rf' = isa_Term args" "leaderId ?rf' = isa_LeaderId args"
    "voteFor ?rf' = isa_LeaderId args"
    using assms by simp_all
  with r idx log show ?thesis by (metis InstallsnapshotReply.select_convs(1))
qed

theorem InstallSnapshot_correct_witness:
  "\<exists>rf' rep sp. InstallSnapshot 0 0 \<lparr>isa_Term = 3, isa_LeaderId = 2, isa_LastIncludedIndex = 1,
       isa_LastIncludedTerm = 2, isa_Data = [3]\<rparr> (sample_peer 1 0 sample_log 2) = Inr (rf', rep, sp) \<and>
     leaderId rf' = 2 \<and> lastAppliedIndex rf' = 1 \<and> lastLogIndex rf' = 2"
proof -
  let ?rf = "sample_peer 1 0 sample_log 2"
  let ?args = "\<lparr>isa_Term = 3, isa_LeaderId = 2, isa_LastIncludedIndex = 1,
       isa_LastIncludedTerm = 2, isa_Data = [3]\<rparr>"
  have "currentTerm ?rf \<le> isa_Term ?args" "lastAppliedIndex ?rf = -1" "lastLogIndex ?rf = 2"
    by (simp_all add: sample_simps lastLogIndex_def)
  then show ?thesis
    using InstallSnapshot_correct [of ?rf ?args 0 0] by auto
qed

text \<open>
  C16. The precondition of C7 is needed, and the code does not keep it: \<open>InstallSnapshot\<close>
  moves the snapshot without moving \<open>commitIndex\<close>. A new peer that gets a snapshot and is then
  elected reads \<open>Log[-1]\<close> in \<open>findMaxN\<close> and panics at the end of its first round.
\<close>

theorem findMaxN_panics_after_install:
  "\<exists>rf1 rep sp rf2 el.
     InstallSnapshot 0 0 \<lparr>isa_Term = 1, isa_LeaderId = 1, isa_LastIncludedIndex = 5,
       isa_LastIncludedTerm = 1, isa_Data = []\<rparr> (Make 3 0 MakePersister 0 0 :: nat raft) =
       Inr (rf1, rep, sp) \<and>
     startElection_begin rf1 = (rf2, el) \<and>
     sendAERpcs_finish (startElection_finish 0 0 rf2 (el\<lparr>el_voteCount := 2\<rparr>))
       \<lparr>ar_currentTerm = 2, ar_count = 2, ar_finished = 2\<rparr> = Inl IndexOutOfRange"
proof -
  let ?rf = "Make 3 0 MakePersister 0 0 :: nat raft"
  let ?args = "\<lparr>isa_Term = 1, isa_LeaderId = 1, isa_LastIncludedIndex = 5,
       isa_LastIncludedTerm = 1, isa_Data = []\<rparr>"
  have boot: "hard_state ?rf = boot_state" by (simp add: Make_hard_state durable_def)
  then have m: "currentTerm ?rf = 0" "lastAppliedIndex ?rf = -1" "commitIndex ?rf = -1"
    "lastLogIndex ?rf = 0"
    by (auto simp: hard_state_def boot_state_def Make_fields lastLogIndex_def)
  obtain rf1 rep sp where r1: "InstallSnapshot 0 0 ?args ?rf = Inr (rf1, rep, sp)"
    "Log rf1 = []" "lastAppliedIndex rf1 = 5" "commitIndex rf1 = -1" "peers rf1 = 3" "me rf1 = 0"
    using m
    by (simp add: InstallSnapshot_branches is_accept_def lastLogIndex_def Make_fields)
  obtain rf2 el where r2: "startElection_begin rf1 = (rf2, el)" by force
  have f: "Log rf2 = []" "lastAppliedIndex rf2 = 5" "commitIndex rf2 = -1" "peers rf2 = 3"
    "me rf2 = 0"
    using r1(2-) r2 by (auto simp: startElection_begin_def Let_def)
  have "findMaxN_from (startElection_finish 0 0 rf2 (el\<lparr>el_voteCount := 2\<rparr>)) 5 =
      Inl IndexOutOfRange"
    using f by (subst findMaxN_from.simps)
      (simp add: startElection_finish_def beLeaer_def go_nth_def numeral_3_eq_3)
  then have "sendAERpcs_finish (startElection_finish 0 0 rf2 (el\<lparr>el_voteCount := 2\<rparr>))
       \<lparr>ar_currentTerm = 2, ar_count = 2, ar_finished = 2\<rparr> = Inl IndexOutOfRange"
    using f by (simp add: sendAERpcs_finish_def findMaxN_def startElection_finish_def)
  with r1(1) r2 show ?thesis by blast
qed

end
