(* ===== verification/Raft_Apply.thy ===== *)
theory Raft_Apply
  imports Raft_Snapshot
begin

text \<open>
  Delivery to the service in \<open>src/raft/raft.go\<close>: \<open>applyLogToRsm\<close> puts committed entries on
  the channel \<open>rf.sender\<close>, \<open>doSnapshot\<close> puts snapshots there, and the goroutine
  \<open>ApplyMsgSender\<close> passes on to \<open>applyCh\<close> what comes in order. Also the decision one
  iteration of \<open>ticker\<close> takes.
\<close>

section \<open>Operations\<close>

definition command_msg :: "int \<Rightarrow> 'c option \<Rightarrow> 'c ApplyMsg" where
  "command_msg i c =
     \<lparr>am_CommandValid = True, am_Command = c, am_CommandIndex = i,
      am_SnapshotValid = False, am_Snapshot = [], am_SnapshotTerm = 0, am_SnapshotIndex = 0\<rparr>"

function apply_loop :: "int \<Rightarrow> int \<Rightarrow> 'c raft \<Rightarrow> 'c raft go" where
  "apply_loop i index rf =
     (if i \<le> index \<and> i - lastAppliedIndex rf - 1 \<ge> 0
      then go_bind (go_nth (Log rf) (i - lastAppliedIndex rf - 1)) (\<lambda>e.
             let rf1 = rf\<lparr>sender := sender rf @ [command_msg i (Command e)]\<rparr>;
                 rf2 = rf1\<lparr>lastApplied := lastApplied rf1 + 1\<rparr>
             in apply_loop (i + 1) index rf2)
      else Inr rf)"
  by pat_completeness auto
termination
  by (relation "measure (\<lambda>(i, index, rf). nat (index + 1 - i))") auto

declare apply_loop.simps [simp del]

definition applyLogToRsm :: "int \<Rightarrow> 'c raft \<Rightarrow> 'c raft go" where
  "applyLogToRsm index rf =
     (if commitIndex rf > lastApplied rf then apply_loop (lastApplied rf + 1) index rf else Inr rf)"

text \<open>One message of \<open>ApplyMsgSender\<close>'s loop: the new \<open>next\<close> and what goes to \<open>applyCh\<close>.\<close>

definition ApplyMsgSender_step :: "int \<Rightarrow> 'c ApplyMsg \<Rightarrow> int \<times> 'c ApplyMsg list" where
  "ApplyMsgSender_step nxt m =
     (if am_SnapshotValid m then (am_SnapshotIndex m + 1, [m])
      else if am_CommandValid m \<and> am_CommandIndex m = nxt then (nxt + 1, [m])
      else (nxt, []))"

fun ApplyMsgSender :: "int \<Rightarrow> 'c ApplyMsg list \<Rightarrow> int \<times> 'c ApplyMsg list" where
  "ApplyMsgSender nxt [] = (nxt, [])"
| "ApplyMsgSender nxt (m # ms) =
     (case ApplyMsgSender_step nxt m of (nxt1, out1) \<Rightarrow>
      case ApplyMsgSender nxt1 ms of (nxt2, out2) \<Rightarrow> (nxt2, out1 @ out2))"

datatype ticker_action = TickerExit | TickerSendAERpcs | TickerStartElection | TickerSleep

definition ticker :: "int \<Rightarrow> 'c raft \<Rightarrow> ticker_action" where
  "ticker now rf =
     (if killed rf then TickerExit
      else if leaderId rf = me rf then TickerSendAERpcs
      else if isTimeout now rf then TickerStartElection
      else TickerSleep)"

text \<open>One turn of \<open>applier\<close>, which ends when the peer has been killed.\<close>

definition applier :: "'c raft \<Rightarrow> 'c raft go option" where
  "applier rf = (if killed rf then None else Some (applyLogToRsm (commitIndex rf) rf))"

section \<open>Delivery is in order and without gaps\<close>

text \<open>A stream of messages that a service can apply starting at index \<open>nxt\<close>: commands carry
  consecutive indices, and a snapshot restarts the count after its own index.\<close>

fun gapless :: "int \<Rightarrow> 'c ApplyMsg list \<Rightarrow> bool" where
  "gapless nxt [] = True"
| "gapless nxt (m # ms) =
     (if am_SnapshotValid m then gapless (am_SnapshotIndex m + 1) ms
      else am_CommandValid m \<and> am_CommandIndex m = nxt \<and> gapless (nxt + 1) ms)"

lemma ApplyMsgSender_gapless: "gapless nxt (snd (ApplyMsgSender nxt ms))"
  by (induction nxt ms rule: ApplyMsgSender.induct)
    (auto simp: ApplyMsgSender_step_def split: prod.splits if_splits)

lemma ApplyMsgSender_id: "gapless nxt ms \<Longrightarrow> snd (ApplyMsgSender nxt ms) = ms"
  by (induction nxt ms rule: ApplyMsgSender.induct)
    (auto simp: ApplyMsgSender_step_def split: prod.splits if_splits)

lemma ApplyMsgSender_append:
  "ApplyMsgSender nxt (ms @ ms') =
     (case ApplyMsgSender nxt ms of (nxt1, out1) \<Rightarrow>
      case ApplyMsgSender nxt1 ms' of (nxt2, out2) \<Rightarrow> (nxt2, out1 @ out2))"
  by (induction nxt ms rule: ApplyMsgSender.induct) (auto split: prod.splits)

lemma ApplyMsgSender_commands:
  "ApplyMsgSender nxt (map (\<lambda>k. command_msg (nxt + int k) (f k)) [0..<n]) =
     (nxt + int n, map (\<lambda>k. command_msg (nxt + int k) (f k)) [0..<n])"
  by (induction n) (simp_all add: ApplyMsgSender_append ApplyMsgSender_step_def command_msg_def)

section \<open>What is put on the channel\<close>

lemma apply_loop_eq:
  assumes "lastAppliedIndex rf < i" and "i + int n \<le> lastLogIndex rf + 1"
  shows "apply_loop i (i + int n - 1) rf =
    Inr (rf\<lparr>sender := sender rf @
              map (\<lambda>k. command_msg (i + int k) (Command (the (log_at rf (i + int k))))) [0..<n],
            lastApplied := lastApplied rf + int n\<rparr>)"
  using assms
proof (induction n arbitrary: i rf)
  case 0
  then show ?case by (simp add: apply_loop.simps)
next
  case (Suc n)
  let ?e = "Log rf ! nat (i - lastAppliedIndex rf - 1)"
  let ?rf = "rf\<lparr>sender := sender rf @ [command_msg i (Command ?e)], lastApplied := lastApplied rf + 1\<rparr>"
  have nth: "go_nth (Log rf) (i - lastAppliedIndex rf - 1) = Inr ?e"
    using Suc.prems by (intro go_nth_in) (auto simp: lastLogIndex_def)
  have e: "log_at rf i = Some ?e"
    using Suc.prems by (simp add: log_at_def)
  have la: "log_at ?rf = log_at rf"
    by (rule log_at_cong) simp_all
  have "apply_loop i (i + int (Suc n) - 1) rf = apply_loop (i + 1) (i + 1 + int n - 1) ?rf"
    using Suc.prems nth by (subst apply_loop.simps) (simp add: Let_def algebra_simps)
  also have "\<dots> = Inr (?rf\<lparr>sender := sender ?rf @
       map (\<lambda>k. command_msg (i + 1 + int k) (Command (the (log_at rf (i + 1 + int k))))) [0..<n],
      lastApplied := lastApplied ?rf + int n\<rparr>)"
    using Suc.IH [of ?rf "i + 1"] Suc.prems by (simp add: la lastLogIndex_def)
  finally show ?case
    using e by (simp add: map_upt_Suc algebra_simps del: upt_Suc)
qed

text \<open>The commands put on the channel for the indices after \<open>lastApplied\<close> up to \<open>index\<close>.\<close>

definition apply_msgs :: "'c raft \<Rightarrow> int \<Rightarrow> 'c ApplyMsg list" where
  "apply_msgs rf index =
     map (\<lambda>k. let i = lastApplied rf + 1 + int k in command_msg i (Command (the (log_at rf i))))
       [0..<nat (index - lastApplied rf)]"

lemma applyLogToRsm_eq:
  assumes "lastAppliedIndex rf \<le> lastApplied rf" and "lastApplied rf < commitIndex rf"
    and "lastApplied rf \<le> index" and "index \<le> lastLogIndex rf"
  shows "applyLogToRsm index rf =
    Inr (rf\<lparr>sender := sender rf @ apply_msgs rf index, lastApplied := index\<rparr>)"
  using apply_loop_eq [of rf "lastApplied rf + 1" "nat (index - lastApplied rf)"] assms
  by (simp add: applyLogToRsm_def apply_msgs_def Let_def)

lemma apply_msgs_delivered:
  "lastApplied rf \<le> index \<Longrightarrow>
   ApplyMsgSender (lastApplied rf + 1) (apply_msgs rf index) = (index + 1, apply_msgs rf index)"
  using ApplyMsgSender_commands [of "lastApplied rf + 1"
      "\<lambda>k. Command (the (log_at rf (lastApplied rf + 1 + int k)))" "nat (index - lastApplied rf)"]
  by (simp add: apply_msgs_def Let_def)

lemma apply_loop_panics:
  assumes "lastAppliedIndex rf < i" and "i \<le> lastLogIndex rf + 1" and "lastLogIndex rf < index"
  shows "apply_loop i index rf = Inl IndexOutOfRange"
  using assms
proof (induction i index rf rule: apply_loop.induct)
  case (1 i index rf)
  show ?case
  proof (cases "i = lastLogIndex rf + 1")
    case True
    then have "go_nth (Log rf) (i - lastAppliedIndex rf - 1) = Inl IndexOutOfRange"
      by (intro go_nth_out) (simp add: lastLogIndex_def)
    then show ?thesis
      using "1.prems" by (subst apply_loop.simps) simp
  next
    case False
    then have nth: "go_nth (Log rf) (i - lastAppliedIndex rf - 1) =
        Inr (Log rf ! nat (i - lastAppliedIndex rf - 1))"
      using "1.prems" by (intro go_nth_in) (auto simp: lastLogIndex_def)
    show ?thesis
      using "1.IH" [OF _ nth refl refl] "1.prems" False nth
      by (subst apply_loop.simps) (simp add: Let_def lastLogIndex_def)
  qed
qed

lemma apply_loop_stops: "i \<le> lastAppliedIndex rf \<or> index < i \<Longrightarrow> apply_loop i index rf = Inr rf"
  by (subst apply_loop.simps) auto

text \<open>Everything \<open>applyLogToRsm\<close> can do: nothing, deliver up to the index, or panic when the
  log does not reach the index.\<close>

lemma applyLogToRsm_branches:
  "applyLogToRsm index rf =
     (if commitIndex rf \<le> lastApplied rf \<or> lastApplied rf < lastAppliedIndex rf \<or>
         index \<le> lastApplied rf then Inr rf
      else if lastLogIndex rf < index \<and> lastApplied rf \<le> lastLogIndex rf then Inl IndexOutOfRange
      else if index \<le> lastLogIndex rf
      then Inr (rf\<lparr>sender := sender rf @ apply_msgs rf index, lastApplied := index\<rparr>)
      else apply_loop (lastApplied rf + 1) index rf)"
  using applyLogToRsm_eq [of rf index] apply_loop_panics [of rf "lastApplied rf + 1" index]
    apply_loop_stops [of "lastApplied rf + 1" rf index]
  by (auto simp: applyLogToRsm_def)

lemma apply_loop_beyond:
  assumes "lastLogIndex rf + 1 < i" and "lastAppliedIndex rf < i" and "i \<le> index"
  shows "apply_loop i index rf = Inl IndexOutOfRange"
proof -
  have "go_nth (Log rf) (i - lastAppliedIndex rf - 1) = Inl IndexOutOfRange"
    using assms by (intro go_nth_out) (simp add: lastLogIndex_def)
  then show ?thesis
    using assms by (subst apply_loop.simps) simp
qed

lemma applyLogToRsm_Inr:
  assumes "applyLogToRsm index rf = Inr rf'"
  shows "rf' = rf \<or>
    lastAppliedIndex rf \<le> lastApplied rf \<and> lastApplied rf < index \<and> index \<le> lastLogIndex rf \<and>
    rf' = rf\<lparr>sender := sender rf @ apply_msgs rf index, lastApplied := index\<rparr>"
  using assms apply_loop_beyond [of rf "lastApplied rf + 1" index]
  by (auto simp: applyLogToRsm_branches split: if_splits)

section \<open>Properties\<close>

text \<open>
  C17. The delivery goroutine is a filter that makes any stream applicable: what
  \<open>ApplyMsgSender\<close> passes on has consecutive command indices between snapshots, and it drops
  nothing exactly when the stream already has that form.
\<close>

theorem ApplyMsgSender_filters:
  "gapless nxt (snd (ApplyMsgSender nxt ms)) \<and> (snd (ApplyMsgSender nxt ms) = ms \<longleftrightarrow> gapless nxt ms)"
  using ApplyMsgSender_gapless [of nxt ms] ApplyMsgSender_id [of nxt ms] by auto

text \<open>
  Applying committed entries. From a peer whose snapshot does not run ahead of what it
  applied, \<open>applyLogToRsm\<close> up to an index of the log sends the commands of exactly the entries
  after \<open>lastApplied\<close>, in order, and sets \<open>lastApplied\<close>; \<open>ApplyMsgSender\<close> passes all of them on.
\<close>

theorem applyLogToRsm_delivers:
  assumes "lastAppliedIndex rf \<le> lastApplied rf" and "lastApplied rf < commitIndex rf"
    and "lastApplied rf \<le> index" and "index \<le> lastLogIndex rf"
  shows "\<exists>ms. applyLogToRsm index rf = Inr (rf\<lparr>sender := sender rf @ ms, lastApplied := index\<rparr>) \<and>
    map (\<lambda>m. Some (am_Command m)) ms =
      map (\<lambda>i. map_option Command (log_at rf i)) [lastApplied rf + 1 .. index] \<and>
    ApplyMsgSender (lastApplied rf + 1) ms = (index + 1, ms)"
proof (intro exI conjI)
  let ?n = "nat (index - lastApplied rf)"
  have upto: "[lastApplied rf + 1 .. index] = map (\<lambda>k. lastApplied rf + 1 + int k) [0..<?n]"
    using assms(3) by (intro nth_equalityI) auto
  have some: "log_at rf (lastApplied rf + 1 + int k) \<noteq> None" if "k < ?n" for k
    using that assms unfolding log_at_None_iff by auto
  show "map (\<lambda>m. Some (am_Command m)) (apply_msgs rf index) =
      map (\<lambda>i. map_option Command (log_at rf i)) [lastApplied rf + 1 .. index]"
    unfolding upto using some
    by (auto simp: apply_msgs_def command_msg_def Let_def dest!: some)
qed (use assms applyLogToRsm_eq apply_msgs_delivered in auto)

theorem applyLogToRsm_delivers_witness:
  "\<exists>rf' ms. applyLogToRsm 2 (sample_peer 1 0 sample_log 2) = Inr rf' \<and> sender rf' = ms \<and>
     map am_Command ms = [None, Some 7, Some 8]"
proof -
  let ?rf = "sample_peer 1 0 sample_log 2"
  have h: "lastAppliedIndex ?rf \<le> lastApplied ?rf" "lastApplied ?rf < commitIndex ?rf"
    "lastApplied ?rf \<le> 2" "2 \<le> lastLogIndex ?rf"
    by (simp_all add: sample_simps lastLogIndex_def)
  have u: "[0 .. 2] = [0, 1, 2 :: int]" by (simp add: upto.simps)
  obtain ms where ms: "applyLogToRsm 2 ?rf = Inr (?rf\<lparr>sender := sender ?rf @ ms, lastApplied := 2\<rparr>)"
    "map (\<lambda>m. Some (am_Command m)) ms =
      map (\<lambda>i. map_option Command (log_at ?rf i)) [lastApplied ?rf + 1 .. 2]"
    using applyLogToRsm_delivers [OF h] by blast
  have "map Some (map am_Command ms) = map Some [None, Some 7, Some 8]"
    using ms(2) by (simp add: u sample_simps log_at_def lastLogIndex_def comp_def)
  then have "map am_Command ms = [None, Some 7, Some 8]"
    by (rule map_injective) simp
  moreover have "sender ?rf = []" by (simp add: sample_simps)
  ultimately show ?thesis using ms(1) by auto
qed

text \<open>A turn of \<open>applier\<close> brings a running peer up to its commit index.\<close>

lemma applier_catches_up:
  assumes "\<not> killed rf" and "lastAppliedIndex rf \<le> lastApplied rf" and "lastApplied rf \<le> commitIndex rf"
    and "commitIndex rf \<le> lastLogIndex rf"
  shows "\<exists>rf'. applier rf = Some (Inr rf') \<and> lastApplied rf' = commitIndex rf \<and> commitIndex rf' = commitIndex rf"
proof (cases "lastApplied rf < commitIndex rf")
  case True
  then show ?thesis using assms(1) applyLogToRsm_eq [OF assms(2) True assms(3,4)] by (simp add: applier_def)
next
  case False
  then have "lastApplied rf = commitIndex rf" using assms(3) by simp
  then show ?thesis using assms(1) by (simp add: applier_def applyLogToRsm_def)
qed

end
