(* ===== verification/Raft_Peer.thy ===== *)
theory Raft_Peer
  imports Raft_Apply
begin

text \<open>
  One Raft peer as a state machine: \<open>raft_step\<close> has one rule per critical section of
  \<open>src/raft/raft.go\<close>, labelled by the function it belongs to, with arbitrary messages, clock
  readings and random numbers; the labels of the two requests of a leader carry what it sent. The
  invariants of a peer are interpretations of \<open>inductive_invariant\<close> on it. A panic ends the
  process, so only returning sections step.
\<close>

datatype 'c raft_event =
    EvRequestVote | EvStartElection | EvElectionReply | EvElectionFinish
  | EvAppendEntries "'c AppendEntriesArgs" | EvAppendReply | EvRoundFinish
  | EvInstallSnapshot InstallsnapshotArgs | EvInstallReply | EvDoSnapshot | EvApply | EvStart | EvKill

inductive raft_step :: "'c raft_event \<Rightarrow> 'c raft \<Rightarrow> 'c raft \<Rightarrow> bool" where
  step_RequestVote:
    "RequestVote now rnd args rf = (rf', rep) \<Longrightarrow> raft_step EvRequestVote rf rf'"
| step_StartElection:
    "startElection_begin rf = (rf', el) \<Longrightarrow> raft_step EvStartElection rf rf'"
| step_ElectionReply:
    "electionSender_reply ok vrep rf el = (rf', el') \<Longrightarrow> raft_step EvElectionReply rf rf'"
| step_ElectionFinish:
    "startElection_finish now rnd rf el = rf' \<Longrightarrow> raft_step EvElectionFinish rf rf'"
| step_AppendEntries:
    "AppendEntries now rnd aargs rf = Inr (rf', arep) \<Longrightarrow> raft_step (EvAppendEntries aargs) rf rf'"
| step_AppendReply:
    "appendRPCWorker_reply i ok aargs arep rf ar = Inr (rf', ar') \<Longrightarrow>
     raft_step EvAppendReply rf rf'"
| step_RoundFinish:
    "sendAERpcs_finish rf ar = Inr rf' \<Longrightarrow> raft_step EvRoundFinish rf rf'"
| step_InstallSnapshot:
    "InstallSnapshot now rnd iargs rf = Inr (rf', irep, sp) \<Longrightarrow>
     raft_step (EvInstallSnapshot iargs) rf rf'"
| step_InstallReply:
    "InstallSnapshotSender_reply i ok irep rf ar = Inr (rf', ar') \<Longrightarrow>
     raft_step EvInstallReply rf rf'"
| step_DoSnapshot:
    "doSnapshot index snap rf = Inr rf' \<Longrightarrow> raft_step EvDoSnapshot rf rf'"
| step_Apply:
    "applyLogToRsm index rf = Inr rf' \<Longrightarrow> raft_step EvApply rf rf'"
| step_Start:
    "Start command rf = (rf', ix, t, b) \<Longrightarrow> raft_step EvStart rf rf'"
| step_Kill:
    "raft_step EvKill rf (Kill rf)"

inductive_cases raft_stepE: "raft_step ev rf rf'"





section \<open>Well-formedness\<close>









section \<open>Terms and identity\<close>

lemma raft_step_term_mono: "raft_step ev rf rf' \<Longrightarrow> currentTerm rf \<le> currentTerm rf'"
proof (induction rule: raft_step.induct)
  case (step_RequestVote now rnd args rf rf' rep)
  then show ?case using RequestVote_term [of now rnd args rf] by simp
next
  case (step_StartElection rf rf' el)
  then show ?case using startElection_begin_fields(1) [of rf rf' el] by simp
next
  case (step_ElectionReply ok vrep rf el rf' el')
  then show ?case by (rule electionSender_reply_fields(1))
next
  case (step_ElectionFinish now rnd rf el rf')
  then show ?case using startElection_finish_fields(1) [of now rnd rf el] by simp
next
  case (step_AppendEntries now rnd aargs rf rf' arep)
  then show ?case
    using AppendEntries_vote(1,2) [of now rnd aargs rf rf' arep]
    by (cases "aea_Term aargs < currentTerm rf") auto
next
  case (step_AppendReply i ok aargs arep rf ar rf' ar')
  then show ?case by (rule appendRPCWorker_reply_fields(1))
next
  case (step_RoundFinish rf ar rf')
  then have "rf' = rf\<lparr>commitIndex := commitIndex rf'\<rparr>" by (rule sendAERpcs_finish_fields)
  then have "currentTerm rf' = currentTerm (rf\<lparr>commitIndex := commitIndex rf'\<rparr>)" by (rule arg_cong)
  then show ?case by simp
next
  case (step_InstallSnapshot now rnd iargs rf rf' irep sp)
  then show ?case
    using InstallSnapshot_vote(1,2) [of now rnd iargs rf rf' irep sp]
    by (cases "isa_Term iargs < currentTerm rf") auto
next
  case (step_InstallReply i ok irep rf ar rf' ar')
  then show ?case by (rule InstallSnapshotSender_reply_fields(1))
next
  case (step_DoSnapshot index snap rf rf')
  then show ?case
    using doSnapshot_fields(6) [of index snap rf rf']
    by (cases "lastAppliedIndex rf \<le> index") (auto simp: doSnapshot_branches)
next
  case (step_Apply index rf rf')
  then show ?case using applyLogToRsm_Inr [of index rf rf'] by auto
next
  case (step_Start command rf rf' ix t b)
  then show ?case by (auto simp: Start_def Let_def split: if_splits)
qed (simp add: Kill_def)

lemma raft_step_vote:
  assumes "raft_step ev rf rf'" and "currentTerm rf' = currentTerm rf" and "voteFor rf' \<noteq> voteFor rf"
  shows "ev = EvRequestVote \<and> voteFor rf = -1 \<or>
    ((\<exists>a. ev = EvAppendEntries a) \<or> (\<exists>a. ev = EvInstallSnapshot a)) \<and> voteFor rf' = leaderId rf'"
  using assms
proof (induction rule: raft_step.induct)
  case (step_RequestVote now rnd args rf rf' rep)
  then show ?case
    using RequestVote_vote [of now rnd args rf] RequestVote_term [of now rnd args rf]
      RequestVote_granted_iff [of now rnd args rf]
    by (auto split: if_splits)
next
  case (step_StartElection rf rf' el)
  then show ?case using startElection_begin_fields(1) [of rf rf' el] by simp
next
  case (step_ElectionReply ok vrep rf el rf' el')
  then show ?case using electionSender_reply_fields(2) [of ok vrep rf el rf' el'] by simp
next
  case (step_ElectionFinish now rnd rf el rf')
  then show ?case using startElection_finish_fields(2) [of now rnd rf el] by simp
next
  case (step_AppendEntries now rnd aargs rf rf' arep)
  then show ?case
    using AppendEntries_vote(1,2) [of now rnd aargs rf rf' arep]
    by (cases "aea_Term aargs < currentTerm rf") auto
next
  case (step_AppendReply i ok aargs arep rf ar rf' ar')
  then show ?case using appendRPCWorker_reply_fields(2) [of i ok aargs arep rf ar rf' ar'] by simp
next
  case (step_RoundFinish rf ar rf')
  then have "rf' = rf\<lparr>commitIndex := commitIndex rf'\<rparr>" by (auto dest: sendAERpcs_finish_fields)
  then have "voteFor rf' = voteFor (rf\<lparr>commitIndex := commitIndex rf'\<rparr>)" by (rule arg_cong)
  then show ?case using step_RoundFinish by simp
next
  case (step_InstallSnapshot now rnd iargs rf rf' irep sp)
  then show ?case
    using InstallSnapshot_vote(1,2) [of now rnd iargs rf rf' irep sp]
    by (cases "isa_Term iargs < currentTerm rf") auto
next
  case (step_InstallReply i ok irep rf ar rf' ar')
  then show ?case using InstallSnapshotSender_reply_fields(2) [of i ok irep rf ar rf' ar'] by simp
next
  case (step_DoSnapshot index snap rf rf')
  then show ?case
    using doSnapshot_fields(7) [of index snap rf rf']
    by (cases "lastAppliedIndex rf \<le> index") (auto simp: doSnapshot_branches)
next
  case (step_Apply index rf rf')
  then show ?case using applyLogToRsm_Inr [of index rf rf'] by auto
next
  case (step_Start command rf rf' ix t b)
  then show ?case by (auto simp: Start_def Let_def split: if_splits)
qed (simp add: Kill_def)

section \<open>Delivery\<close>

text \<open>Everything the peer put on the channel so far passes \<open>ApplyMsgSender\<close>, which has reached
  the index after \<open>lastApplied\<close>.\<close>

definition delivering :: "int \<Rightarrow> 'c raft \<Rightarrow> bool" where
  "delivering start rf \<longleftrightarrow> ApplyMsgSender start (sender rf) = (lastApplied rf + 1, sender rf)"

lemma delivering_cong:
  "sender rf' = sender rf \<Longrightarrow> lastApplied rf' = lastApplied rf \<Longrightarrow>
   delivering start rf' = delivering start rf"
  by (simp add: delivering_def)

lemma delivering_apply:
  assumes "delivering start rf" and "applyLogToRsm index rf = Inr rf'"
  shows "delivering start rf'"
  using applyLogToRsm_Inr [OF assms(2)] assms(1) apply_msgs_delivered [of rf index]
  by (auto simp: delivering_def ApplyMsgSender_append)

lemma delivering_doSnapshot:
  assumes "delivering start rf" and "doSnapshot index snap rf = Inr rf'"
  shows "delivering start rf'"
proof (cases "lastAppliedIndex rf \<le> index")
  case True
  note f = doSnapshot_fields [OF assms(2) True]
  show ?thesis
    using assms(1) f(2,16)
    by (simp add: delivering_def ApplyMsgSender_append ApplyMsgSender_step_def snapshot_msg_def)
next
  case False
  then show ?thesis using assms by (simp add: doSnapshot_branches)
qed

lemma raft_step_delivery_frame:
  assumes "raft_step ev rf rf'" and "ev \<notin> range EvInstallSnapshot \<union> {EvDoSnapshot, EvApply}"
  shows "sender rf' = sender rf \<and> lastApplied rf' = lastApplied rf"
  using assms
proof (induction rule: raft_step.induct)
  case (step_RequestVote now rnd args rf rf' rep)
  then show ?case
    using RequestVote_frame(5,10) [of now rnd args rf] by simp
next
  case (step_AppendEntries now rnd aargs rf rf' arep)
  then show ?case using AppendEntries_vote(9,10) [of now rnd aargs rf rf' arep] by simp
next
  case (step_RoundFinish rf ar rf')
  then have "rf' = rf\<lparr>commitIndex := commitIndex rf'\<rparr>" by (auto dest: sendAERpcs_finish_fields)
  then show ?case by (metis raft.select_convs(9,12) raft.surjective raft.update_convs(8))
qed (auto simp: startElection_begin_def electionSender_reply_def startElection_finish_def
    appendRPCWorker_reply_def InstallSnapshotSender_reply_def Start_def Kill_def Let_def go_Inr_iffs
    split: if_splits)

lemma raft_step_delivering:
  assumes "raft_step ev rf rf'" and "ev \<notin> range EvInstallSnapshot" and "delivering start rf"
  shows "delivering start rf'"
proof (cases "ev \<in> {EvDoSnapshot, EvApply}")
  case False
  then show ?thesis
    using raft_step_delivery_frame [OF assms(1)] assms(2,3) delivering_cong [of rf' rf] by blast
next
  case True
  then show ?thesis
    using assms(1,3)
    by (auto elim!: raft_stepE intro: delivering_apply delivering_doSnapshot)
qed

lemma delivering_Make:
  "delivering (lastAppliedIndex (Make n m ps now rnd) + 1) (Make n m ps now rnd)"
  by (simp add: delivering_def Make_fields)

interpretation peer_delivery: inductive_invariant
  "\<lambda>rf. \<exists>n m ps now rnd. rf = Make n m ps now rnd \<and> start = lastAppliedIndex rf + 1"
  "\<lambda>rf rf'. \<exists>ev. ev \<notin> range EvInstallSnapshot \<and> raft_step ev rf rf'" "delivering start"
  by unfold_locales (auto simp: delivering_Make intro: raft_step_delivering)

section \<open>Properties\<close>



text \<open>A follower that gets the first entry of a leader, which has committed it, and applies it.\<close>

definition sample_append :: "nat AppendEntriesArgs" where
  "sample_append = \<lparr>aea_Term = 1, aea_LeaderId = 1, aea_PrevLogIndex = 0, aea_PrevLogTerm = 0,
     aea_Entries = [\<lparr>Command = Some 7, Term = 1\<rparr>], aea_LeaderCommit = 1\<rparr>"

definition sample_boot :: "nat raft" where
  "sample_boot = Make 3 0 MakePersister 0 0"

definition sample_follower :: "nat raft" where
  "sample_follower = fst (projr (AppendEntries 0 0 sample_append sample_boot))"

definition sample_applied :: "nat raft" where
  "sample_applied = projr (applyLogToRsm 1 sample_follower)"

lemma sample_follower_step: "raft_step (EvAppendEntries sample_append) sample_boot sample_follower"
proof -
  have "\<not> isl (AppendEntries 0 0 sample_append sample_boot)" by code_simp
  then show ?thesis
    by (intro step_AppendEntries [of 0 0 _ _ _ "snd (projr (AppendEntries 0 0 sample_append sample_boot))"])
      (simp add: sample_follower_def)
qed

lemma sample_applied_step: "raft_step EvApply sample_follower sample_applied"
proof -
  have "\<not> isl (applyLogToRsm 1 sample_follower)" by code_simp
  then show ?thesis by (intro step_Apply [of 1]) (simp add: sample_applied_def)
qed

lemma sample_computed:
  "map Term (Log sample_follower) = [0, 1]" "lastAppliedTerm sample_follower = 0"
  "currentTerm sample_boot = 0" "currentTerm sample_follower = 1" "voteFor sample_boot = - 1" "voteFor sample_follower = 1"
  "sender sample_applied = [command_msg 0 None, command_msg 1 (Some 7)]" "lastAppliedIndex sample_boot = - 1"
  by code_simp+


text \<open>
  C12. Terms never go back: across any critical section of a peer its term does not decrease,
  and it keeps its vote as long as its term stays, unless it had no vote or follows the leader
  of that term.
\<close>

theorem raft_step_term_vote:
  assumes "raft_step ev rf rf'"
  shows "currentTerm rf \<le> currentTerm rf' \<and>
    (currentTerm rf' = currentTerm rf \<and> voteFor rf' \<noteq> voteFor rf \<longrightarrow>
       ev = EvRequestVote \<and> voteFor rf = -1 \<or>
       ev \<in> range EvAppendEntries \<union> range EvInstallSnapshot \<and> voteFor rf' = leaderId rf')"
proof (intro conjI impI)
  show "currentTerm rf \<le> currentTerm rf'" using assms by (rule raft_step_term_mono)
  assume "currentTerm rf' = currentTerm rf \<and> voteFor rf' \<noteq> voteFor rf"
  with assms show "ev = EvRequestVote \<and> voteFor rf = -1 \<or>
       ev \<in> range EvAppendEntries \<union> range EvInstallSnapshot \<and> voteFor rf' = leaderId rf'"
    by (auto dest: raft_step_vote)
qed

theorem raft_step_term_vote_witness:
  "currentTerm sample_boot \<le> currentTerm sample_follower \<and> currentTerm sample_follower = 1 \<and>
   voteFor sample_boot = - 1 \<and> voteFor sample_follower = 1"
  using raft_step_term_vote [OF sample_follower_step] sample_computed by simp

text \<open>
  C18. Delivery. In every run of a restarted peer that installs no foreign snapshot, all that
  the peer ever put on its channel reaches the service, in order and without gaps, and the
  next index the service waits for is the one after \<open>lastApplied\<close>.
\<close>

theorem raft_run_delivers:
  assumes "reaches (\<lambda>rf. rf = Make n m ps now rnd)
      (\<lambda>rf rf'. \<exists>ev. ev \<notin> range EvInstallSnapshot \<and> raft_step ev rf rf') rf"
    and "start = lastAppliedIndex (Make n m ps now rnd) + 1"
  shows "ApplyMsgSender start (sender rf) = (lastApplied rf + 1, sender rf) \<and>
    gapless start (sender rf)"
proof -
  have "delivering start rf"
    using assms(1)
  proof (induction rule: reaches.induct)
    case (reaches_init s)
    then show ?case using delivering_Make assms(2) by simp
  next
    case (reaches_step s t)
    then show ?case by (auto intro: peer_delivery.invar_step)
  qed
  then show ?thesis
    using ApplyMsgSender_gapless [of start "sender rf"] by (simp add: delivering_def)
qed

theorem raft_run_delivers_witness:
  "gapless 0 (sender sample_applied) \<and> sender sample_applied = [command_msg 0 None, command_msg 1 (Some 7)]"
proof -
  let ?stp = "\<lambda>rf rf'. \<exists>ev. ev \<notin> range EvInstallSnapshot \<and> raft_step ev rf rf'"
  have "reaches (\<lambda>rf. rf = Make 3 0 MakePersister 0 0) ?stp sample_boot"
    by (rule reaches_init) (simp add: sample_boot_def)
  then have "reaches (\<lambda>rf. rf = Make 3 0 MakePersister 0 0) ?stp sample_follower"
    by (rule reaches_step) (use sample_follower_step in blast)
  then have "reaches (\<lambda>rf. rf = Make 3 0 MakePersister 0 0) ?stp sample_applied"
    by (rule reaches_step) (use sample_applied_step in blast)
  moreover have "0 = lastAppliedIndex (Make 3 0 MakePersister 0 0 :: nat raft) + 1"
    using sample_computed(8) unfolding sample_boot_def by simp
  ultimately show ?thesis using raft_run_delivers sample_computed(7) by blast
qed

end
