(* ===== verification/Vote_Spec.thy ===== *)
theory Vote_Spec
  imports Lab_Prelude
begin

text \<open>
  An abstract specification of voting, which the Raft cluster refines: every voter has a term
  and a vote, grants are recorded as (term, voter, candidate), and a win as (term, candidate,
  quorum). The steps are the only ways in which terms and votes may move; in particular a
  voter may follow a candidate that has already won the term, whatever it voted before. The
  invariant gives the contract: at most one winner per term.
\<close>

record votes =
  v_term :: "nat \<Rightarrow> int"
  v_vote :: "nat \<Rightarrow> int"
  v_grants :: "(int \<times> nat \<times> nat) set"
  v_wins :: "(int \<times> nat \<times> nat set) set"

definition vote_init :: "votes \<Rightarrow> bool" where
  "vote_init s \<longleftrightarrow> v_grants s = {} \<and> v_wins s = {}"

inductive vote_step :: "nat \<Rightarrow> votes \<Rightarrow> votes \<Rightarrow> bool" for n :: nat where
  adopt:
    "v_term s v < T \<Longrightarrow> x = -1 \<or> (\<exists>l Q. x = int l \<and> (T, l, Q) \<in> v_wins s) \<Longrightarrow>
     vote_step n s (s\<lparr>v_term := (v_term s)(v := T), v_vote := (v_vote s)(v := x)\<rparr>)"
| candidacy:
    "vote_step n s (s\<lparr>v_term := (v_term s)(v := v_term s v + 1),
                      v_vote := (v_vote s)(v := int v),
                      v_grants := insert (v_term s v + 1, v, v) (v_grants s)\<rparr>)"
| grant:
    "v_vote s v = -1 \<or> v_vote s v = int c \<Longrightarrow>
     vote_step n s (s\<lparr>v_vote := (v_vote s)(v := int c),
                      v_grants := insert (v_term s v, v, c) (v_grants s)\<rparr>)"
| follow:
    "(v_term s v, l, Q) \<in> v_wins s \<Longrightarrow>
     vote_step n s (s\<lparr>v_vote := (v_vote s)(v := int l)\<rparr>)"
| win:
    "Q \<subseteq> {..<n} \<Longrightarrow> n div 2 < card Q \<Longrightarrow> c \<in> Q \<Longrightarrow> \<forall>v \<in> Q. (T, v, c) \<in> v_grants s \<Longrightarrow>
     \<forall>Q'. (T, c, Q') \<notin> v_wins s \<Longrightarrow>
     vote_step n s (s\<lparr>v_wins := insert (T, c, Q) (v_wins s)\<rparr>)"

text \<open>Quorum members granted the winner and nobody else, and still hold that vote while they
  are in the term; in a term without a winner every voter granted at most one candidate.\<close>

definition vote_inv :: "nat \<Rightarrow> votes \<Rightarrow> bool" where
  "vote_inv n s \<longleftrightarrow>
     (\<forall>T v c. (T, v, c) \<in> v_grants s \<longrightarrow> T \<le> v_term s v) \<and>
     (\<forall>T v c. (T, v, c) \<in> v_grants s \<longrightarrow> (\<forall>l Q. (T, l, Q) \<notin> v_wins s) \<longrightarrow>
        (v_term s v = T \<longrightarrow> v_vote s v = int c) \<and> (\<forall>c'. (T, v, c') \<in> v_grants s \<longrightarrow> c' = c)) \<and>
     (\<forall>T l Q. (T, l, Q) \<in> v_wins s \<longrightarrow> Q \<subseteq> {..<n} \<and> n div 2 < card Q \<and> l \<in> Q) \<and>
     (\<forall>T l Q v. (T, l, Q) \<in> v_wins s \<longrightarrow> v \<in> Q \<longrightarrow>
        (T, v, l) \<in> v_grants s \<and> (v_term s v = T \<longrightarrow> v_vote s v = int l) \<and>
        (\<forall>c. (T, v, c) \<in> v_grants s \<longrightarrow> c = l))"

lemma vote_invD:
  assumes "vote_inv n s"
  shows "(T, v, c) \<in> v_grants s \<Longrightarrow> T \<le> v_term s v"
    and "(T, v, c) \<in> v_grants s \<Longrightarrow> \<forall>l Q. (T, l, Q) \<notin> v_wins s \<Longrightarrow> v_term s v = T \<Longrightarrow>
      v_vote s v = int c"
    and "(T, v, c) \<in> v_grants s \<Longrightarrow> \<forall>l Q. (T, l, Q) \<notin> v_wins s \<Longrightarrow> (T, v, c') \<in> v_grants s \<Longrightarrow>
      c' = c"
    and "(T, l, Q) \<in> v_wins s \<Longrightarrow> Q \<subseteq> {..<n}" and "(T, l, Q) \<in> v_wins s \<Longrightarrow> n div 2 < card Q"
    and "(T, l, Q) \<in> v_wins s \<Longrightarrow> l \<in> Q"
    and "(T, l, Q) \<in> v_wins s \<Longrightarrow> v \<in> Q \<Longrightarrow> (T, v, l) \<in> v_grants s"
    and "(T, l, Q) \<in> v_wins s \<Longrightarrow> v \<in> Q \<Longrightarrow> v_term s v = T \<Longrightarrow> v_vote s v = int l"
    and "(T, l, Q) \<in> v_wins s \<Longrightarrow> v \<in> Q \<Longrightarrow> (T, v, c) \<in> v_grants s \<Longrightarrow> c = l"
  using assms unfolding vote_inv_def by blast+

lemma vote_inv_init: "vote_init s \<Longrightarrow> vote_inv n s"
  by (simp add: vote_init_def vote_inv_def)

lemma win_granted_only:
  assumes "vote_inv n s" and "(T, l, Q') \<in> v_wins s"
    and "Q \<subseteq> {..<n}" and "n div 2 < card Q" and "\<forall>v \<in> Q. (T, v, c) \<in> v_grants s"
  shows "c = l"
proof -
  obtain w where "w \<in> Q" and "w \<in> Q'"
    using majorities_meet [of "{..<n}" Q Q'] assms vote_invD(4,5) [OF assms(1,2)] by auto
  then show ?thesis
    using vote_invD(9) [OF assms(1,2)] assms(5) by blast
qed

lemma unique_winner:
  assumes "vote_inv n s" and "(T, l, Q) \<in> v_wins s" and "(T, l', Q') \<in> v_wins s"
  shows "l = l'"
  by (rule win_granted_only [OF assms(1,3)])
    (use vote_invD(4,5,7) [OF assms(1,2)] in auto)

lemma winner_term:
  assumes "vote_inv n s" and "(T, l, Q) \<in> v_wins s"
  shows "T \<le> v_term s l"
  using vote_invD(1,6,7) [OF assms(1)] assms(2) by blast

lemma vote_inv_adopt:
  assumes inv: "vote_inv n s" and T: "v_term s v < T"
  shows "vote_inv n (s\<lparr>v_term := (v_term s)(v := T), v_vote := (v_vote s)(v := x)\<rparr>)"
proof -
  have "T' < T" if "(T', v, c) \<in> v_grants s" for T' c
    using vote_invD(1) [OF inv that] T by simp
  then have old: "(T', v, c) \<in> v_grants s \<Longrightarrow> T' \<noteq> T \<and> T' \<le> T" for T' c
    by fastforce
  show ?thesis
    unfolding vote_inv_def
  proof (intro conjI allI impI, goal_cases)
    case (1 T w c)
    then show ?case using vote_invD(1) [OF inv, of T w c] by (auto dest: old)
  next
    case (2 T w c)
    then show ?case using vote_invD(2) [OF inv, of T w c] by (auto dest: old)
  next
    case (8 T l Q w)
    then show ?case using vote_invD(8) [OF inv, of T l Q w] vote_invD(7) [OF inv, of T l Q w]
      by (auto dest: old)
  qed (use vote_invD(3-7,9) [OF inv] in auto)
qed

lemma vote_inv_candidacy:
  assumes inv: "vote_inv n s"
  shows "vote_inv n (s\<lparr>v_term := (v_term s)(v := v_term s v + 1), v_vote := (v_vote s)(v := int v),
    v_grants := insert (v_term s v + 1, v, v) (v_grants s)\<rparr>)" (is "vote_inv n ?s")
proof -
  have old: "T \<le> v_term s v" if "(T, v, c) \<in> v_grants s" for T c
    using vote_invD(1) [OF inv that] .
  have new: "(v_term s v + 1, v, c) \<notin> v_grants s" for c
    using old by fastforce
  have qm: "(v_term s v + 1, l, Q) \<in> v_wins s \<Longrightarrow> v \<notin> Q" for l Q
    using vote_invD(7) [OF inv] new by blast
  show ?thesis
    unfolding vote_inv_def
  proof (intro conjI allI impI, goal_cases)
    case (1 T w c)
    then show ?case using vote_invD(1) [OF inv, of T w c] by (auto dest: old)
  next
    case (2 T w c)
    then show ?case using vote_invD(2) [OF inv, of T w c] by (auto dest: old)
  next
    case (3 T w c c')
    then show ?case using vote_invD(3) [OF inv, of T w c c'] new by auto
  next
    case (8 T l Q w)
    then show ?case using vote_invD(8) [OF inv, of T l Q w] vote_invD(7) [OF inv, of T l Q w]
      by (auto dest: old)
  next
    case (9 T l Q w c)
    then show ?case using vote_invD(9) [OF inv, of T l Q w c] qm by auto
  qed (use vote_invD(4-7) [OF inv] in auto)
qed

lemma vote_inv_grant:
  assumes inv: "vote_inv n s" and v: "v_vote s v = -1 \<or> v_vote s v = int c"
  shows "vote_inv n (s\<lparr>v_vote := (v_vote s)(v := int c),
    v_grants := insert (v_term s v, v, c) (v_grants s)\<rparr>)" (is "vote_inv n ?s")
proof -
  have free: "c' = c" if "(v_term s v, v, c') \<in> v_grants s" "\<forall>l Q. (v_term s v, l, Q) \<notin> v_wins s" for c'
    using vote_invD(2) [OF inv that] v by auto
  have qm: "l = c" if "(v_term s v, l, Q) \<in> v_wins s" "v \<in> Q" for l Q
    using vote_invD(8) [OF inv that] v by auto
  show ?thesis
    unfolding vote_inv_def
  proof (intro conjI allI impI, goal_cases)
    case (1 T w c)
    then show ?case using vote_invD(1) [OF inv, of T w c] by auto
  next
    case (2 T w d)
    then show ?case using vote_invD(2) [OF inv, of T w d] free by auto
  next
    case (3 T w d d')
    then show ?case using vote_invD(3) [OF inv, of T w d d'] free by auto
  next
    case (8 T l Q w)
    then show ?case using vote_invD(8) [OF inv, of T l Q w] qm by auto
  next
    case (9 T l Q w d)
    then show ?case using vote_invD(9) [OF inv, of T l Q w d] qm by auto
  qed (use vote_invD(4-7) [OF inv] in auto)
qed

lemma vote_inv_follow:
  assumes inv: "vote_inv n s" and l: "(v_term s v, l, Q) \<in> v_wins s"
  shows "vote_inv n (s\<lparr>v_vote := (v_vote s)(v := int l)\<rparr>)"
proof -
  have u: "l' = l" if "(v_term s v, l', Q') \<in> v_wins s" for l' Q'
    using unique_winner [OF inv that l] .
  show ?thesis
    unfolding vote_inv_def
  proof (intro conjI allI impI, goal_cases)
    case (2 T w c)
    then show ?case using vote_invD(2) [OF inv, of T w c] l by auto
  next
    case (3 T w c c')
    then show ?case using vote_invD(3) [OF inv, of T w c c'] by auto
  next
    case (8 T l Q w)
    then show ?case using vote_invD(8) [OF inv, of T l Q w] u by auto
  qed (use vote_invD(1,4-7,9) [OF inv] in auto)
qed

lemma vote_inv_win:
  assumes inv: "vote_inv n s" and Q: "Q \<subseteq> {..<n}" "n div 2 < card Q" "c \<in> Q"
    and g: "\<forall>v \<in> Q. (T, v, c) \<in> v_grants s" and fresh: "\<forall>Q'. (T, c, Q') \<notin> v_wins s"
  shows "vote_inv n (s\<lparr>v_wins := insert (T, c, Q) (v_wins s)\<rparr>)"
proof -
  have none: "\<forall>l Q. (T, l, Q) \<notin> v_wins s"
    using win_granted_only [OF inv _ Q(1,2) g] fresh by blast
  have new: "v_term s v = T \<longrightarrow> v_vote s v = int c" "\<forall>c'. (T, v, c') \<in> v_grants s \<longrightarrow> c' = c"
    if "v \<in> Q" for v
    using vote_invD(2,3) [OF inv _ none] g that by blast+
  show ?thesis
    unfolding vote_inv_def
  proof (intro conjI allI impI, goal_cases)
    case (1 T w c)
    then show ?case using vote_invD(1) [OF inv, of T w c] by auto
  next
    case (2 T w d)
    then show ?case using vote_invD(2) [OF inv, of T w d] by auto
  next
    case (3 T w d d')
    then show ?case using vote_invD(3) [OF inv, of T w d d'] by auto
  next
    case (8 T' l Q' w)
    then show ?case using vote_invD(8) [OF inv, of T' l Q' w] new(1) [of w] by auto
  next
    case (9 T' l Q' w d)
    then show ?case using vote_invD(9) [OF inv, of T' l Q' w d] new(2) [of w] by auto
  qed (use vote_invD(4-7) [OF inv] Q g in auto)
qed

lemma vote_inv_step: "vote_step n s t \<Longrightarrow> vote_inv n s \<Longrightarrow> vote_inv n t"
  by (induction rule: vote_step.induct)
    (auto intro: vote_inv_adopt vote_inv_candidacy vote_inv_grant vote_inv_follow vote_inv_win)

interpretation voting: inductive_invariant vote_init "vote_step n" "vote_inv n"
  by unfold_locales (auto intro: vote_inv_init vote_inv_step)

end
