(* ===== verification/Raft_Cluster.thy ===== *)
theory Raft_Cluster
  imports Raft_Peer Vote_Spec
begin

text \<open>
  A cluster of \<open>n\<close> peers (\<open>src/raft/raft.go\<close> at every peer, over a network that may lose,
  delay, reorder and repeat requests and replies) as a step relation whose steps are the
  critical sections of the peers.

  A node is a peer with the stack of its \<open>ticker\<close> goroutine: the local variables of
  \<open>startElection\<close> or \<open>sendAERpcs\<close> while it waits, and for every other peer the phase of the
  goroutine it started there. \<open>ticker\<close> reads \<open>leaderId\<close> and the timer without the lock, so
  the model lets an idle ticker start either call at any time. \<open>Snapshot\<close> may be called with
  any index by the service, so \<open>doSnapshot\<close> may run at any time with any arguments. A restart
  makes a new peer from a copy of the persister, as the tester does.

  Messages stay in the network once sent. Four history variables record, for the proofs
  only, the votes granted, the elections won (with the votes counted), whether some election
  made its peer leader although the term had moved on since it began, and the number of restarts.
\<close>

section \<open>State\<close>

datatype call_phase = PcSpawned | PcCalling | PcDone

datatype 'c worker_phase =
  WIdle | WAppend | WInstall | WAppendCall "'c AppendEntriesArgs" | WInstallCall

record 'c node =
  nd_rf :: "'c raft"
  nd_el :: "election option"
  nd_pc :: "nat \<Rightarrow> call_phase"
  nd_voters :: "nat set"
  nd_ar :: "ae_round option"
  nd_wk :: "nat \<Rightarrow> 'c worker_phase"

datatype 'c msg =
    RVReq nat nat RequestVoteArgs
  | RVRep nat nat int RequestVoteReply
  | AEReq nat nat "'c AppendEntriesArgs"
  | AERep nat nat "'c AppendEntriesArgs" AppendEntriesReply
  | ISReq nat nat InstallsnapshotArgs
  | ISRep nat nat int InstallsnapshotReply

record 'c cluster =
  nodes :: "nat \<Rightarrow> 'c node"
  net :: "'c msg set"
  h_grants :: "(int \<times> nat \<times> nat) set"
  h_wins :: "(int \<times> nat \<times> nat set) set"
  h_stale :: bool
  h_restarts :: nat

abbreviation rf_of :: "'c cluster \<Rightarrow> nat \<Rightarrow> 'c raft" where
  "rf_of s i \<equiv> nd_rf (nodes s i)"

definition new_node :: "nat \<Rightarrow> nat \<Rightarrow> 'c raft_persister \<Rightarrow> int \<Rightarrow> int \<Rightarrow> 'c node" where
  "new_node n i ps now rnd =
     \<lparr>nd_rf = Make n (int i) ps now rnd, nd_el = None, nd_pc = (\<lambda>_. PcDone), nd_voters = {},
      nd_ar = None, nd_wk = (\<lambda>_. WIdle)\<rparr>"

definition cluster_init :: "nat \<Rightarrow> 'c cluster \<Rightarrow> bool" where
  "cluster_init n s \<longleftrightarrow>
     (\<forall>i<n. \<exists>ps now rnd. durable ps \<noteq> None \<and> nodes s i = new_node n i ps now rnd) \<and>
     net s = {} \<and> h_grants s = {} \<and> h_wins s = {} \<and> \<not> h_stale s \<and> h_restarts s = 0"

definition set_node :: "nat \<Rightarrow> 'c node \<Rightarrow> 'c cluster \<Rightarrow> 'c cluster" where
  "set_node i nd s = s\<lparr>nodes := (nodes s)(i := nd)\<rparr>"

definition set_rf :: "nat \<Rightarrow> 'c raft \<Rightarrow> 'c cluster \<Rightarrow> 'c cluster" where
  "set_rf i rf s = set_node i ((nodes s i)\<lparr>nd_rf := rf\<rparr>) s"

definition post :: "'c msg \<Rightarrow> 'c cluster \<Rightarrow> 'c cluster" where
  "post m s = s\<lparr>net := insert m (net s)\<rparr>"

section \<open>Steps\<close>

inductive cluster_step :: "nat \<Rightarrow> 'c cluster \<Rightarrow> 'c cluster \<Rightarrow> bool" for n :: nat where
  ElectionStart:
    "i < n \<Longrightarrow> nodes s i = nd \<Longrightarrow> nd_el nd = None \<Longrightarrow> nd_ar nd = None \<Longrightarrow>
     startElection_begin (nd_rf nd) = (rf', el) \<Longrightarrow>
     cluster_step n s
       ((set_node i (nd\<lparr>nd_rf := rf', nd_el := Some el,
                        nd_pc := (\<lambda>j. if j = i then PcDone else PcSpawned), nd_voters := {i}\<rparr>) s)
          \<lparr>h_grants := insert (el_currentTerm el, i, i) (h_grants s)\<rparr>)"
| ElectionSend:
    "i < n \<Longrightarrow> j < n \<Longrightarrow> nodes s i = nd \<Longrightarrow> nd_el nd = Some el \<Longrightarrow> nd_pc nd j = PcSpawned \<Longrightarrow>
     electionSender_request (el_currentTerm el) (nd_rf nd) = Some args \<Longrightarrow>
     cluster_step n s
       (post (RVReq i j args) (set_node i (nd\<lparr>nd_pc := (nd_pc nd)(j := PcCalling)\<rparr>) s))"
| ElectionSkip:
    "i < n \<Longrightarrow> j < n \<Longrightarrow> nodes s i = nd \<Longrightarrow> nd_el nd = Some el \<Longrightarrow> nd_pc nd j = PcSpawned \<Longrightarrow>
     electionSender_request (el_currentTerm el) (nd_rf nd) = None \<Longrightarrow>
     cluster_step n s
       (set_node i (nd\<lparr>nd_el := Some (electionSender_skip el),
                       nd_pc := (nd_pc nd)(j := PcDone)\<rparr>) s)"
| DeliverRequestVote:
    "RVReq i j args \<in> net s \<Longrightarrow> j < n \<Longrightarrow> RequestVote now rnd args (rf_of s j) = (rf', rep) \<Longrightarrow>
     cluster_step n s
       ((post (RVRep i j (rva_Term args) rep) (set_rf j rf' s))
          \<lparr>h_grants := (if rvr_VoteGranted rep then insert (rva_Term args, j, i) (h_grants s)
                        else h_grants s)\<rparr>)"
| ElectionReply:
    "i < n \<Longrightarrow> j < n \<Longrightarrow> nodes s i = nd \<Longrightarrow> nd_el nd = Some el \<Longrightarrow> nd_pc nd j = PcCalling \<Longrightarrow>
     ok \<longrightarrow> RVRep i j (el_currentTerm el) rep \<in> net s \<Longrightarrow>
     electionSender_reply ok rep (nd_rf nd) el = (rf', el') \<Longrightarrow>
     cluster_step n s
       (set_node i (nd\<lparr>nd_rf := rf', nd_el := Some el', nd_pc := (nd_pc nd)(j := PcDone),
                       nd_voters := (if el_voteCount el < el_voteCount el'
                                     then insert j (nd_voters nd) else nd_voters nd)\<rparr>) s)"
| ElectionFinish:
    "i < n \<Longrightarrow> nodes s i = nd \<Longrightarrow> nd_el nd = Some el \<Longrightarrow> startElection_done (nd_rf nd) el \<Longrightarrow>
     won = (el_voteCount el > go_quot (int (peers (nd_rf nd))) 2) \<Longrightarrow>
     fresh = (currentTerm (nd_rf nd) = el_currentTerm el) \<Longrightarrow>
     cluster_step n s
       ((set_node i (nd\<lparr>nd_rf := startElection_finish now rnd (nd_rf nd) el, nd_el := None\<rparr>) s)
          \<lparr>h_wins := (if won \<and> fresh then insert (el_currentTerm el, i, nd_voters nd) (h_wins s)
                      else h_wins s),
           h_stale := (h_stale s \<or> won \<and> \<not> fresh)\<rparr>)"
| RoundStart:
    "i < n \<Longrightarrow> nodes s i = nd \<Longrightarrow> nd_el nd = None \<Longrightarrow> nd_ar nd = None \<Longrightarrow>
     sendAERpcs_begin (nd_rf nd) = Inr (ar, ws) \<Longrightarrow>
     cluster_step n s
       (set_node i (nd\<lparr>nd_ar := Some ar,
          nd_wk := (\<lambda>j. case map_of ws j of None \<Rightarrow> WIdle
                        | Some b \<Rightarrow> if b then WInstall else WAppend)\<rparr>) s)"
| AppendSend:
    "i < n \<Longrightarrow> j < n \<Longrightarrow> nodes s i = nd \<Longrightarrow> nd_ar nd = Some ar \<Longrightarrow> nd_wk nd j = WAppend \<Longrightarrow>
     appendRPCWorker_request j (ar_currentTerm ar) (nd_rf nd) = Inr (Some aargs) \<Longrightarrow>
     cluster_step n s
       (post (AEReq i j aargs) (set_node i (nd\<lparr>nd_wk := (nd_wk nd)(j := WAppendCall aargs)\<rparr>) s))"
| AppendSkip:
    "i < n \<Longrightarrow> j < n \<Longrightarrow> nodes s i = nd \<Longrightarrow> nd_ar nd = Some ar \<Longrightarrow> nd_wk nd j = WAppend \<Longrightarrow>
     appendRPCWorker_request j (ar_currentTerm ar) (nd_rf nd) = Inr None \<Longrightarrow>
     cluster_step n s
       (set_node i (nd\<lparr>nd_ar := Some (ae_round_skip ar), nd_wk := (nd_wk nd)(j := WIdle)\<rparr>) s)"
| DeliverAppendEntries:
    "AEReq i j aargs \<in> net s \<Longrightarrow> j < n \<Longrightarrow>
     AppendEntries now rnd aargs (rf_of s j) = Inr (rf', arep) \<Longrightarrow>
     cluster_step n s (post (AERep i j aargs arep) (set_rf j rf' s))"
| AppendReply:
    "i < n \<Longrightarrow> j < n \<Longrightarrow> nodes s i = nd \<Longrightarrow> nd_ar nd = Some ar \<Longrightarrow> nd_wk nd j = WAppendCall aargs \<Longrightarrow>
     ok \<longrightarrow> AERep i j aargs arep \<in> net s \<Longrightarrow>
     appendRPCWorker_reply j ok aargs arep (nd_rf nd) ar = Inr (rf', ar') \<Longrightarrow>
     cluster_step n s
       (set_node i (nd\<lparr>nd_rf := rf', nd_ar := Some ar', nd_wk := (nd_wk nd)(j := WIdle)\<rparr>) s)"
| InstallSend:
    "i < n \<Longrightarrow> j < n \<Longrightarrow> nodes s i = nd \<Longrightarrow> nd_ar nd = Some ar \<Longrightarrow> nd_wk nd j = WInstall \<Longrightarrow>
     InstallSnapshotSender_request (ar_currentTerm ar) (nd_rf nd) = Some iargs \<Longrightarrow>
     cluster_step n s
       (post (ISReq i j iargs) (set_node i (nd\<lparr>nd_wk := (nd_wk nd)(j := WInstallCall)\<rparr>) s))"
| InstallSkip:
    "i < n \<Longrightarrow> j < n \<Longrightarrow> nodes s i = nd \<Longrightarrow> nd_ar nd = Some ar \<Longrightarrow> nd_wk nd j = WInstall \<Longrightarrow>
     InstallSnapshotSender_request (ar_currentTerm ar) (nd_rf nd) = None \<Longrightarrow>
     cluster_step n s
       (set_node i (nd\<lparr>nd_ar := Some (ae_round_skip ar), nd_wk := (nd_wk nd)(j := WIdle)\<rparr>) s)"
| DeliverInstallSnapshot:
    "ISReq i j iargs \<in> net s \<Longrightarrow> j < n \<Longrightarrow>
     InstallSnapshot now rnd iargs (rf_of s j) = Inr (rf', irep, sp) \<Longrightarrow>
     cluster_step n s (post (ISRep i j (isa_Term iargs) irep) (set_rf j rf' s))"
| InstallReply:
    "i < n \<Longrightarrow> j < n \<Longrightarrow> nodes s i = nd \<Longrightarrow> nd_ar nd = Some ar \<Longrightarrow> nd_wk nd j = WInstallCall \<Longrightarrow>
     ok \<longrightarrow> ISRep i j (ar_currentTerm ar) irep \<in> net s \<Longrightarrow>
     InstallSnapshotSender_reply j ok irep (nd_rf nd) ar = Inr (rf', ar') \<Longrightarrow>
     cluster_step n s
       (set_node i (nd\<lparr>nd_rf := rf', nd_ar := Some ar', nd_wk := (nd_wk nd)(j := WIdle)\<rparr>) s)"
| RoundFinish:
    "i < n \<Longrightarrow> nodes s i = nd \<Longrightarrow> nd_ar nd = Some ar \<Longrightarrow> sendAERpcs_done (nd_rf nd) ar \<Longrightarrow>
     sendAERpcs_finish (nd_rf nd) ar = Inr rf' \<Longrightarrow>
     cluster_step n s (set_node i (nd\<lparr>nd_rf := rf', nd_ar := None\<rparr>) s)"
| DoSnapshot:
    "i < n \<Longrightarrow> doSnapshot index snap (rf_of s i) = Inr rf' \<Longrightarrow> cluster_step n s (set_rf i rf' s)"
| ApplyLog:
    "i < n \<Longrightarrow> applyLogToRsm index (rf_of s i) = Inr rf' \<Longrightarrow> cluster_step n s (set_rf i rf' s)"
| StartCommand:
    "i < n \<Longrightarrow> Start command (rf_of s i) = (rf', ix, t, b) \<Longrightarrow> cluster_step n s (set_rf i rf' s)"
| Restart:
    "i < n \<Longrightarrow>
     cluster_step n s
       ((set_node i (new_node n i (Copy (rf_persister (rf_of s i))) now rnd) s)
          \<lparr>h_restarts := h_restarts s + 1\<rparr>)"

section \<open>The invariant that links the peers to the votes\<close>

definition abs_votes :: "'c cluster \<Rightarrow> votes" where
  "abs_votes s =
     \<lparr>v_term = (\<lambda>i. currentTerm (rf_of s i)), v_vote = (\<lambda>i. voteFor (rf_of s i)),
      v_grants = h_grants s, v_wins = h_wins s\<rparr>"

fun msg_ok :: "(int \<times> nat \<times> nat) set \<Rightarrow> (int \<times> nat \<times> nat set) set \<Rightarrow> 'c msg \<Rightarrow> bool" where
  "msg_ok G W (RVReq i j args) \<longleftrightarrow> rva_CandidateId args = int i"
| "msg_ok G W (RVRep i j T rep) \<longleftrightarrow> (rvr_VoteGranted rep \<longrightarrow> (T, j, i) \<in> G)"
| "msg_ok G W (AEReq i j args) \<longleftrightarrow>
     aea_LeaderId args = int i \<and> (\<exists>Q. (aea_Term args, i, Q) \<in> W)"
| "msg_ok G W (ISReq i j args) \<longleftrightarrow>
     isa_LeaderId args = int i \<and> (\<exists>Q. (isa_Term args, i, Q) \<in> W)"
| "msg_ok G W _ \<longleftrightarrow> True"

text \<open>A peer that believes it leads has won its term.\<close>

definition rf_ok :: "nat \<Rightarrow> (int \<times> nat \<times> nat set) set \<Rightarrow> nat \<Rightarrow> 'c raft \<Rightarrow> bool" where
  "rf_ok n W i rf \<longleftrightarrow>
     me rf = int i \<and> peers rf = n \<and> vote_synced rf \<and>
     (leaderId rf = int i \<longrightarrow> (\<exists>Q. (currentTerm rf, i, Q) \<in> W))"

text \<open>An election in progress counts distinct peers that granted its term, and its peer has
  not won that term yet.\<close>

definition el_ok ::
  "nat \<Rightarrow> (int \<times> nat \<times> nat) set \<Rightarrow> (int \<times> nat \<times> nat set) set \<Rightarrow> nat \<Rightarrow> 'c node \<Rightarrow> bool" where
  "el_ok n G W i nd \<longleftrightarrow>
     (\<forall>el. nd_el nd = Some el \<longrightarrow>
        el_voteCount el = int (card (nd_voters nd)) \<and> nd_voters nd \<subseteq> {..<n} \<and> i \<in> nd_voters nd \<and>
        (\<forall>v \<in> nd_voters nd. (el_currentTerm el, v, i) \<in> G \<and> nd_pc nd v = PcDone) \<and>
        (\<forall>Q. (el_currentTerm el, i, Q) \<notin> W))"

definition cluster_ok :: "nat \<Rightarrow> 'c cluster \<Rightarrow> bool" where
  "cluster_ok n s \<longleftrightarrow>
     (\<forall>m \<in> net s. msg_ok (h_grants s) (h_wins s) m) \<and>
     (\<forall>i<n. rf_ok n (h_wins s) i (rf_of s i) \<and> el_ok n (h_grants s) (h_wins s) i (nodes s i)) \<and>
     vote_inv n (abs_votes s)"

definition cluster_inv :: "nat \<Rightarrow> 'c cluster \<Rightarrow> bool" where
  "cluster_inv n s \<longleftrightarrow> h_stale s \<or> cluster_ok n s"

lemma msg_ok_mono: "msg_ok G W m \<Longrightarrow> G \<subseteq> G' \<Longrightarrow> W \<subseteq> W' \<Longrightarrow> msg_ok G' W' m"
  by (cases m) auto

lemma rf_ok_mono: "rf_ok n W i rf \<Longrightarrow> W \<subseteq> W' \<Longrightarrow> rf_ok n W' i rf"
  by (auto simp: rf_ok_def)

lemma el_ok_mono: "el_ok n G W i nd \<Longrightarrow> G \<subseteq> G' \<Longrightarrow> el_ok n G' W i nd"
  by (auto simp: el_ok_def)

lemma el_ok_rf [simp]: "el_ok n G W i (nd\<lparr>nd_rf := rf\<rparr>) = el_ok n G W i nd"
  by (simp add: el_ok_def)

lemma cluster_okD:
  assumes "cluster_ok n s"
  shows "m \<in> net s \<Longrightarrow> msg_ok (h_grants s) (h_wins s) m"
    and "i < n \<Longrightarrow> rf_ok n (h_wins s) i (rf_of s i)"
    and "i < n \<Longrightarrow> el_ok n (h_grants s) (h_wins s) i (nodes s i)"
    and "vote_inv n (abs_votes s)"
  using assms unfolding cluster_ok_def by auto

text \<open>What is shown of every step: the invariant holds after it, and it is a sequence of
  steps of the abstract voting.\<close>

definition refines :: "nat \<Rightarrow> 'c cluster \<Rightarrow> 'c cluster \<Rightarrow> bool" where
  "refines n s s' \<longleftrightarrow> cluster_ok n s' \<and> (vote_step n)\<^sup>*\<^sup>* (abs_votes s) (abs_votes s')"

text \<open>A step of one node that wins nothing: it is enough to look at that node, at the new
  messages and at the abstract steps.\<close>

lemma cluster_ok_local:
  assumes ok: "cluster_ok n s"
    and s': "\<And>k. k \<noteq> i \<Longrightarrow> nodes s' k = nodes s k" "h_wins s' = h_wins s" "h_grants s \<subseteq> h_grants s'"
    and nd': "rf_ok n (h_wins s) i (rf_of s' i)" "el_ok n (h_grants s') (h_wins s) i (nodes s' i)"
    and msgs: "\<And>m. m \<in> net s' \<Longrightarrow> m \<in> net s \<or> msg_ok (h_grants s') (h_wins s) m"
    and votes: "(vote_step n)\<^sup>*\<^sup>* (abs_votes s) (abs_votes s')"
  shows "refines n s s'"
  unfolding refines_def cluster_ok_def
proof (intro conjI ballI allI impI)
  fix m assume "m \<in> net s'"
  then show "msg_ok (h_grants s') (h_wins s') m"
    using msgs cluster_okD(1) [OF ok] s'(2,3) by (auto intro: msg_ok_mono)
next
  fix k assume "k < n"
  then show "rf_ok n (h_wins s') k (rf_of s' k)"
    using nd'(1) cluster_okD(2) [OF ok] s'(1,2) by (cases "k = i") auto
next
  fix k assume "k < n"
  then show "el_ok n (h_grants s') (h_wins s') k (nodes s' k)"
    using nd'(2) cluster_okD(3) [OF ok] s' by (cases "k = i") (auto intro: el_ok_mono)
next
  show "vote_inv n (abs_votes s')"
    using voting.invar_rtranclp [OF votes] cluster_okD(4) [OF ok] by simp
qed (rule votes)

text \<open>The abstract effect of replacing the peer of one node.\<close>

lemma abs_votes_set:
  assumes "\<And>k. k \<noteq> i \<Longrightarrow> nodes s' k = nodes s k" and "h_wins s' = h_wins s"
  shows "abs_votes s' = (abs_votes s)
    \<lparr>v_term := (v_term (abs_votes s))(i := currentTerm (rf_of s' i)),
     v_vote := (v_vote (abs_votes s))(i := voteFor (rf_of s' i)), v_grants := h_grants s'\<rparr>"
  using assms by (auto simp: abs_votes_def fun_eq_iff)

lemma abs_votes_same:
  assumes "\<And>k. k \<noteq> i \<Longrightarrow> nodes s' k = nodes s k" and "h_wins s' = h_wins s" and "h_grants s' = h_grants s"
    and "currentTerm (rf_of s' i) = currentTerm (rf_of s i)"
    and "voteFor (rf_of s' i) = voteFor (rf_of s i)"
  shows "abs_votes s' = abs_votes s"
proof -
  have "currentTerm (rf_of s' k) = currentTerm (rf_of s k)"
    and "voteFor (rf_of s' k) = voteFor (rf_of s k)" for k
    using assms by (cases "k = i"; simp)+
  then show ?thesis using assms(2,3) by (simp add: abs_votes_def)
qed

text \<open>Raising a node's term and clearing its vote, or following the winner of a term.\<close>

lemma votes_adopt:
  assumes s': "\<And>k. k \<noteq> i \<Longrightarrow> nodes s' k = nodes s k" "h_wins s' = h_wins s" "h_grants s' = h_grants s"
    and T: "currentTerm (rf_of s i) < currentTerm (rf_of s' i)"
    and x: "voteFor (rf_of s' i) = -1 \<or>
      (\<exists>l Q. voteFor (rf_of s' i) = int l \<and> (currentTerm (rf_of s' i), l, Q) \<in> h_wins s)"
  shows "vote_step n (abs_votes s) (abs_votes s')"
proof -
  have "vote_step n (abs_votes s) ((abs_votes s)
    \<lparr>v_term := (v_term (abs_votes s))(i := currentTerm (rf_of s' i)),
     v_vote := (v_vote (abs_votes s))(i := voteFor (rf_of s' i))\<rparr>)"
    using T x by (intro vote_step.adopt) (auto simp: abs_votes_def)
  then show ?thesis
    using abs_votes_set [OF s'(1,2)] s'(3) by (simp add: abs_votes_def)
qed

lemma votes_follow:
  assumes s': "\<And>k. k \<noteq> i \<Longrightarrow> nodes s' k = nodes s k" "h_wins s' = h_wins s" "h_grants s' = h_grants s"
    and T: "currentTerm (rf_of s i) \<le> currentTerm (rf_of s' i)"
    and l: "voteFor (rf_of s' i) = int l" "(currentTerm (rf_of s' i), l, Q) \<in> h_wins s"
  shows "vote_step n (abs_votes s) (abs_votes s')"
proof (cases "currentTerm (rf_of s i) < currentTerm (rf_of s' i)")
  case True
  then show ?thesis using votes_adopt [OF s'] l by blast
next
  case False
  then have eq: "currentTerm (rf_of s' i) = currentTerm (rf_of s i)" using T by simp
  have "vote_step n (abs_votes s) ((abs_votes s)\<lparr>v_vote := (v_vote (abs_votes s))(i := int l)\<rparr>)"
    using l eq by (intro vote_step.follow) (auto simp: abs_votes_def)
  moreover have "(abs_votes s)\<lparr>v_vote := (v_vote (abs_votes s))(i := int l)\<rparr> = abs_votes s'"
    using abs_votes_set [OF s'(1,2)] s'(3) l(1) eq by (simp add: abs_votes_def fun_upd_idem)
  ultimately show ?thesis by simp
qed

text \<open>Both together: what a call's reply or a leader's message does to a peer's vote.\<close>

lemma votes_move:
  assumes s': "\<And>k. k \<noteq> i \<Longrightarrow> nodes s' k = nodes s k" "h_wins s' = h_wins s" "h_grants s' = h_grants s"
    and mono: "currentTerm (rf_of s i) \<le> currentTerm (rf_of s' i)"
    and same: "currentTerm (rf_of s' i) = currentTerm (rf_of s i) \<Longrightarrow>
      voteFor (rf_of s' i) = voteFor (rf_of s i)"
    and up: "currentTerm (rf_of s i) < currentTerm (rf_of s' i) \<Longrightarrow> voteFor (rf_of s' i) = -1"
  shows "(vote_step n)\<^sup>*\<^sup>* (abs_votes s) (abs_votes s')"
proof (cases "currentTerm (rf_of s i) < currentTerm (rf_of s' i)")
  case True
  then show ?thesis using votes_adopt [OF s'] up by blast
next
  case False
  then show ?thesis using abs_votes_same [OF s'] mono same by simp
qed

lemmas cluster_updates = set_node_def set_rf_def post_def

section \<open>Every step keeps the invariant\<close>

lemma ok_ElectionStart:
  assumes ok: "cluster_ok n s" and i: "i < n" "nodes s i = nd"
    and b: "startElection_begin (nd_rf nd) = (rf', el)"
  shows "refines n s
       ((set_node i (nd\<lparr>nd_rf := rf', nd_el := Some el,
                        nd_pc := (\<lambda>j. if j = i then PcDone else PcSpawned), nd_voters := {i}\<rparr>) s)
          \<lparr>h_grants := insert (el_currentTerm el, i, i) (h_grants s)\<rparr>)" (is "refines n s ?s'")
proof -
  note f = startElection_begin_fields [OF b]
  have rf: "rf_ok n (h_wins s) i (nd_rf nd)" using cluster_okD(2) [OF ok i(1)] i(2) by simp
  have nowin: "(currentTerm (nd_rf nd) + 1, i, Q) \<notin> h_wins s" for Q
    using winner_term [OF cluster_okD(4) [OF ok], of "currentTerm (nd_rf nd) + 1" i Q] i(2)
    by (auto simp: abs_votes_def)
  have "vote_step n (abs_votes s) (abs_votes ?s')"
  proof -
    have "abs_votes ?s' = (abs_votes s)\<lparr>v_term := (v_term (abs_votes s))(i := v_term (abs_votes s) i + 1),
        v_vote := (v_vote (abs_votes s))(i := int i),
        v_grants := insert (v_term (abs_votes s) i + 1, i, i) (v_grants (abs_votes s))\<rparr>"
      using f rf i(2) by (auto simp: abs_votes_def cluster_updates rf_ok_def fun_eq_iff)
    then show ?thesis by (simp only: vote_step.candidacy)
  qed
  then show ?thesis
    using f rf i nowin
    by (intro cluster_ok_local [OF ok, where i = i])
      (auto simp: cluster_updates rf_ok_def el_ok_def synced_vote_synced)
qed

lemma ok_ElectionSend:
  assumes ok: "cluster_ok n s" and i: "i < n" "nodes s i = nd" "nd_el nd = Some el"
    and pc: "nd_pc nd j = PcSpawned"
    and r: "electionSender_request (el_currentTerm el) (nd_rf nd) = Some args"
  shows "refines n s
    (post (RVReq i j args) (set_node i (nd\<lparr>nd_pc := (nd_pc nd)(j := PcCalling)\<rparr>) s))"
    (is "refines n s ?s'")
proof -
  have rf: "rf_ok n (h_wins s) i (nd_rf nd)" "el_ok n (h_grants s) (h_wins s) i nd"
    using cluster_okD(2,3) [OF ok i(1)] i(2) by auto
  then have "rva_CandidateId args = int i" "j \<notin> nd_voters nd"
    using r pc i(3) by (auto simp: electionSender_request_def rf_ok_def el_ok_def split: if_splits)
  moreover have "abs_votes ?s' = abs_votes s"
    using i(2) by (auto simp: abs_votes_def cluster_updates fun_eq_iff)
  ultimately show ?thesis
    using rf i by (intro cluster_ok_local [OF ok, where i = i]) (auto simp: cluster_updates el_ok_def)
qed

lemma ok_ElectionSkip:
  assumes ok: "cluster_ok n s" and i: "i < n" "nodes s i = nd" "nd_el nd = Some el"
  shows "refines n s (set_node i (nd\<lparr>nd_el := Some (electionSender_skip el),
                       nd_pc := (nd_pc nd)(j := PcDone)\<rparr>) s)" (is "refines n s ?s'")
proof -
  have rf: "rf_ok n (h_wins s) i (nd_rf nd)" "el_ok n (h_grants s) (h_wins s) i nd"
    using cluster_okD(2,3) [OF ok i(1)] i(2) by auto
  moreover have "abs_votes ?s' = abs_votes s"
    using i(2) by (auto simp: abs_votes_def cluster_updates fun_eq_iff)
  ultimately show ?thesis
    using i by (intro cluster_ok_local [OF ok, where i = i])
      (auto simp: cluster_updates el_ok_def electionSender_skip_def)
qed

lemma ok_DeliverRequestVote:
  assumes ok: "cluster_ok n s" and m: "RVReq i j args \<in> net s" and j: "j < n"
    and r: "RequestVote now rnd args (rf_of s j) = (rf', rep)"
  shows "refines n s ((post (RVRep i j (rva_Term args) rep) (set_rf j rf' s))
          \<lparr>h_grants := (if rvr_VoteGranted rep then insert (rva_Term args, j, i) (h_grants s)
                        else h_grants s)\<rparr>)" (is "refines n s ?s'")
proof -
  let ?rf = "rf_of s j" and ?T = "rva_Term args"
  have cand: "rva_CandidateId args = int i" using cluster_okD(1) [OF ok m] by simp
  have rf: "rf_ok n (h_wins s) j ?rf" using cluster_okD(2) [OF ok j] .
  have f: "rvr_VoteGranted rep \<Longrightarrow> currentTerm ?rf \<le> ?T \<and>
        (currentTerm ?rf < ?T \<or> voteFor ?rf = -1 \<or> voteFor ?rf = int i)"
      "currentTerm rf' = max (currentTerm ?rf) ?T"
      "voteFor rf' = (if rvr_VoteGranted rep then int i
         else if currentTerm ?rf < ?T then -1 else voteFor ?rf)"
      "leaderId rf' = (if currentTerm ?rf < ?T then -1 else leaderId ?rf)"
      "peers rf' = peers ?rf" "me rf' = me ?rf" "vote_synced ?rf \<Longrightarrow> vote_synced rf'"
    using RequestVote_granted_iff [of now rnd args ?rf] RequestVote_term [of now rnd args ?rf]
      RequestVote_vote [of now rnd args ?rf] RequestVote_leader [of now rnd args ?rf]
      RequestVote_frame(1,2) [of now rnd args ?rf] RequestVote_vote_synced [of ?rf now rnd args]
      r cand by auto
  define s1 where "s1 = set_rf j (?rf\<lparr>currentTerm := max (currentTerm ?rf) ?T,
    voteFor := (if currentTerm ?rf < ?T then -1 else voteFor ?rf)\<rparr>) s"
  have "(vote_step n)\<^sup>*\<^sup>* (abs_votes s) (abs_votes s1)"
    unfolding s1_def set_rf_def set_node_def by (rule votes_move [where i = j]) auto
  moreover have "(vote_step n)\<^sup>*\<^sup>* (abs_votes s1) (abs_votes ?s')"
  proof (cases "rvr_VoteGranted rep")
    case True
    have "abs_votes ?s' = (abs_votes s1)\<lparr>v_vote := (v_vote (abs_votes s1))(j := int i),
        v_grants := insert (v_term (abs_votes s1) j, j, i) (v_grants (abs_votes s1))\<rparr>"
      using f(1-3) True by (auto simp: abs_votes_def s1_def cluster_updates fun_eq_iff)
    moreover have "v_vote (abs_votes s1) j = -1 \<or> v_vote (abs_votes s1) j = int i"
      using f(1) True by (auto simp: abs_votes_def s1_def cluster_updates)
    ultimately show ?thesis by (auto intro: vote_step.grant)
  next
    case False
    have "abs_votes ?s' = abs_votes s1"
      using f False by (auto simp: abs_votes_def s1_def cluster_updates fun_eq_iff)
    then show ?thesis by simp
  qed
  ultimately show ?thesis
    using f rf cluster_okD(3) [OF ok j]
    by (intro cluster_ok_local [OF ok, where i = j])
      (auto simp: cluster_updates rf_ok_def intro: el_ok_mono split: if_splits)
qed

lemma ok_ElectionReply:
  assumes ok: "cluster_ok n s" and i: "i < n" "nodes s i = nd" "nd_el nd = Some el"
    and j: "j < n" and pc: "nd_pc nd j = PcCalling"
    and m: "rok \<longrightarrow> RVRep i j (el_currentTerm el) rep \<in> net s"
    and r: "electionSender_reply rok rep (nd_rf nd) el = (rf', el')"
  shows "refines n s (set_node i (nd\<lparr>nd_rf := rf', nd_el := Some el', nd_pc := (nd_pc nd)(j := PcDone),
                       nd_voters := (if el_voteCount el < el_voteCount el'
                                     then insert j (nd_voters nd) else nd_voters nd)\<rparr>) s)"
    (is "refines n s ?s'")
proof -
  note f = electionSender_reply_fields [OF r]
  have rf: "rf_ok n (h_wins s) i (nd_rf nd)" and el: "el_ok n (h_grants s) (h_wins s) i nd"
    using cluster_okD(2,3) [OF ok i(1)] i(2) by auto
  have fresh: "j \<notin> nd_voters nd" using el pc i(3) by (auto simp: el_ok_def)
  have fin: "finite (nd_voters nd)" using el i(3) by (auto simp: el_ok_def finite_subset)
  have granted: "(el_currentTerm el, j, i) \<in> h_grants s" if "el_voteCount el < el_voteCount el'"
    using that f(9) m cluster_okD(1) [OF ok] by (fastforce split: if_splits)
  have "(vote_step n)\<^sup>*\<^sup>* (abs_votes s) (abs_votes ?s')"
    by (rule votes_move [where i = i]) (use f i in \<open>auto simp: cluster_updates\<close>)
  moreover have "rf_ok n (h_wins s) i rf'"
  proof -
    have "leaderId (nd_rf nd) \<noteq> int i" if "currentTerm (nd_rf nd) < currentTerm rf'"
      using that f(3) rf el i(3) by (auto simp: rf_ok_def el_ok_def)
    then show ?thesis
      using rf f(1,4-6,11) by (auto simp: rf_ok_def) (metis order_le_less)
  qed
  moreover have "el_ok n (h_grants s) (h_wins s) i (nodes ?s' i)"
    using el i(3) j f(7,9) fresh fin granted
    by (auto simp: el_ok_def cluster_updates split: if_splits)
  ultimately show ?thesis
    using i by (intro cluster_ok_local [OF ok, where i = i]) (auto simp: cluster_updates)
qed

lemma ok_ElectionFinish:
  assumes ok: "cluster_ok n s" and i: "i < n" "nodes s i = nd" "nd_el nd = Some el"
    and won: "won = (el_voteCount el > go_quot (int (peers (nd_rf nd))) 2)"
    and fresh: "fresh = (currentTerm (nd_rf nd) = el_currentTerm el)"
    and nst: "\<not> (won \<and> \<not> fresh)"
  shows "refines n s
    ((set_node i (nd\<lparr>nd_rf := startElection_finish now rnd (nd_rf nd) el, nd_el := None\<rparr>) s)
          \<lparr>h_wins := (if won \<and> fresh then insert (el_currentTerm el, i, nd_voters nd) (h_wins s)
                      else h_wins s),
           h_stale := (h_stale s \<or> won \<and> \<not> fresh)\<rparr>)" (is "refines n s ?s'")
proof -
  note f = startElection_finish_fields [of now rnd "nd_rf nd" el]
  have rf: "rf_ok n (h_wins s) i (nd_rf nd)" and el: "el_ok n (h_grants s) (h_wins s) i nd"
    using cluster_okD(2,3) [OF ok i(1)] i(2) by auto
  show ?thesis
  proof (cases won)
    case False
    have "abs_votes ?s' = abs_votes s"
      using f i False by (auto simp: abs_votes_def cluster_updates fun_eq_iff)
    moreover have "rf_ok n (h_wins s) i (startElection_finish now rnd (nd_rf nd) el)"
      using rf f won False by (auto simp: rf_ok_def)
    ultimately show ?thesis
      using i False by (intro cluster_ok_local [OF ok, where i = i])
        (auto simp: cluster_updates el_ok_def)
  next
    case True
    let ?W = "insert (el_currentTerm el, i, nd_voters nd) (h_wins s)"
    have fr: fresh using True nst by simp
    have q: "nd_voters nd \<subseteq> {..<n}" "n div 2 < card (nd_voters nd)" "i \<in> nd_voters nd"
      "\<forall>v \<in> nd_voters nd. (el_currentTerm el, v, i) \<in> h_grants s"
      "\<forall>Q. (el_currentTerm el, i, Q) \<notin> h_wins s"
      using el i(3) won True rf by (auto simp: el_ok_def rf_ok_def)
    have abs: "abs_votes ?s' = (abs_votes s)\<lparr>v_wins := ?W\<rparr>"
      using f i True fr by (auto simp: abs_votes_def cluster_updates fun_eq_iff)
    have "vote_inv n (abs_votes ?s')"
      using vote_inv_win [OF cluster_okD(4) [OF ok] q(1-3), of "el_currentTerm el"] q(4,5)
      by (simp add: abs) (simp add: abs_votes_def)
    moreover have "rf_ok n ?W i (startElection_finish now rnd (nd_rf nd) el)"
      using rf f won True fr fresh by (auto simp: rf_ok_def)
    moreover have "el_ok n (h_grants s) ?W k (nodes s k)" if "k < n" "k \<noteq> i" for k
      using cluster_okD(3) [OF ok that(1)] that(2) by (auto simp: el_ok_def)
    moreover have "rf_ok n ?W k (rf_of s k)" if "k < n" for k
      using cluster_okD(2) [OF ok that] by (auto intro: rf_ok_mono)
    moreover have "msg_ok (h_grants s) ?W m" if "m \<in> net s" for m
      using cluster_okD(1) [OF ok that] by (auto intro: msg_ok_mono)
    ultimately have "cluster_ok n ?s'"
      using True fr unfolding cluster_ok_def
      by (simp add: cluster_updates) (simp add: el_ok_def)
    moreover have "vote_step n (abs_votes s) (abs_votes ?s')"
      using vote_step.win [OF q(1-3), of "el_currentTerm el" "abs_votes s"] q(4,5)
      by (simp add: abs) (simp add: abs_votes_def)
    ultimately show ?thesis by (auto simp: refines_def)
  qed
qed

text \<open>A leader's request reaches a peer.\<close>

lemma ok_leader_request:
  assumes ok: "cluster_ok n s" and j: "j < n" and w: "(T, i, Q) \<in> h_wins s"
    and low: "T < currentTerm (rf_of s j) \<Longrightarrow> currentTerm rf' = currentTerm (rf_of s j) \<and>
      voteFor rf' = voteFor (rf_of s j) \<and> leaderId rf' = leaderId (rf_of s j)"
    and high: "currentTerm (rf_of s j) \<le> T \<Longrightarrow>
      currentTerm rf' = T \<and> voteFor rf' = int i \<and> leaderId rf' = int i"
    and frame: "peers rf' = peers (rf_of s j)" "me rf' = me (rf_of s j)"
      "vote_synced (rf_of s j) \<Longrightarrow> vote_synced rf'"
    and m: "msg_ok (h_grants s) (h_wins s) m"
  shows "refines n s (post m (set_rf j rf' s))" (is "refines n s ?s'")
proof -
  have rf: "rf_ok n (h_wins s) j (rf_of s j)" using cluster_okD(2) [OF ok j] .
  have v: "(vote_step n)\<^sup>*\<^sup>* (abs_votes s) (abs_votes ?s')"
  proof (cases "T < currentTerm (rf_of s j)")
    case True
    then have "abs_votes ?s' = abs_votes s"
      using low by (auto simp: abs_votes_def cluster_updates fun_eq_iff)
    then show ?thesis by simp
  next
    case False
    then show ?thesis
      using high w
      by (intro r_into_rtranclp votes_follow [where i = j and l = i and Q = Q])
        (auto simp: cluster_updates)
  qed
  have "rf_ok n (h_wins s) j rf'"
    using rf low high frame w by (cases "T < currentTerm (rf_of s j)") (auto simp: rf_ok_def)
  then show ?thesis
    using v m cluster_okD(3) [OF ok j]
    by (intro cluster_ok_local [OF ok, where i = j]) (auto simp: cluster_updates)
qed

text \<open>A node changes without touching its election: its term may rise, clearing its vote and
  its leadership.\<close>

lemma ok_quiet:
  assumes ok: "cluster_ok n s" and i: "i < n"
    and nd': "nd_el nd' = nd_el (nodes s i)" "nd_pc nd' = nd_pc (nodes s i)"
      "nd_voters nd' = nd_voters (nodes s i)"
    and mono: "currentTerm (rf_of s i) \<le> currentTerm (nd_rf nd')"
    and same: "currentTerm (nd_rf nd') = currentTerm (rf_of s i) \<Longrightarrow>
      voteFor (nd_rf nd') = voteFor (rf_of s i) \<and> leaderId (nd_rf nd') = leaderId (rf_of s i)"
    and up: "currentTerm (rf_of s i) < currentTerm (nd_rf nd') \<Longrightarrow>
      voteFor (nd_rf nd') = -1 \<and> leaderId (nd_rf nd') = -1"
    and frame: "peers (nd_rf nd') = peers (rf_of s i)" "me (nd_rf nd') = me (rf_of s i)"
      "vote_synced (rf_of s i) \<Longrightarrow> vote_synced (nd_rf nd')"
  shows "refines n s (set_node i nd' s)" (is "refines n s ?s'")
proof -
  have "(vote_step n)\<^sup>*\<^sup>* (abs_votes s) (abs_votes ?s')"
    by (rule votes_move [where i = i]) (use mono same up in \<open>auto simp: cluster_updates\<close>)
  moreover have "rf_ok n (h_wins s) i (nd_rf nd')"
    using cluster_okD(2) [OF ok i] mono same up frame
    by (cases "currentTerm (rf_of s i) < currentTerm (nd_rf nd')") (auto simp: rf_ok_def)
  moreover have "el_ok n (h_grants s) (h_wins s) i nd'"
    using cluster_okD(3) [OF ok i] nd' by (simp add: el_ok_def)
  ultimately show ?thesis
    by (intro cluster_ok_local [OF ok, where i = i]) (auto simp: cluster_updates)
qed

lemma ok_post:
  "refines n s s' \<Longrightarrow> msg_ok (h_grants s') (h_wins s') m \<Longrightarrow> refines n s (post m s')"
  by (simp add: refines_def cluster_ok_def post_def abs_votes_def)

lemma ok_quiet_send:
  assumes "cluster_ok n s" and "i < n" and "nd_rf nd' = rf_of s i"
    and "nd_el nd' = nd_el (nodes s i)" "nd_pc nd' = nd_pc (nodes s i)"
    and "nd_voters nd' = nd_voters (nodes s i)" and "msg_ok (h_grants s) (h_wins s) m"
  shows "refines n s (post m (set_node i nd' s))"
  using assms by (intro ok_post ok_quiet) (auto simp: cluster_updates)

lemma ok_Restart:
  assumes ok: "cluster_ok n s" and i: "i < n"
  shows "refines n s ((set_node i (new_node n i (Copy (rf_persister (rf_of s i))) now rnd) s)
      \<lparr>h_restarts := h_restarts s + 1\<rparr>)"
    (is "refines n s ?s'")
proof -
  let ?rf = "rf_of s i" and ?rf' = "Make n (int i) (Copy (rf_persister (rf_of s i))) now rnd"
  have rf: "rf_ok n (h_wins s) i ?rf" using cluster_okD(2) [OF ok i] .
  have "vote_synced (?rf\<lparr>rf_persister := Copy (rf_persister ?rf)\<rparr>)"
    using rf by (simp add: rf_ok_def vote_synced_def)
  note f = Make_vote [OF this refl, of n "int i" now rnd]
  have "abs_votes ?s' = abs_votes s"
    using f(1,2) by (intro abs_votes_same [where i = i]) (auto simp: cluster_updates new_node_def)
  moreover have "rf_ok n (h_wins s) i ?rf'"
    using f(3) by (simp add: rf_ok_def Make_fields)
  ultimately show ?thesis
    by (intro cluster_ok_local [OF ok, where i = i])
      (auto simp: cluster_updates new_node_def el_ok_def)
qed

text \<open>Unless an election ends after its term has moved on, every step of the cluster keeps
  the invariant and is a sequence of voting steps.\<close>

lemma cluster_step_refines:
  assumes "cluster_step n s s'" and "cluster_ok n s" and "\<not> h_stale s'"
  shows "refines n s s'"
  using assms
proof (induction rule: cluster_step.induct)
  case (ElectionStart i s nd rf' el)
  then show ?case by (intro ok_ElectionStart)
next
  case (ElectionSend i j s nd el args)
  then show ?case by (intro ok_ElectionSend)
next
  case (ElectionSkip i j s nd el)
  then show ?case by (intro ok_ElectionSkip)
next
  case (DeliverRequestVote i j args s now rnd rf' rep)
  then show ?case by (intro ok_DeliverRequestVote)
next
  case (ElectionReply i j s nd el ok rep rf' el')
  then show ?case by (intro ok_ElectionReply)
next
  case (ElectionFinish i s nd el won fresh now rnd)
  then show ?case by (intro ok_ElectionFinish) auto
next
  case (RoundStart i s nd ar ws)
  then show ?case by (intro ok_quiet) auto
next
  case (AppendSend i j s nd ar aargs)
  note rf = cluster_okD(2) [OF \<open>cluster_ok n s\<close> \<open>i < n\<close>]
  have "aea_LeaderId aargs = me (nd_rf nd)" "leaderId (nd_rf nd) = me (nd_rf nd)"
    "aea_Term aargs = currentTerm (nd_rf nd)"
    using AppendSend by (auto simp: appendRPCWorker_request_def go_Inr_iffs Let_def split: if_splits)
  then show ?case
    using AppendSend rf by (intro ok_quiet_send) (auto simp: rf_ok_def)
next
  case (AppendSkip i j s nd ar)
  then show ?case by (intro ok_quiet) auto
next
  case (DeliverAppendEntries i j aargs s now rnd rf' arep)
  then obtain Q where m: "aea_LeaderId aargs = int i" "(aea_Term aargs, i, Q) \<in> h_wins s"
    using cluster_okD(1) by fastforce
  note f = AppendEntries_vote [OF DeliverAppendEntries(3)]
    AppendEntries_vote_synced [OF DeliverAppendEntries(3)]
  show ?case
    by (rule ok_leader_request [OF _ _ m(2)]) (use DeliverAppendEntries f m(1) in auto)
next
  case (AppendReply i j s nd ar aargs ok arep rf' ar')
  then show ?case
    using appendRPCWorker_reply_fields [OF AppendReply(7)] by (intro ok_quiet) auto
next
  case (InstallSend i j s nd ar iargs)
  note rf = cluster_okD(2) [OF \<open>cluster_ok n s\<close> \<open>i < n\<close>]
  have "isa_LeaderId iargs = me (nd_rf nd)" "leaderId (nd_rf nd) = me (nd_rf nd)"
    "isa_Term iargs = currentTerm (nd_rf nd)"
    using InstallSend by (auto simp: InstallSnapshotSender_request_def split: if_splits)
  then show ?case
    using InstallSend rf by (intro ok_quiet_send) (auto simp: rf_ok_def)
next
  case (InstallSkip i j s nd ar)
  then show ?case by (intro ok_quiet) auto
next
  case (DeliverInstallSnapshot i j iargs s now rnd rf' irep sp)
  then obtain Q where m: "isa_LeaderId iargs = int i" "(isa_Term iargs, i, Q) \<in> h_wins s"
    using cluster_okD(1) by fastforce
  note f = InstallSnapshot_vote [OF DeliverInstallSnapshot(3)]
  show ?case
    by (rule ok_leader_request [OF _ _ m(2)]) (use DeliverInstallSnapshot f m(1) in auto)
next
  case (InstallReply i j s nd ar ok irep rf' ar')
  then show ?case
    using InstallSnapshotSender_reply_fields [OF InstallReply(7)] by (intro ok_quiet) auto
next
  case (RoundFinish i s nd ar rf')
  then obtain ci where "rf' = (nd_rf nd)\<lparr>commitIndex := ci\<rparr>"
    using sendAERpcs_finish_fields(1) by blast
  then show ?case using RoundFinish by (intro ok_quiet) auto
next
  case (DoSnapshot i index snap s rf')
  then show ?case
    using doSnapshot_fields(6-10,14) [of index snap "rf_of s i" rf']
    by (cases "lastAppliedIndex (rf_of s i) \<le> index")
      (auto simp: set_rf_def doSnapshot_branches synced_vote_synced intro!: ok_quiet)
next
  case (ApplyLog i index s rf')
  then show ?case
    using applyLogToRsm_Inr [of index "rf_of s i" rf'] by (auto simp: set_rf_def intro!: ok_quiet)
next
  case (StartCommand i command s rf' ix t b)
  then show ?case
    by (auto simp: set_rf_def Start_def Let_def intro!: ok_quiet split: if_splits)
next
  case (Restart i s now rnd)
  then show ?case by (intro ok_Restart)
qed

lemma cluster_step_stale: "cluster_step n s s' \<Longrightarrow> h_stale s \<Longrightarrow> h_stale s'"
  by (induction rule: cluster_step.induct) (auto simp: cluster_updates)

lemma cluster_init_ok: "cluster_init n s \<Longrightarrow> cluster_ok n s"
proof -
  assume init: "cluster_init n s"
  have "rf_ok n (h_wins s) i (rf_of s i) \<and> el_ok n (h_grants s) (h_wins s) i (nodes s i)"
    if "i < n" for i
  proof -
    obtain ps now rnd where "durable ps \<noteq> None" "nodes s i = new_node n i ps now rnd"
      using init \<open>i < n\<close> unfolding cluster_init_def by blast
    then show ?thesis
      by (simp add: new_node_def rf_ok_def el_ok_def Make_fields Make_synced synced_vote_synced)
  qed
  then show ?thesis
    using init by (auto simp: cluster_ok_def cluster_init_def abs_votes_def
        intro!: vote_inv_init [unfolded vote_init_def])
qed

interpretation cluster: inductive_invariant "cluster_init n" "cluster_step n" "cluster_inv n"
proof unfold_locales
  fix s t :: "'a cluster"
  assume "cluster_inv n s" and "cluster_step n s t"
  then show "cluster_inv n t"
    using cluster_step_stale [of n s t] cluster_step_refines [of n s t]
    by (auto simp: cluster_inv_def refines_def)
qed (simp add: cluster_inv_def cluster_init_ok)

end
