(* ===== verification/Raft_Safety.thy ===== *)
theory Raft_Safety
  imports Raft_Cluster
begin

text \<open>
  Election safety of the cluster: what holds of every run, the run in which the code breaks
  it, and the abstract voting that the cluster refines.
\<close>

abbreviation cluster_reach :: "nat \<Rightarrow> 'c cluster \<Rightarrow> bool" where
  "cluster_reach n \<equiv> reaches (cluster_init n) (cluster_step n)"

text \<open>What the tester sees: a peer that claims to be leader of a term.\<close>

definition leads :: "'c cluster \<Rightarrow> nat \<Rightarrow> int \<Rightarrow> bool" where
  "leads s i t \<longleftrightarrow> GetState (rf_of s i) = (t, True)"

lemma leads_iff: "cluster_ok n s \<Longrightarrow> i < n \<Longrightarrow>
    leads s i t \<longleftrightarrow> currentTerm (rf_of s i) = t \<and> leaderId (rf_of s i) = int i"
  using cluster_okD(2) [of n s i] by (auto simp: leads_def GetState_def rf_ok_def)

section \<open>Runs\<close>

text \<open>A step that compacts no log.\<close>

definition calm_step :: "nat \<Rightarrow> 'c cluster \<Rightarrow> 'c cluster \<Rightarrow> bool" where
  "calm_step n s s' \<longleftrightarrow>
     cluster_step n s s' \<and> (\<forall>k. lastAppliedIndex (rf_of s' k) = lastAppliedIndex (rf_of s k))"

lemma calm_reaches: "cluster_reach n s \<Longrightarrow> (calm_step n)\<^sup>*\<^sup>* s s' \<Longrightarrow> cluster_reach n s'"
  by (rule reaches_rtranclp [OF rtranclp_mono [THEN predicate2D]]) (auto simp: calm_step_def)

text \<open>The logs of the peers, which an election leaves alone.\<close>

definition same_logs :: "'c cluster \<Rightarrow> 'c cluster \<Rightarrow> bool" where
  "same_logs s s' \<longleftrightarrow>
     (\<forall>k. Log (rf_of s' k) = Log (rf_of s k) \<and> lastAppliedIndex (rf_of s' k) = lastAppliedIndex (rf_of s k) \<and>
          lastAppliedTerm (rf_of s' k) = lastAppliedTerm (rf_of s k))"

text \<open>The initial cluster with empty persisters.\<close>

definition boot_cluster :: "nat \<Rightarrow> nat cluster" where
  "boot_cluster n =
     \<lparr>nodes = (\<lambda>i. new_node n i MakePersister 0 0), net = {}, h_grants = {}, h_wins = {},
      h_stale = False, h_restarts = 0\<rparr>"

lemma Make_boot:
  "currentTerm (Make n m MakePersister now rnd) = 0"
  "last_log (Make n m MakePersister now rnd) = (0, 0)"
proof -
  have "hard_state (Make n m MakePersister now rnd) = boot_state"
    by (simp add: Make_hard_state durable_def)
  then show "currentTerm (Make n m MakePersister now rnd) = 0"
    "last_log (Make n m MakePersister now rnd) = (0, 0)"
    by (auto simp: hard_state_def boot_state_def last_log_def)
qed

lemma boot_cluster_init: "cluster_init n (boot_cluster n)"
proof -
  have "durable (MakePersister :: nat raft_persister) \<noteq> None"
    by (cases "boot_state :: nat hard_state") (simp add: durable_def)
  then show ?thesis
    unfolding cluster_init_def boot_cluster_def by (simp del: not_None_eq) blast
qed

text \<open>One candidate asks the other peer of a cluster of two and counts its vote; the election
  is over but \<open>startElection\<close> has not yet got the lock back.\<close>

lemma startElection_begin_last_log: "last_log (fst (startElection_begin rf)) = last_log rf"
  by (simp add: startElection_begin_def Let_def)

lemma RequestVote_last_log: "last_log (fst (RequestVote now rnd args rf)) = last_log rf"
  by (intro last_log_cong) simp_all

lemma two_peer_ballot:
  fixes s :: "'c cluster"
  assumes ij: "i < 2" "j < 2" "i \<noteq> j"
    and idle: "nd_el (nodes s i) = None" "nd_ar (nodes s i) = None"
    and rf: "me (rf_of s i) = int i" "peers (rf_of s i) = 2"
    and vote: "currentTerm (rf_of s j) \<le> currentTerm (rf_of s i)"
      "last_log (rf_of s i) = last_log (rf_of s j)"
  obtains s' :: "'c cluster" where "(calm_step 2)\<^sup>*\<^sup>* s s'" and "same_logs s s'"
    and "nd_el (nodes s' i) = Some \<lparr>el_currentTerm = currentTerm (rf_of s i) + 1,
      el_voteCount = 2, el_finished = 1\<rparr>"
    and "nd_ar (nodes s' i) = None" and "me (rf_of s' i) = int i" and "peers (rf_of s' i) = 2"
    and "currentTerm (rf_of s' i) = currentTerm (rf_of s i) + 1"
    and "last_log (rf_of s' i) = last_log (rf_of s i)"
    and "nd_el (nodes s' j) = nd_el (nodes s j)" and "nd_ar (nodes s' j) = nd_ar (nodes s j)"
    and "me (rf_of s' j) = me (rf_of s j)" and "peers (rf_of s' j) = peers (rf_of s j)"
    and "currentTerm (rf_of s' j) = currentTerm (rf_of s i) + 1"
    and "last_log (rf_of s' j) = last_log (rf_of s j)" and "h_stale s' = h_stale s"
proof -
  let ?rf = "rf_of s i" and ?T = "currentTerm (rf_of s i) + 1"
  obtain rf1 el1 where b: "startElection_begin ?rf = (rf1, el1)" by force
  note fb = startElection_begin_fields [OF b]
  have ll1: "last_log rf1 = last_log ?rf"
    using startElection_begin_last_log [of ?rf] by (simp add: b)
  define args where "args = \<lparr>rva_Term = ?T, rva_CandidateId = int i,
    rva_LastLogIndex = fst (last_log ?rf), rva_LastLogTerm = snd (last_log ?rf)\<rparr>"
  have req: "electionSender_request ?T rf1 = Some args"
    using fb rf by (simp add: electionSender_request_def args_def ll1)
  obtain rf2 rep where rv: "RequestVote 0 0 args (rf_of s j) = (rf2, rep)" by force
  have granted: "rvr_VoteGranted rep" "rvr_Term rep = currentTerm (rf_of s j)"
    using RequestVote_granted_iff [of 0 0 args "rf_of s j"]
      RequestVote_reply_term [of 0 0 args "rf_of s j"] rv vote
    by (auto simp: args_def up_to_date_def)
  have f2: "currentTerm rf2 = ?T" "me rf2 = me (rf_of s j)" "peers rf2 = peers (rf_of s j)"
    "last_log rf2 = last_log (rf_of s j)"
    using vote(1) RequestVote_frame(1,2) [of 0 0 args "rf_of s j"]
      RequestVote_term [of 0 0 args "rf_of s j"] RequestVote_last_log [of 0 0 args "rf_of s j"]
    unfolding rv fst_conv by (simp_all add: args_def)
  define el2 where "el2 = \<lparr>el_currentTerm = ?T, el_voteCount = 2, el_finished = 1\<rparr>"
  have rpl: "electionSender_reply True rep rf1 el1 = (rf1, el2)"
    unfolding el2_def using fb granted vote by (auto simp: electionSender_reply_def electionSender_skip_def Let_def)
  have logs: "Log rf1 = Log ?rf" "lastAppliedIndex rf1 = lastAppliedIndex ?rf"
    "lastAppliedTerm rf1 = lastAppliedTerm ?rf" "Log rf2 = Log (rf_of s j)"
    "lastAppliedIndex rf2 = lastAppliedIndex (rf_of s j)" "lastAppliedTerm rf2 = lastAppliedTerm (rf_of s j)"
    using b RequestVote_frame [of 0 0 args "rf_of s j"] rv by (auto simp: startElection_begin_def Let_def)
  define s1 where "s1 = (set_node i ((nodes s i)\<lparr>nd_rf := rf1, nd_el := Some el1,
      nd_pc := (\<lambda>k. if k = i then PcDone else PcSpawned), nd_voters := {i}\<rparr>) s)
    \<lparr>h_grants := insert (el_currentTerm el1, i, i) (h_grants s)\<rparr>"
  have r1: "cluster_step 2 s s1"
    unfolding s1_def by (rule ElectionStart [OF ij(1) refl idle b])
  define s2 where "s2 = post (RVReq i j args)
    (set_node i ((nodes s1 i)\<lparr>nd_pc := (nd_pc (nodes s1 i))(j := PcCalling)\<rparr>) s1)"
  have r2: "cluster_step 2 s1 s2"
    unfolding s2_def
    by (rule ElectionSend [OF ij(1,2) refl, where el = el1])
      (use ij fb req in \<open>auto simp: s1_def cluster_updates\<close>)
  define s3 where "s3 = (post (RVRep i j (rva_Term args) rep) (set_rf j rf2 s2))
    \<lparr>h_grants := insert (rva_Term args, j, i) (h_grants s2)\<rparr>"
  have r3: "cluster_step 2 s2 s3"
    using DeliverRequestVote [of i j args s2 2 0 0 rf2 rep] rv ij
    by (simp add: s3_def s2_def s1_def cluster_updates granted)
  define s4 where "s4 = set_node i ((nodes s3 i)\<lparr>nd_rf := rf1, nd_el := Some el2,
      nd_pc := (nd_pc (nodes s3 i))(j := PcDone), nd_voters := {i, j}\<rparr>) s3"
  have r4: "cluster_step 2 s3 s4"
    using ElectionReply [OF ij(1,2) refl, where s = s3 and el = el1 and ok = True
          and rep = rep and rf' = rf1 and el' = el2] ij rpl fb(4)
    by (simp add: s4_def s3_def s2_def s1_def cluster_updates args_def el2_def insert_commute)
  have at: "nodes s4 i = (nodes s3 i)\<lparr>nd_rf := rf1, nd_el := Some el2,
      nd_pc := (nd_pc (nodes s3 i))(j := PcDone), nd_voters := {i, j}\<rparr>"
    "nd_ar (nodes s3 i) = nd_ar (nodes s i)" "nodes s4 j = (nodes s j)\<lparr>nd_rf := rf2\<rparr>"
    "h_stale s4 = h_stale s"
    using ij by (simp_all add: s4_def s3_def s2_def s1_def cluster_updates)
  have base: "lastAppliedIndex (rf_of s1 k) = lastAppliedIndex (rf_of s k)"
    "lastAppliedIndex (rf_of s2 k) = lastAppliedIndex (rf_of s1 k)"
    "lastAppliedIndex (rf_of s3 k) = lastAppliedIndex (rf_of s2 k)"
    "lastAppliedIndex (rf_of s4 k) = lastAppliedIndex (rf_of s3 k)" for k
    using logs ij by (simp_all add: s1_def s2_def s3_def s4_def cluster_updates)
  have "calm_step 2 s s1" "calm_step 2 s1 s2" "calm_step 2 s2 s3" "calm_step 2 s3 s4"
    using r1 r2 r3 r4 base by (simp_all add: calm_step_def)
  then have run: "(calm_step 2)\<^sup>*\<^sup>* s s4"
    by (rule rtranclp.rtrancl_into_rtrancl [OF rtranclp.rtrancl_into_rtrancl
          [OF rtranclp.rtrancl_into_rtrancl [OF r_into_rtranclp]]])
  have "same_logs s s4"
    using logs ij by (auto simp: same_logs_def s1_def s2_def s3_def s4_def cluster_updates)
  then show thesis
    by (rule that [OF run]) (simp_all add: at fb f2 rf ll1 idle el2_def)
qed

text \<open>An election whose votes are in ends.\<close>

lemma two_peer_win:
  fixes s :: "'c cluster"
  assumes i: "i < 2" "i \<noteq> j"
    and el: "nd_el (nodes s i) = Some \<lparr>el_currentTerm = T, el_voteCount = 2, el_finished = 1\<rparr>"
    and rf: "me (rf_of s i) = int i" "peers (rf_of s i) = 2"
  obtains s' :: "'c cluster" where "calm_step 2 s s'" and "same_logs s s'" and "nodes s' j = nodes s j"
    and "rf_of s' i = updateElectionTimeout 0 0 (beLeaer (rf_of s i))"
    and "nd_el (nodes s' i) = None" and "nd_ar (nodes s' i) = nd_ar (nodes s i)"
    and "leads s' i (currentTerm (rf_of s i))"
    and "h_stale s' \<longleftrightarrow> h_stale s \<or> currentTerm (rf_of s i) \<noteq> T"
proof -
  let ?el = "\<lparr>el_currentTerm = T, el_voteCount = 2, el_finished = 1\<rparr>"
  have fin: "startElection_done (rf_of s i) ?el"
    by (simp add: startElection_done_def rf)
  note f = startElection_finish_fields [of 0 0 "rf_of s i" ?el]
  define fresh where "fresh = (currentTerm (rf_of s i) = T)"
  define s' where "s' = (set_node i ((nodes s i)
      \<lparr>nd_rf := startElection_finish 0 0 (rf_of s i) ?el, nd_el := None\<rparr>) s)
    \<lparr>h_wins := (if True \<and> fresh
                 then insert (el_currentTerm ?el, i, nd_voters (nodes s i)) (h_wins s)
                 else h_wins s),
     h_stale := (h_stale s \<or> True \<and> \<not> fresh)\<rparr>"
  have "cluster_step 2 s s'"
    unfolding s'_def
    by (rule ElectionFinish [where nd = "nodes s i" and el = ?el])
      (use i(1) el fin in \<open>simp_all add: rf fresh_def\<close>)
  moreover have rf': "rf_of s' i = updateElectionTimeout 0 0 (beLeaer (rf_of s i))"
    using rf by (simp add: s'_def cluster_updates startElection_finish_def)
  moreover have others: "k \<noteq> i \<Longrightarrow> nodes s' k = nodes s k" for k by (simp add: s'_def cluster_updates)
  moreover have logs: "same_logs s s'"
    unfolding same_logs_def
  proof
    fix k show "Log (rf_of s' k) = Log (rf_of s k) \<and> lastAppliedIndex (rf_of s' k) = lastAppliedIndex (rf_of s k) \<and>
        lastAppliedTerm (rf_of s' k) = lastAppliedTerm (rf_of s k)"
      using rf' others by (cases "k = i") auto
  qed
  ultimately have "calm_step 2 s s'" by (simp add: calm_step_def same_logs_def)
  then show thesis
  proof (rule that)
    show "same_logs s s'" "rf_of s' i = updateElectionTimeout 0 0 (beLeaer (rf_of s i))" by (fact logs, fact rf')
    show "nd_el (nodes s' i) = None" "nd_ar (nodes s' i) = nd_ar (nodes s i)"
      by (simp_all add: s'_def cluster_updates)
    show "nodes s' j = nodes s j" using i(2) by (simp add: s'_def cluster_updates)
    show "leads s' i (currentTerm (rf_of s i))"
      using rf by (simp add: s'_def cluster_updates leads_def GetState_def f)
    show "h_stale s' \<longleftrightarrow> h_stale s \<or> currentTerm (rf_of s i) \<noteq> T"
      by (simp add: s'_def fresh_def)
  qed
qed

text \<open>The state in which a new cluster of two peers waits for peer 0 to take the lead.\<close>

lemma first_ballot:
  obtains s :: "nat cluster" where "(calm_step 2)\<^sup>*\<^sup>* (boot_cluster 2) s" and "same_logs (boot_cluster 2) s"
    and "cluster_reach 2 s" and "\<not> h_stale s"
    and "nd_el (nodes s 0) = Some \<lparr>el_currentTerm = 1, el_voteCount = 2, el_finished = 1\<rparr>"
    and "nd_ar (nodes s 0) = None" and "nd_el (nodes s 1) = None" and "nd_ar (nodes s 1) = None"
    and "me (rf_of s 0) = 0" and "peers (rf_of s 0) = 2"
    and "me (rf_of s 1) = 1" and "peers (rf_of s 1) = 2"
    and "currentTerm (rf_of s 0) = 1" and "currentTerm (rf_of s 1) = 1"
    and "last_log (rf_of s 0) = (0, 0)" and "last_log (rf_of s 1) = (0, 0)"
proof -
  let ?b = "boot_cluster 2"
  have reach: "cluster_reach 2 ?b" by (rule reaches_init) (rule boot_cluster_init)
  have boot: "currentTerm (rf_of ?b i) = 0" "me (rf_of ?b i) = int i"
    "peers (rf_of ?b i) = 2" "nd_el (nodes ?b i) = None" "nd_ar (nodes ?b i) = None"
    "last_log (rf_of ?b i) = (0, 0)" "\<not> h_stale ?b" for i
    by (simp_all add: boot_cluster_def new_node_def Make_fields Make_boot)
  obtain s :: "nat cluster" where s: "(calm_step 2)\<^sup>*\<^sup>* ?b s" "same_logs ?b s"
    "nd_el (nodes s 0) = Some \<lparr>el_currentTerm = 1, el_voteCount = 2, el_finished = 1\<rparr>"
    "nd_ar (nodes s 0) = None" "me (rf_of s 0) = 0" "peers (rf_of s 0) = 2" "currentTerm (rf_of s 0) = 1"
    "last_log (rf_of s 0) = (0, 0)" "nd_el (nodes s 1) = None" "nd_ar (nodes s 1) = None"
    "me (rf_of s 1) = 1" "peers (rf_of s 1) = 2" "currentTerm (rf_of s 1) = 1"
    "last_log (rf_of s 1) = (0, 0)" "\<not> h_stale s"
    by (rule two_peer_ballot [of 0 1 ?b]; (rule that, assumption)?) (simp_all add: boot)
  show thesis
    by (rule that [OF s(1,2) calm_reaches [OF reach s(1)]]) (use s in simp_all)
qed

text \<open>Peer 0 has taken the lead; the logs are those of new peers.\<close>

lemma first_leader:
  obtains s :: "nat cluster" where "(calm_step 2)\<^sup>*\<^sup>* (boot_cluster 2) s" and "same_logs (boot_cluster 2) s"
    and "cluster_reach 2 s" and "\<not> h_stale s" and "leads s 0 1" and "nd_el (nodes s 0) = None"
    and "nd_ar (nodes s 0) = None" and "me (rf_of s 0) = 0" and "peers (rf_of s 0) = 2"
    and "currentTerm (rf_of s 1) = 1"
    and "nextIndex (rf_of s 0) = replicate 2 (int (length (Log (rf_of s 0))) + lastAppliedIndex (rf_of s 0) + 1)"
proof (rule first_ballot)
  fix s :: "nat cluster"
  assume s: "(calm_step 2)\<^sup>*\<^sup>* (boot_cluster 2) s" "same_logs (boot_cluster 2) s" "cluster_reach 2 s" "\<not> h_stale s"
    "nd_el (nodes s 0) = Some \<lparr>el_currentTerm = 1, el_voteCount = 2, el_finished = 1\<rparr>"
    "nd_ar (nodes s 0) = None" "me (rf_of s 0) = 0" "peers (rf_of s 0) = 2" "currentTerm (rf_of s 0) = 1"
    "currentTerm (rf_of s 1) = 1"
  obtain s' :: "nat cluster" where s': "calm_step 2 s s'" "same_logs s s'" "nodes s' 1 = nodes s 1"
    "rf_of s' 0 = updateElectionTimeout 0 0 (beLeaer (rf_of s 0))" "nd_el (nodes s' 0) = None"
    "nd_ar (nodes s' 0) = nd_ar (nodes s 0)" "leads s' 0 1" "\<not> h_stale s'"
    by (rule two_peer_win [of 0 1, OF _ _ s(5)]; (rule that, assumption)?) (use s in simp_all)
  have run: "(calm_step 2)\<^sup>*\<^sup>* (boot_cluster 2) s'" using s(1) s'(1) by simp
  have logs: "same_logs (boot_cluster 2) s'" using s(2) s'(2) by (simp add: same_logs_def)
  show thesis
    by (rule that [OF run logs calm_reaches [OF s(3) r_into_rtranclp [of "calm_step 2", OF s'(1)]]])
      (use s s' in \<open>simp_all add: beLeaer_def Let_def\<close>)
qed

lemma abs_votes_init: "cluster_init n s \<Longrightarrow> vote_init (abs_votes s)"
  by (simp add: cluster_init_def vote_init_def abs_votes_def)

section \<open>Properties\<close>

text \<open>
  C1. Election safety. In every run of the cluster (any number of peers, any message loss,
  delay, repetition and reordering, any crashes and restarts) in which no election ended after
  its peer's term had moved on, two peers that report themselves leaders of the same term are
  the same peer.
\<close>

theorem election_safety:
  assumes "cluster_reach n s" and "\<not> h_stale s" and "i < n" and "j < n"
    and "leads s i t" and "leads s j t"
  shows "i = j"
proof -
  have ok: "cluster_ok n s"
    using cluster.invar_reaches [OF assms(1)] assms(2) by (simp add: cluster_inv_def)
  have "leaderId (rf_of s i) = int i" "leaderId (rf_of s j) = int j"
    "currentTerm (rf_of s i) = t" "currentTerm (rf_of s j) = t"
    using leads_iff [OF ok assms(3)] leads_iff [OF ok assms(4)] assms(5,6) by auto
  then obtain Q R where "(t, i, Q) \<in> h_wins s" "(t, j, R) \<in> h_wins s"
    using cluster_okD(2) [OF ok assms(3)] cluster_okD(2) [OF ok assms(4)]
    by (auto simp: rf_ok_def)
  then show ?thesis
    using unique_winner [OF cluster_okD(4) [OF ok]] by (simp add: abs_votes_def)
qed

theorem election_safety_witness:
  "\<exists>s :: nat cluster. cluster_reach 2 s \<and> \<not> h_stale s \<and> leads s 0 1 \<and> \<not> leads s 1 1"
proof (rule first_leader)
  fix s :: "nat cluster"
  assume s: "cluster_reach 2 s" "\<not> h_stale s" "leads s 0 1"
  have "\<not> leads s 1 1"
    using election_safety [OF s(1,2) _ _ s(3), of 1] by auto
  with s show ?thesis by blast
qed

text \<open>
  C2. Refinement. Every run of the cluster in which no election ended after its peer's term had
  moved on is, read through \<open>abs_votes\<close>, a run of the abstract voting protocol of
  \<open>Vote_Spec\<close>, in which a peer grants at most one vote per term and a winner holds the votes
  of a majority.
\<close>

theorem cluster_refines_voting:
  assumes "cluster_reach n s" and "\<not> h_stale s"
  shows "reaches vote_init (vote_step n) (abs_votes s)"
  using assms
proof (induction rule: reaches.induct)
  case (reaches_init s)
  then show ?case by (intro reaches.reaches_init) (simp add: abs_votes_init)
next
  case (reaches_step s t)
  then have "\<not> h_stale s" using cluster_step_stale by blast
  then have "cluster_ok n s"
    using cluster.invar_reaches [OF reaches_step(1)] by (simp add: cluster_inv_def)
  then have "refines n s t" using reaches_step by (intro cluster_step_refines)
  then show ?case
    using reaches_step \<open>\<not> h_stale s\<close> by (auto simp: refines_def intro: reaches_rtranclp)
qed

theorem cluster_refines_voting_witness:
  "\<exists>s :: nat cluster. reaches vote_init (vote_step 2) (abs_votes s) \<and>
     v_term (abs_votes s) 1 = 1"
  by (rule first_ballot) (use cluster_refines_voting [of 2] in \<open>auto simp: abs_votes_def\<close>)

text \<open>
  C3. The guard of C1 is needed: \<open>startElection\<close> does not look at the term again after it
  waited for the votes, so a cluster of two peers has a run, without any crash or message
  loss, that ends with both peers leaders of term 2. Peer 0 collects the votes of term 1;
  before it takes the lock back, peer 1 collects the votes of term 2, among them peer 0's;
  then both become leaders of their current term.
\<close>

theorem stale_election_two_leaders:
  "\<exists>s :: nat cluster. cluster_reach 2 s \<and> leads s 0 2 \<and> leads s 1 2"
proof (rule first_ballot)
  fix s :: "nat cluster"
  assume s: "cluster_reach 2 s" "\<not> h_stale s"
    "nd_el (nodes s 0) = Some \<lparr>el_currentTerm = 1, el_voteCount = 2, el_finished = 1\<rparr>"
    "nd_el (nodes s 1) = None" "nd_ar (nodes s 1) = None" "me (rf_of s 0) = 0"
    "peers (rf_of s 0) = 2" "me (rf_of s 1) = 1" "peers (rf_of s 1) = 2"
    "currentTerm (rf_of s 0) = 1" "currentTerm (rf_of s 1) = 1"
    "last_log (rf_of s 0) = (0, 0)" "last_log (rf_of s 1) = (0, 0)"
  obtain s1 :: "nat cluster" where s1: "cluster_reach 2 s1"
    "nd_el (nodes s1 1) = Some \<lparr>el_currentTerm = 2, el_voteCount = 2, el_finished = 1\<rparr>"
    "nd_el (nodes s1 0) = Some \<lparr>el_currentTerm = 1, el_voteCount = 2, el_finished = 1\<rparr>"
    "me (rf_of s1 0) = 0" "peers (rf_of s1 0) = 2" "me (rf_of s1 1) = 1"
    "peers (rf_of s1 1) = 2" "currentTerm (rf_of s1 0) = 2" "currentTerm (rf_of s1 1) = 2"
    by (rule two_peer_ballot [of 1 0 s]; (rule that, rule calm_reaches [OF s(1)], assumption)?)
      (use s in simp_all)
  obtain s2 :: "nat cluster" where s2: "cluster_reach 2 s2" "nodes s2 1 = nodes s1 1" "leads s2 0 2"
    by (rule two_peer_win [of 0 1, OF _ _ s1(3)]; (rule that, rule calm_reaches [OF s1(1)], simp)?)
      (use s1 in simp_all)
  obtain s3 :: "nat cluster" where "cluster_reach 2 s3" "nodes s3 0 = nodes s2 0" "leads s3 1 2"
    by (rule two_peer_win [of 1 0 s2 2]; (rule that, rule calm_reaches [OF s2(1)], simp)?)
      (use s1 s2 in simp_all)
  then show ?thesis using s2(3) by (auto simp: leads_def)
qed

end
