(* ===== verification/Raft_Logs.thy ===== *)
theory Raft_Logs
  imports Raft_Safety
begin

text \<open>
  Log matching in the cluster of \<open>Raft_Cluster\<close>: two logs that have an entry of the same term
  at the same index agree on every earlier entry that both still hold.

  The proof keeps one map \<open>P\<close> for the whole cluster, from the index and term of an entry to the
  term of the entry before it and the command. Every log, in memory or on disk, and every list
  of entries in the network is a path of \<open>P\<close>; only the leader of a term adds to \<open>P\<close> at that
  term, and its own log reaches beyond all that it has added.

  The property is about runs from empty disks in which no election ended after its term had
  moved on (see \<open>Raft_Safety\<close>) and every \<open>InstallSnapshot\<close> that kept the end of a log found the
  snapshot's term there, which the handler does not check.
\<close>

section \<open>Paths of entries\<close>

type_synonym 'c ancestry = "int \<times> int \<rightharpoonup> int \<times> 'c option"

fun chained :: "'c ancestry \<Rightarrow> int \<Rightarrow> int \<Rightarrow> 'c entry list \<Rightarrow> bool" where
  "chained P k t [] \<longleftrightarrow> True"
| "chained P k t (e # es) \<longleftrightarrow> P (k + 1, Term e) = Some (t, Command e) \<and> chained P (k + 1) (Term e) es"

definition end_term :: "int \<Rightarrow> 'c entry list \<Rightarrow> int" where
  "end_term t es = (if es = [] then t else Term (last es))"

lemma end_term_simps [simp]:
  "end_term t [] = t" "end_term t (e # es) = end_term (Term e) es" "end_term t (es @ [e]) = Term e"
  by (auto simp: end_term_def)

lemma chained_append [simp]:
  "chained P k t (xs @ ys) \<longleftrightarrow> chained P k t xs \<and> chained P (k + int (length xs)) (end_term t xs) ys"
  by (induction P k t xs rule: chained.induct) (auto simp: algebra_simps)

lemma chained_take: "chained P k t es \<Longrightarrow> chained P k t (take m es)"
  using chained_append [of P k t "take m es" "drop m es"] by simp

lemma chained_drop:
  "chained P k t es \<Longrightarrow> m \<le> length es \<Longrightarrow> chained P (k + int m) (end_term t (take m es)) (drop m es)"
  using chained_append [of P k t "take m es" "drop m es"] by (simp add: min_absorb2)

lemma chained_mono: "chained P k t es \<Longrightarrow> P \<subseteq>\<^sub>m P' \<Longrightarrow> chained P' k t es"
  by (induction P k t es rule: chained.induct) (auto simp: map_le_def dom_def)

lemma chained_nth:
  "chained P k t es \<Longrightarrow> m < length es \<Longrightarrow>
   P (k + 1 + int m, Term (es ! m)) = Some (end_term t (take m es), Command (es ! m))"
proof (induction P k t es arbitrary: m rule: chained.induct)
  case (2 P k t e es)
  then show ?case by (cases m) (auto simp: algebra_simps)
qed simp

section \<open>The log of one peer, in memory and on disk\<close>

definition hs_chained :: "'c ancestry \<Rightarrow> 'c hard_state \<Rightarrow> bool" where
  "hs_chained P h \<longleftrightarrow> (case h of (t, v, l, b, bt) \<Rightarrow> -1 \<le> b \<and> chained P b bt l)"

definition logs_ok :: "'c ancestry \<Rightarrow> 'c raft \<Rightarrow> bool" where
  "logs_ok P rf \<longleftrightarrow>
     hs_chained P (hard_state rf) \<and> (\<forall>h. durable (rf_persister rf) = Some h \<longrightarrow> hs_chained P h)"

lemma hs_chained_rf:
  "hs_chained P (hard_state rf) \<longleftrightarrow>
     -1 \<le> lastAppliedIndex rf \<and> chained P (lastAppliedIndex rf) (lastAppliedTerm rf) (Log rf)"
  by (simp add: hs_chained_def hard_state_def)

lemma hs_chained_mono: "hs_chained P h \<Longrightarrow> P \<subseteq>\<^sub>m P' \<Longrightarrow> hs_chained P' h"
  by (auto simp: hs_chained_def intro: chained_mono)

lemma logs_ok_mono: "logs_ok P rf \<Longrightarrow> P \<subseteq>\<^sub>m P' \<Longrightarrow> logs_ok P' rf"
  unfolding logs_ok_def using hs_chained_mono by blast

lemma logs_okD: "logs_ok P rf \<Longrightarrow> hs_chained P (hard_state rf)"
  by (simp add: logs_ok_def)

lemma logs_ok_persist [simp]: "logs_ok P (persist rf) \<longleftrightarrow> hs_chained P (hard_state rf)"
  using synced_persist [of rf] by (auto simp: logs_ok_def synced_def)

lemma logs_ok_cong:
  "Log rf' = Log rf \<Longrightarrow> lastAppliedIndex rf' = lastAppliedIndex rf \<Longrightarrow>
   lastAppliedTerm rf' = lastAppliedTerm rf \<Longrightarrow> rf_persister rf' = rf_persister rf \<Longrightarrow>
   logs_ok P rf' = logs_ok P rf"
  by (simp add: logs_ok_def hs_chained_rf)

lemma logs_ok_updates:
  "logs_ok P rf \<Longrightarrow> logs_ok P (updateCurrentTerm t rf)"
  "logs_ok P rf \<Longrightarrow> logs_ok P (updateVoteFor c rf)"
  by (auto simp: updateCurrentTerm_def updateVoteFor_def hs_chained_rf dest!: logs_okD)

lemma logs_ok_volatile [simp]:
  "logs_ok P (updateElectionTimeout now rnd rf) = logs_ok P rf"
  "logs_ok P (beLeaer rf) = logs_ok P rf"
  "logs_ok P (rf\<lparr>leaderId := l\<rparr>) = logs_ok P rf"
  "logs_ok P (rf\<lparr>currentTerm := ct\<rparr>) = logs_ok P rf"
  "logs_ok P (rf\<lparr>commitIndex := ci\<rparr>) = logs_ok P rf"
  "logs_ok P (rf\<lparr>nextIndex := ni\<rparr>) = logs_ok P rf"
  "logs_ok P (rf\<lparr>matchIndex := mi\<rparr>) = logs_ok P rf"
  "logs_ok P (rf\<lparr>lastApplied := la\<rparr>) = logs_ok P rf"
  "logs_ok P (rf\<lparr>sender := sn\<rparr>) = logs_ok P rf"
  by (rule logs_ok_cong; simp)+

lemma logs_ok_follow_leader: "logs_ok P rf \<Longrightarrow> logs_ok P (follow_leader t l rf)"
  by (auto simp: follow_leader_def Let_def logs_ok_updates)

lemma end_term_at:
  "0 \<le> m \<Longrightarrow> m \<le> int (length (Log rf)) \<Longrightarrow>
   term_at rf (lastAppliedIndex rf + m) = Some (end_term (lastAppliedTerm rf) (take (nat m) (Log rf)))"
proof (cases "m = 0")
  case False
  assume m: "0 \<le> m" "m \<le> int (length (Log rf))"
  then have k: "nat m - 1 < length (Log rf)" "nat (m - 1) = nat m - 1" "nat m = Suc (nat m - 1)"
    using False by auto
  have "take (nat m) (Log rf) = take (nat m - 1) (Log rf) @ [Log rf ! (nat m - 1)]"
    using k(1,3) by (metis take_Suc_conv_app_nth)
  then show ?thesis
    using m False k(2) by (simp add: term_at_inner lastLogIndex_def)
qed (simp add: term_at_def)

lemma chained_suffix:
  assumes "hs_chained P (hard_state rf)" and "lastAppliedIndex rf \<le> b" and "b \<le> lastLogIndex rf"
    and "term_at rf b = Some bt"
  shows "chained P b bt (drop (nat (b - lastAppliedIndex rf)) (Log rf))"
proof -
  let ?m = "b - lastAppliedIndex rf"
  have "end_term (lastAppliedTerm rf) (take (nat ?m) (Log rf)) = bt"
    using end_term_at [of ?m rf] assms(2-4) by (simp add: lastLogIndex_def)
  then show ?thesis
    using chained_drop [of P "lastAppliedIndex rf" "lastAppliedTerm rf" "Log rf" "nat ?m"] assms(1-3)
    by (simp add: hs_chained_rf lastLogIndex_def)
qed

text \<open>What the path says of an entry: its predecessor's term and its command.\<close>

lemma log_at_ancestry:
  assumes "hs_chained P (hard_state rf)" and "log_at rf k = Some e"
  shows "\<exists>pt. term_at rf (k - 1) = Some pt \<and> P (k, Term e) = Some (pt, Command e)"
proof -
  obtain m where m: "m < length (Log rf)" "e = Log rf ! m" "k = lastAppliedIndex rf + 1 + int m"
    using assms(2) by (force simp: log_at_def lastLogIndex_def nat_less_iff split: if_splits)
  have "term_at rf (lastAppliedIndex rf + int m) = Some (end_term (lastAppliedTerm rf) (take m (Log rf)))"
    using end_term_at [of "int m" rf] m(1) by simp
  moreover have "k - 1 = lastAppliedIndex rf + int m" using m(3) by simp
  ultimately show ?thesis
    using chained_nth [OF _ m(1), of P "lastAppliedIndex rf" "lastAppliedTerm rf"] assms(1) m(2,3)
    by (auto simp: hs_chained_rf)
qed

text \<open>Two peers whose logs are paths of the same map.\<close>

lemma chained_match:
  assumes ch: "hs_chained P (hard_state rf)" "hs_chained P (hard_state rf')"
    and t: "term_at rf k = Some t" "term_at rf' k = Some t"
    and e: "log_at rf k' = Some e" "log_at rf' k' = Some e'" and le: "k' \<le> k"
  shows "e = e'"
proof -
  have "\<exists>u. term_at rf i = Some u \<and> term_at rf' i = Some u" if "k' \<le> i" "i \<le> k" for i
    using that(2,1)
  proof (induction i rule: int_le_induct)
    case base
    then show ?case using t by blast
  next
    case (step i)
    then obtain u where u: "term_at rf i = Some u" "term_at rf' i = Some u" by auto
    have in_rf: "lastAppliedIndex rf < i" "i \<le> lastLogIndex rf" "lastAppliedIndex rf' < i" "i \<le> lastLogIndex rf'"
      using step.prems step.hyps e u by (auto simp: log_at_def term_at_def lastLogIndex_def split: if_splits)
    then obtain x y where x: "log_at rf i = Some x" "log_at rf' i = Some y" by (auto simp: log_at_def)
    then have "Term x = u" "Term y = u" using u in_rf by (auto simp: term_at_def)
    then show ?case
      using log_at_ancestry [OF ch(1) x(1)] log_at_ancestry [OF ch(2) x(2)] by auto
  qed
  then obtain u where u: "term_at rf k' = Some u" "term_at rf' k' = Some u" using le by blast
  have "Term e = u" "Term e' = u"
    using u e by (auto simp: term_at_def log_at_def split: if_splits)
  then have "P (k', u) = Some (x, Command e) \<Longrightarrow> P (k', u) = Some (y, Command e') \<Longrightarrow> e = e'" for x y
    by simp
  then show ?thesis
    using log_at_ancestry [OF ch(1) e(1)] log_at_ancestry [OF ch(2) e(2)] \<open>Term e = u\<close> \<open>Term e' = u\<close>
    by auto
qed

section \<open>The invariant of the cluster\<close>

fun msg_chained :: "'c ancestry \<Rightarrow> 'c msg \<Rightarrow> bool" where
  "msg_chained P (AEReq i j args) \<longleftrightarrow>
     i \<noteq> j \<and> chained P (aea_PrevLogIndex args) (aea_PrevLogTerm args) (aea_Entries args)"
| "msg_chained P (ISReq i j args) \<longleftrightarrow> i \<noteq> j \<and> -1 \<le> isa_LastIncludedIndex args"
| "msg_chained P _ \<longleftrightarrow> True"

text \<open>A leader's log has every entry of its term, unless it is in its snapshot.\<close>

definition node_log_ok :: "'c ancestry \<Rightarrow> nat \<Rightarrow> 'c node \<Rightarrow> bool" where
  "node_log_ok P i nd \<longleftrightarrow>
     logs_ok P (nd_rf nd) \<and> nd_wk nd i = WIdle \<and>
     (\<forall>el. nd_el nd = Some el \<longrightarrow> 1 \<le> el_currentTerm el) \<and>
     (leaderId (nd_rf nd) = int i \<longrightarrow>
        (\<forall>k. P (k, currentTerm (nd_rf nd)) \<noteq> None \<longrightarrow> k \<le> lastLogIndex (nd_rf nd) \<and>
           (lastAppliedIndex (nd_rf nd) < k \<longrightarrow> term_at (nd_rf nd) k = Some (currentTerm (nd_rf nd)))))"

text \<open>Entries have term 0 (the entry every log starts with) or the term of an election won.\<close>

definition log_inv :: "nat \<Rightarrow> 'c ancestry \<Rightarrow> 'c cluster \<Rightarrow> bool" where
  "log_inv n P s \<longleftrightarrow>
     (\<forall>i<n. node_log_ok P i (nodes s i) \<and> 0 \<le> currentTerm (rf_of s i)) \<and>
     (\<forall>m \<in> net s. msg_chained P m) \<and>
     (\<forall>k t. P (k, t) \<noteq> None \<longrightarrow> t = 0 \<or> (\<exists>l Q. (t, l, Q) \<in> h_wins s))"

lemma log_invD:
  assumes "log_inv n P s"
  shows "i < n \<Longrightarrow> node_log_ok P i (nodes s i)" and "i < n \<Longrightarrow> 0 \<le> currentTerm (rf_of s i)"
    and "m \<in> net s \<Longrightarrow> msg_chained P m"
    and "P (k, t) \<noteq> None \<Longrightarrow> t = 0 \<or> (\<exists>l Q. (t, l, Q) \<in> h_wins s)"
  using assms unfolding log_inv_def by blast+

lemma msg_chained_mono: "msg_chained P m \<Longrightarrow> P \<subseteq>\<^sub>m P' \<Longrightarrow> msg_chained P' m"
  by (cases m) (auto intro: chained_mono)

lemma vote_step_terms: "(vote_step n)\<^sup>*\<^sup>* a b \<Longrightarrow> v_term a i \<le> v_term b i"
proof (induction rule: rtranclp_induct)
  case (step b c)
  from step(2) have "v_term b i \<le> v_term c i" by (induction rule: vote_step.induct) auto
  with step show ?case by simp
qed simp

lemma refines_terms: "refines n s s' \<Longrightarrow> currentTerm (rf_of s i) \<le> currentTerm (rf_of s' i)"
  using vote_step_terms [of n "abs_votes s" "abs_votes s'" i] by (simp add: refines_def abs_votes_def)

text \<open>A step of one node that adds no entry.\<close>

lemma log_inv_local:
  assumes inv: "log_inv n P s" and r: "refines n s s'"
    and other: "\<And>k. k \<noteq> i \<Longrightarrow> nodes s' k = nodes s k" and W: "h_wins s \<subseteq> h_wins s'"
    and node: "node_log_ok P i (nodes s' i)"
    and msgs: "\<And>m. m \<in> net s' \<Longrightarrow> m \<in> net s \<or> msg_chained P m"
  shows "log_inv n P s'"
  unfolding log_inv_def
proof (intro conjI allI impI ballI)
  fix k assume k: "k < n"
  show "node_log_ok P k (nodes s' k)"
    using node other [of k] log_invD(1) [OF inv k] by (cases "k = i") auto
  show "0 \<le> currentTerm (rf_of s' k)"
    using refines_terms [OF r, of k] log_invD(2) [OF inv k] by simp
next
  fix m assume "m \<in> net s'"
  then show "msg_chained P m" using msgs log_invD(3) [OF inv] by blast
next
  fix k t assume "P (k, t) \<noteq> None"
  then show "t = 0 \<or> (\<exists>l Q. (t, l, Q) \<in> h_wins s')" using log_invD(4) [OF inv] W by blast
qed

text \<open>What a step does to its peer: the logs stay paths, and a peer that leads afterwards led
  before, in the same term, and still has the entries it had or has compacted them.\<close>

definition rf_keeps :: "'c ancestry \<Rightarrow> nat \<Rightarrow> 'c raft \<Rightarrow> 'c raft \<Rightarrow> bool" where
  "rf_keeps P i rf rf' \<longleftrightarrow>
     logs_ok P rf' \<and>
     (leaderId rf' = int i \<longrightarrow> leaderId rf = int i \<and> currentTerm rf' = currentTerm rf \<and>
        lastLogIndex rf \<le> lastLogIndex rf' \<and> lastAppliedIndex rf \<le> lastAppliedIndex rf' \<and>
        (\<forall>k. lastAppliedIndex rf' < k \<and> k \<le> lastLogIndex rf \<longrightarrow> term_at rf' k = term_at rf k))"

lemma rf_keeps_refl: "logs_ok P rf \<Longrightarrow> rf_keeps P i rf rf"
  by (simp add: rf_keeps_def)

lemma rf_keeps_quiet:
  assumes "logs_ok P rf'" and "Log rf' = Log rf" and "lastAppliedIndex rf' = lastAppliedIndex rf"
    and "leaderId rf' = int i \<Longrightarrow> leaderId rf = int i \<and> currentTerm rf' = currentTerm rf"
  shows "rf_keeps P i rf rf'"
proof -
  have "log_at rf' = log_at rf" using assms(2,3) by (rule log_at_cong)
  then have "term_at rf' k = term_at rf k" if "lastAppliedIndex rf' < k" for k
    using that assms(3) by (simp add: term_at_def)
  then show ?thesis using assms by (auto simp: rf_keeps_def lastLogIndex_def)
qed

lemma node_log_ok_set:
  assumes "node_log_ok P i nd" and "rf_keeps P i (nd_rf nd) (nd_rf nd')" and "nd_wk nd' i = WIdle"
    and "\<And>el. nd_el nd' = Some el \<Longrightarrow> 1 \<le> el_currentTerm el"
  shows "node_log_ok P i nd'"
proof -
  have "k \<le> lastLogIndex (nd_rf nd') \<and>
      (lastAppliedIndex (nd_rf nd') < k \<longrightarrow> term_at (nd_rf nd') k = Some (currentTerm (nd_rf nd')))"
    if lead: "leaderId (nd_rf nd') = int i" and k: "P (k, currentTerm (nd_rf nd')) \<noteq> None" for k
  proof -
    have old: "leaderId (nd_rf nd) = int i" "currentTerm (nd_rf nd') = currentTerm (nd_rf nd)"
      "lastLogIndex (nd_rf nd) \<le> lastLogIndex (nd_rf nd')" "lastAppliedIndex (nd_rf nd) \<le> lastAppliedIndex (nd_rf nd')"
      "lastAppliedIndex (nd_rf nd') < k \<Longrightarrow> k \<le> lastLogIndex (nd_rf nd) \<Longrightarrow> term_at (nd_rf nd') k = term_at (nd_rf nd) k"
      using assms(2) lead by (auto simp: rf_keeps_def)
    have "P (k, currentTerm (nd_rf nd)) \<noteq> None" using k old(2) by simp
    then have "k \<le> lastLogIndex (nd_rf nd)"
      "lastAppliedIndex (nd_rf nd) < k \<Longrightarrow> term_at (nd_rf nd) k = Some (currentTerm (nd_rf nd))"
      using assms(1) old(1) unfolding node_log_ok_def by blast+
    then show ?thesis using old by auto
  qed
  then show ?thesis using assms(2-4) unfolding node_log_ok_def rf_keeps_def by blast
qed

section \<open>Every operation keeps the logs\<close>

lemma keeps_startElection_begin:
  "logs_ok P rf \<Longrightarrow> startElection_begin rf = (rf', el) \<Longrightarrow> rf_keeps P i rf rf'"
  by (auto simp: rf_keeps_def startElection_begin_def Let_def logs_ok_updates)

lemma keeps_RequestVote:
  "logs_ok P rf \<Longrightarrow> RequestVote now rnd args rf = (rf', rep) \<Longrightarrow> rf_keeps P i rf rf'"
  by (rule rf_keeps_quiet)
    (auto simp: RequestVote_def Let_def logs_ok_updates split: if_splits prod.splits)

lemma keeps_electionSender_reply:
  assumes "logs_ok P rf" and "electionSender_reply ok rep rf el = (rf', el')"
    and "currentTerm rf < currentTerm rf' \<Longrightarrow> leaderId rf \<noteq> int i"
  shows "rf_keeps P i rf rf'"
proof (rule rf_keeps_quiet)
  show "logs_ok P rf'" "Log rf' = Log rf" "lastAppliedIndex rf' = lastAppliedIndex rf"
    using assms(1,2) by (auto simp: electionSender_reply_def Let_def logs_ok_updates split: if_splits)
  show "leaderId rf' = int i \<Longrightarrow> leaderId rf = int i \<and> currentTerm rf' = currentTerm rf"
    using electionSender_reply_fields(1,4) [OF assms(2)] assms(3) by fastforce
qed

lemma keeps_AppendEntries:
  assumes ok: "logs_ok P rf" and r: "AppendEntries now rnd args rf = Inr (rf', rep)"
    and args: "chained P (aea_PrevLogIndex args) (aea_PrevLogTerm args) (aea_Entries args)"
      "aea_LeaderId args \<noteq> int j"
  shows "rf_keeps P j rf rf'"
proof (cases "aea_Term args < currentTerm rf")
  case True
  then show ?thesis using ok r by (auto simp: AppendEntries_branches intro!: rf_keeps_quiet)
next
  case False
  let ?rf1 = "follow_leader (aea_Term args) (aea_LeaderId args) rf"
  have rf1: "logs_ok P ?rf1" "hs_chained P (hard_state ?rf1)"
    using logs_ok_follow_leader [OF ok] by (auto dest: logs_okD)
  have "leaderId rf' \<noteq> int j" using AppendEntries_vote(2) [OF r] False args(2) by simp
  moreover have "logs_ok P rf'"
  proof (cases "aer_Success rep")
    case True
    have prev: "term_at rf (aea_PrevLogIndex args) = Some (aea_PrevLogTerm args)"
      using AppendEntries_success_iff [OF r] True by simp
    then have rng: "lastAppliedIndex rf \<le> aea_PrevLogIndex args" "aea_PrevLogIndex args \<le> lastLogIndex rf"
      by (auto simp: term_at_def log_at_def lastLogIndex_def split: if_splits)
    let ?m = "aea_PrevLogIndex args - lastAppliedIndex rf"
    have "end_term (lastAppliedTerm rf) (take (nat ?m) (Log rf)) = aea_PrevLogTerm args"
      using end_term_at [of ?m rf] prev rng by (simp add: lastLogIndex_def)
    then have "hs_chained P (hard_state (?rf1\<lparr>Log := take (nat ?m) (Log rf) @ aea_Entries args\<rparr>))"
      using rf1(2) rng args(1) by (simp add: hs_chained_rf chained_take lastLogIndex_def min_absorb2)
    then have "logs_ok P (ae_accept args ?rf1)"
      using rf1(1) by (auto simp: ae_accept_def Let_def)
    then show ?thesis using AppendEntries_success_state [OF r True] by simp
  next
    case False
    moreover have "hs_chained P (hard_state (?rf1\<lparr>Log := take m (Log rf)\<rparr>))" for m
      using rf1(2) by (simp add: hs_chained_rf chained_take)
    ultimately show ?thesis
      using r rf1(1) ok by (auto simp: AppendEntries_branches split: if_splits)
  qed
  ultimately show ?thesis by (simp add: rf_keeps_def)
qed

lemma keeps_appendRPCWorker_reply:
  assumes "logs_ok P rf" and "appendRPCWorker_reply j ok args rep rf ar = Inr (rf', ar')"
  shows "rf_keeps P i rf rf'"
proof (rule rf_keeps_quiet)
  show "logs_ok P rf'"
    using assms by (auto simp: appendRPCWorker_reply_def Let_def go_Inr_iffs logs_ok_updates split: if_splits)
  show "leaderId rf' = int i \<Longrightarrow> leaderId rf = int i \<and> currentTerm rf' = currentTerm rf"
    using appendRPCWorker_reply_fields(1-3) [OF assms(2)] by fastforce
qed (use appendRPCWorker_reply_fields [OF assms(2)] in auto)

lemma keeps_InstallSnapshotSender_reply:
  assumes "logs_ok P rf" and "InstallSnapshotSender_reply j ok rep rf ar = Inr (rf', ar')"
  shows "rf_keeps P i rf rf'"
proof (rule rf_keeps_quiet)
  show "logs_ok P rf'"
    using assms by (auto simp: InstallSnapshotSender_reply_def go_Inr_iffs logs_ok_updates split: if_splits)
  show "leaderId rf' = int i \<Longrightarrow> leaderId rf = int i \<and> currentTerm rf' = currentTerm rf"
    using InstallSnapshotSender_reply_fields(1-3) [OF assms(2)] by fastforce
qed (use InstallSnapshotSender_reply_fields [OF assms(2)] in auto)

text \<open>Where the snapshot moves into a log and its end is kept, the snapshot's term is the one
  that the log has there.\<close>

definition suffix_agrees :: "'c raft \<Rightarrow> 'c raft \<Rightarrow> bool" where
  "suffix_agrees rf rf' \<longleftrightarrow>
     (lastAppliedIndex rf < lastAppliedIndex rf' \<and> lastAppliedIndex rf' < lastLogIndex rf \<longrightarrow>
      term_at rf (lastAppliedIndex rf') = Some (lastAppliedTerm rf'))"

lemma keeps_InstallSnapshot:
  assumes ok: "logs_ok P rf" and r: "InstallSnapshot now rnd args rf = Inr (rf', rep, sp)"
    and args: "-1 \<le> isa_LastIncludedIndex args" "isa_LeaderId args \<noteq> int j"
    and agrees: "suffix_agrees rf rf'"
  shows "rf_keeps P j rf rf'"
proof (cases "isa_Term args < currentTerm rf")
  case True
  then show ?thesis using ok r by (auto simp: InstallSnapshot_branches intro!: rf_keeps_quiet)
next
  case False
  let ?rf1 = "follow_leader (isa_Term args) (isa_LeaderId args) rf"
  have rf': "rf' = updateElectionTimeout now rnd (is_accept args ?rf1)"
    using r False by (simp add: InstallSnapshot_branches)
  have rf1: "logs_ok P ?rf1" "hs_chained P (hard_state rf)"
    using logs_ok_follow_leader [OF ok] ok by (auto dest: logs_okD)
  have "hs_chained P (hard_state (is_accept args ?rf1))"
  proof -
    consider "lastLogIndex rf \<le> isa_LastIncludedIndex args"
      | "lastAppliedIndex rf < isa_LastIncludedIndex args" "isa_LastIncludedIndex args < lastLogIndex rf"
      | "isa_LastIncludedIndex args \<le> lastAppliedIndex rf" "isa_LastIncludedIndex args < lastLogIndex rf"
      by linarith
    then show ?thesis
    proof cases
      case 2
      then have "term_at rf (isa_LastIncludedIndex args) = Some (isa_LastIncludedTerm args)"
        using agrees by (simp add: rf' suffix_agrees_def is_accept_def lastLogIndex_def Let_def)
      then show ?thesis
        using chained_suffix [OF rf1(2)] 2 args(1)
        by (simp add: hs_chained_rf is_accept_def lastLogIndex_def Let_def)
    qed (use rf1(2) args(1) in \<open>auto simp: hs_chained_rf is_accept_def lastLogIndex_def Let_def\<close>)
  qed
  then have "logs_ok P rf'" using rf1(1) by (simp add: rf' logs_ok_def)
  then show ?thesis
    using InstallSnapshot_vote(2) [OF r] False args(2) by (simp add: rf_keeps_def)
qed

lemma keeps_doSnapshot:
  assumes ok: "logs_ok P rf" and r: "doSnapshot index snap rf = Inr rf'"
  shows "rf_keeps P i rf rf'"
proof (cases "lastAppliedIndex rf \<le> index")
  case False
  then show ?thesis using ok r by (simp add: doSnapshot_branches rf_keeps_def)
next
  case True
  note f = doSnapshot_fields [OF r True]
  have "hs_chained P (hard_state rf')"
    using chained_suffix [OF logs_okD [OF ok] True f(4,5)] logs_okD [OF ok] True f(1,17)
    by (simp add: hs_chained_rf)
  moreover have "durable (rf_persister rf') = Some (hard_state rf')" using f(14) by (simp add: synced_def)
  ultimately show ?thesis
    using f(1,3,6,8) True doSnapshot_log_at(2) [OF r True] by (simp add: rf_keeps_def logs_ok_def)
qed

lemma keeps_applyLogToRsm:
  "logs_ok P rf \<Longrightarrow> applyLogToRsm index rf = Inr rf' \<Longrightarrow> rf_keeps P i rf rf'"
  using applyLogToRsm_Inr [of index rf rf'] by (auto intro!: rf_keeps_quiet)

lemma keeps_Make:
  assumes ok: "logs_ok P rf" and vs: "vote_synced rf" and i: "int j = m"
  shows "rf_keeps P j rf (Make n m (Copy (rf_persister rf)) now rnd)"
proof -
  let ?rf' = "Make n m (Copy (rf_persister rf)) now rnd"
  obtain h where h: "durable (rf_persister rf) = Some h" using vs by (auto simp: vote_synced_def)
  then have "hard_state ?rf' = h" by (simp add: Make_hard_state)
  then have "logs_ok P ?rf'" using ok h by (simp add: logs_ok_def Make_fields)
  then show ?thesis by (simp add: rf_keeps_def Make_fields)
qed

text \<open>The entries of a request are a path from the entry before them.\<close>

lemma request_chained:
  assumes "logs_ok P rf" and "appendRPCWorker_request j t rf = Inr (Some args)"
  shows "chained P (aea_PrevLogIndex args) (aea_PrevLogTerm args) (aea_Entries args)"
proof -
  have ch: "hs_chained P (hard_state rf)" "-1 \<le> lastAppliedIndex rf"
    using logs_okD [OF assms(1)] by (auto simp: hs_chained_rf)
  note f = appendRPCWorker_request_Some [OF assms(2) ch(2)]
  show ?thesis using chained_suffix [OF ch(1) f(7-9)] f(10) by simp
qed

lemma round_workers:
  assumes "sendAERpcs_begin rf = Inr (ar, ws)" and "(j, b) \<in> set ws"
  shows "int j \<noteq> me rf"
proof -
  have "foldr (\<lambda>i acc. go_bind (go_nth (nextIndex rf) (int i))
      (\<lambda>nxt. go_bind acc (\<lambda>ws. Inr ((i, nxt - 1 < lastAppliedIndex rf) # ws)))) js (Inr []) = Inr us \<Longrightarrow>
      map fst us = js" for js us
    by (induction js arbitrary: us) (auto simp: go_bind_Inr_iff)
  then have "map fst ws = filter (\<lambda>i. int i \<noteq> me rf) [0..<peers rf]"
    using assms(1) by (auto simp: sendAERpcs_begin_def go_bind_Inr_iff)
  then have "j \<in> set (filter (\<lambda>i. int i \<noteq> me rf) [0..<peers rf])"
    using assms(2) by (metis image_eqI fst_conv set_map)
  then show ?thesis by simp
qed

section \<open>Every step keeps the invariant\<close>

lemma log_inv_set:
  assumes inv: "log_inv n P s" and r: "refines n s s'" and i: "i < n"
    and s': "\<And>k. k \<noteq> i \<Longrightarrow> nodes s' k = nodes s k" "h_wins s' = h_wins s"
    and keeps: "logs_ok P (rf_of s i) \<Longrightarrow> rf_keeps P i (rf_of s i) (rf_of s' i)"
    and wk: "nd_wk (nodes s i) i = WIdle \<Longrightarrow> nd_wk (nodes s' i) i = WIdle"
    and el: "\<And>el. nd_el (nodes s' i) = Some el \<Longrightarrow>
      el_currentTerm el = currentTerm (rf_of s i) + 1 \<or>
      (\<exists>el0. nd_el (nodes s i) = Some el0 \<and> el_currentTerm el = el_currentTerm el0)"
    and msgs: "\<And>m. m \<in> net s' \<Longrightarrow> m \<in> net s \<or> msg_chained P m"
  shows "\<exists>P'. log_inv n P' s'"
proof -
  note nd = log_invD(1,2) [OF inv i]
  have "node_log_ok P i (nodes s' i)"
  proof (rule node_log_ok_set [OF nd(1)])
    show "1 \<le> el_currentTerm el" if "nd_el (nodes s' i) = Some el" for el
      using el [OF that] nd by (auto simp: node_log_ok_def)
  qed (use keeps wk nd(1) in \<open>auto simp: node_log_ok_def\<close>)
  then have "log_inv n P s'"
    using s' msgs by (intro log_inv_local [OF inv r, of i]) auto
  then show ?thesis by blast
qed

text \<open>The leader adds an entry: nobody else leads its term, and its log is at the end of what
  the term has.\<close>

lemma log_inv_Start:
  assumes inv: "log_inv n P s" and ok: "cluster_ok n s" and i: "i < n"
    and st: "Start command (rf_of s i) = (rf', ix, t, b)"
  shows "\<exists>P'. log_inv n P' (set_rf i rf' s)"
proof (cases "leaderId (rf_of s i) = me (rf_of s i)")
  case False
  then have "rf' = rf_of s i" using st by (simp add: Start_def)
  then have "set_rf i rf' s = s" by (simp add: set_rf_def set_node_def)
  then show ?thesis using inv by auto
next
  case True
  let ?rf = "rf_of s i"
  let ?T = "currentTerm ?rf" and ?k = "lastLogIndex ?rf + 1"
  let ?x = "end_term (lastAppliedTerm ?rf) (Log ?rf)"
  let ?P = "P((?k, ?T) \<mapsto> (?x, Some command))"
  have me: "leaderId ?rf = int i" "\<exists>Q. (?T, i, Q) \<in> h_wins s"
    using True cluster_okD(2) [OF ok i] by (auto simp: rf_ok_def)
  have nd: "node_log_ok P i (nodes s i)" using log_invD(1) [OF inv i] .
  have "P (?k, ?T) \<noteq> None \<Longrightarrow> ?k \<le> lastLogIndex ?rf"
    using nd me(1) unfolding node_log_ok_def by blast
  then have "P (?k, ?T) = None" by fastforce
  then have le: "P \<subseteq>\<^sub>m ?P" by (auto simp: map_le_def)
  have rf': "rf' = persist (?rf\<lparr>Log := Log ?rf @ [\<lparr>Command = Some command, Term = ?T\<rparr>]\<rparr>)"
    using st True by (auto simp: Start_def Let_def)
  have "hs_chained ?P (hard_state ?rf)"
    using nd le by (auto simp: node_log_ok_def dest!: logs_okD intro: hs_chained_mono)
  then have new: "logs_ok ?P rf'" "lastLogIndex rf' = ?k" "currentTerm rf' = ?T" "leaderId rf' = int i"
    using me(1) by (auto simp: rf' hs_chained_rf lastLogIndex_def)
  have old_terms: "term_at rf' k = term_at ?rf k" if "k \<le> lastLogIndex ?rf" for k
    using that by (auto simp: rf' term_at_def log_at_def lastLogIndex_def nth_append)
  have new_term: "term_at rf' ?k = Some ?T"
    by (simp add: rf' term_at_def log_at_def lastLogIndex_def nth_append)
  have other: "currentTerm (rf_of s j) \<noteq> ?T" if "j < n" "j \<noteq> i" "leaderId (rf_of s j) = int j" for j
    using cluster_okD(2) [OF ok that(1)] that me(2) unique_winner [OF cluster_okD(4) [OF ok]]
    by (auto simp: rf_ok_def abs_votes_def)
  have "node_log_ok ?P j (nodes (set_rf i rf' s) j)" if "j < n" for j
  proof (cases "j = i")
    case True
    have "k \<le> ?k \<and> (lastAppliedIndex rf' < k \<longrightarrow> term_at rf' k = Some ?T)" if "?P (k, ?T) \<noteq> None" for k
    proof (cases "k = ?k")
      case False
      then have "P (k, ?T) \<noteq> None" using that by simp
      then have "k \<le> lastLogIndex ?rf" "lastAppliedIndex ?rf < k \<Longrightarrow> term_at ?rf k = Some ?T"
        using nd me(1) unfolding node_log_ok_def by blast+
      then show ?thesis using old_terms by (simp add: rf')
    next
      case True
      then show ?thesis using new_term by simp
    qed
    then show ?thesis
      using True nd new unfolding node_log_ok_def by (simp add: cluster_updates del: not_None_eq)
  next
    case False
    then show ?thesis
      using log_invD(1) [OF inv that] other [OF that False] le
      by (auto simp: node_log_ok_def cluster_updates intro: logs_ok_mono)
  qed
  moreover have "0 \<le> currentTerm (rf_of (set_rf i rf' s) j)" if "j < n" for j
    using log_invD(2) [OF inv that] new(3) by (auto simp: cluster_updates)
  moreover have "msg_chained ?P m" if "m \<in> net s" for m
    using log_invD(3) [OF inv that] le by (rule msg_chained_mono)
  ultimately have "log_inv n ?P (set_rf i rf' s)"
    using log_invD(4) [OF inv] me(2) unfolding log_inv_def by (auto simp: cluster_updates)
  then show ?thesis by blast
qed

text \<open>A peer takes the lead: nobody has won its term before, so the term has no entries.\<close>

lemma log_inv_ElectionFinish:
  assumes inv: "log_inv n P s" and ok: "cluster_ok n s" and r: "refines n s s'" and i: "i < n"
    and nd: "nodes s i = nd" "nd_el nd = Some el"
    and won: "won = (el_voteCount el > go_quot (int (peers (nd_rf nd))) 2)"
    and fresh: "won \<Longrightarrow> currentTerm (nd_rf nd) = el_currentTerm el"
    and s': "nodes s' = (nodes s)(i := nd\<lparr>nd_rf := startElection_finish now rnd (nd_rf nd) el, nd_el := None\<rparr>)"
      "h_wins s' = (if won then insert (el_currentTerm el, i, nd_voters nd) (h_wins s) else h_wins s)"
      "net s' = net s"
  shows "\<exists>P'. log_inv n P' s'"
proof -
  let ?rf' = "startElection_finish now rnd (nd_rf nd) el"
  have nok: "node_log_ok P i nd" using log_invD(1) [OF inv i] nd(1) by simp
  have fin: "logs_ok P ?rf'" "lastLogIndex ?rf' = lastLogIndex (nd_rf nd)"
      "currentTerm ?rf' = currentTerm (nd_rf nd)" "lastAppliedIndex ?rf' = lastAppliedIndex (nd_rf nd)"
    using nok by (auto simp: node_log_ok_def startElection_finish_def lastLogIndex_def)
  have "term_at ?rf' = term_at (nd_rf nd)"
    by (rule term_at_cong) (simp_all add: startElection_finish_def)
  have none: "P (k, el_currentTerm el) = None" if won for k
  proof (rule ccontr)
    assume "P (k, el_currentTerm el) \<noteq> None"
    moreover have "1 \<le> el_currentTerm el" using nok nd(2) by (simp add: node_log_ok_def)
    ultimately obtain l Q where lQ: "(el_currentTerm el, l, Q) \<in> h_wins s"
      using log_invD(4) [OF inv] by fastforce
    have "vote_inv n (abs_votes s')" using r by (simp add: refines_def cluster_ok_def)
    moreover have "(el_currentTerm el, i, nd_voters nd) \<in> v_wins (abs_votes s')"
      "(el_currentTerm el, l, Q) \<in> v_wins (abs_votes s')"
      using lQ s'(2) that by (auto simp: abs_votes_def)
    ultimately have "l = i" using unique_winner by blast
    then show False using cluster_okD(3) [OF ok i] nd lQ by (auto simp: el_ok_def)
  qed
  have "leaderId (nd_rf nd) = int i" if "\<not> won" "leaderId ?rf' = int i"
    using that won by (auto simp: startElection_finish_def)
  then have "node_log_ok P i (nodes s' i)"
    using nok fin none fresh s'(1) \<open>term_at ?rf' = _\<close> by (cases won) (auto simp: node_log_ok_def)
  then have "log_inv n P s'"
    using s' by (intro log_inv_local [OF inv r, of i]) auto
  then show ?thesis by blast
qed

lemma log_inv_step:
  assumes "cluster_step n s s'" and "cluster_ok n s" and "\<not> h_stale s'" and "log_inv n P s"
    and "\<forall>j<n. suffix_agrees (rf_of s j) (rf_of s' j)"
  shows "\<exists>P'. log_inv n P' s'"
proof -
  have r: "refines n s s'" using cluster_step_refines assms(1-3) by blast
  show ?thesis
    using assms r
  proof (induction rule: cluster_step.induct)
    case (ElectionStart i s nd rf' el)
    then show ?case
      using startElection_begin_fields(4) [OF ElectionStart(5)]
      by (intro log_inv_set [where P = P and i = i]) (auto simp: cluster_updates keeps_startElection_begin)
  next
    case (ElectionSend i j s nd el args)
    then show ?case
      by (intro log_inv_set [where P = P and i = i]) (auto simp: cluster_updates rf_keeps_refl)
  next
    case (ElectionSkip i j s nd el)
    then show ?case
      by (intro log_inv_set [where P = P and i = i]) (auto simp: cluster_updates rf_keeps_refl electionSender_skip_def)
  next
    case (DeliverRequestVote i j args s now rnd rf' rep)
    then show ?case
      by (intro log_inv_set [where P = P and i = j]) (auto simp: cluster_updates keeps_RequestVote)
  next
    case (ElectionReply i j s nd el ok rep rf' el')
    have "leaderId (nd_rf nd) \<noteq> int i" if "currentTerm (nd_rf nd) < currentTerm rf'"
      using that electionSender_reply_fields(3) [OF ElectionReply(7)] ElectionReply(1,3,4)
        cluster_okD(2,3) [OF ElectionReply(8) ElectionReply(1)]
      by (auto simp: rf_ok_def el_ok_def)
    then show ?case
      using ElectionReply electionSender_reply_fields(7) [OF ElectionReply(7)]
      by (intro log_inv_set [where P = P and i = i]) (auto simp: cluster_updates intro: keeps_electionSender_reply)
  next
    case (ElectionFinish i s nd el won fresh now rnd)
    show ?case
      by (rule log_inv_ElectionFinish [OF ElectionFinish(9) ElectionFinish(7) ElectionFinish(11)
          ElectionFinish(1-3) ElectionFinish(5)])
        (use ElectionFinish(6,8) in \<open>auto simp: cluster_updates\<close>)
  next
    case (RoundStart i s nd ar ws)
    have "map_of ws i = None"
      using round_workers [OF RoundStart(5)] cluster_okD(2) [OF RoundStart(6,1)] RoundStart(2)
      by (fastforce simp: map_of_eq_None_iff rf_ok_def)
    then show ?case
      using RoundStart by (intro log_inv_set [where P = P and i = i]) (auto simp: cluster_updates rf_keeps_refl)
  next
    case (AppendSend i j s nd ar aargs)
    have nd: "nd_wk nd i = WIdle" "logs_ok P (nd_rf nd)"
      using log_invD(1) [OF AppendSend(9,1)] AppendSend(3) by (auto simp: node_log_ok_def)
    then have "msg_chained P (AEReq i j aargs)"
      using AppendSend(5) request_chained [OF _ AppendSend(6)] by auto
    then show ?case
      using AppendSend nd by (intro log_inv_set [where P = P and i = i]) (auto simp: cluster_updates rf_keeps_refl)
  next
    case (AppendSkip i j s nd ar)
    then show ?case by (intro log_inv_set [where P = P and i = i]) (auto simp: cluster_updates rf_keeps_refl)
  next
    case (DeliverAppendEntries i j aargs s now rnd rf' arep)
    have "aea_LeaderId aargs = int i" "msg_chained P (AEReq i j aargs)"
      using cluster_okD(1) [OF DeliverAppendEntries(4,1)] log_invD(3) [OF DeliverAppendEntries(6,1)] by auto
    then have "logs_ok P (rf_of s j) \<Longrightarrow> rf_keeps P j (rf_of s j) rf'"
      using keeps_AppendEntries [OF _ DeliverAppendEntries(3)] by auto
    then show ?case
      using DeliverAppendEntries by (intro log_inv_set [where P = P and i = j]) (auto simp: cluster_updates)
  next
    case (AppendReply i j s nd ar aargs ok arep rf' ar')
    then show ?case
      by (intro log_inv_set [where P = P and i = i]) (auto simp: cluster_updates keeps_appendRPCWorker_reply)
  next
    case (InstallSend i j s nd ar iargs)
    have nd: "nd_wk nd i = WIdle" "-1 \<le> lastAppliedIndex (nd_rf nd)"
      using log_invD(1) [OF InstallSend(9,1)] InstallSend(3) by (auto simp: node_log_ok_def logs_ok_def hs_chained_rf)
    then have "msg_chained P (ISReq i j iargs)"
      using InstallSend(5,6) by (auto simp: InstallSnapshotSender_request_def split: if_splits)
    then show ?case
      using InstallSend nd by (intro log_inv_set [where P = P and i = i]) (auto simp: cluster_updates rf_keeps_refl)
  next
    case (InstallSkip i j s nd ar)
    then show ?case by (intro log_inv_set [where P = P and i = i]) (auto simp: cluster_updates rf_keeps_refl)
  next
    case (DeliverInstallSnapshot i j iargs s now rnd rf' irep sp)
    have "isa_LeaderId iargs = int i" "msg_chained P (ISReq i j iargs)"
      using cluster_okD(1) [OF DeliverInstallSnapshot(4,1)] log_invD(3) [OF DeliverInstallSnapshot(6,1)] by auto
    moreover have "suffix_agrees (rf_of s j) rf'"
      using DeliverInstallSnapshot(2,7) by (auto simp: cluster_updates)
    ultimately have "logs_ok P (rf_of s j) \<Longrightarrow> rf_keeps P j (rf_of s j) rf'"
      using keeps_InstallSnapshot [OF _ DeliverInstallSnapshot(3)] by auto
    then show ?case
      using DeliverInstallSnapshot by (intro log_inv_set [where P = P and i = j]) (auto simp: cluster_updates)
  next
    case (InstallReply i j s nd ar ok irep rf' ar')
    then show ?case
      by (intro log_inv_set [where P = P and i = i]) (auto simp: cluster_updates keeps_InstallSnapshotSender_reply)
  next
    case (RoundFinish i s nd ar rf')
    then obtain ci where "rf' = (nd_rf nd)\<lparr>commitIndex := ci\<rparr>"
      using sendAERpcs_finish_fields(1) by blast
    then show ?case
      using RoundFinish by (intro log_inv_set [where P = P and i = i]) (auto simp: cluster_updates intro!: rf_keeps_quiet)
  next
    case (DoSnapshot i index snap s rf')
    then show ?case
      by (intro log_inv_set [where P = P and i = i]) (auto simp: cluster_updates keeps_doSnapshot)
  next
    case (ApplyLog i index s rf')
    then show ?case
      by (intro log_inv_set [where P = P and i = i]) (auto simp: cluster_updates keeps_applyLogToRsm)
  next
    case (StartCommand i command s rf' ix t b)
    then show ?case by (intro log_inv_Start)
  next
    case (Restart i s now rnd)
    have "vote_synced (rf_of s i)" using cluster_okD(2) [OF Restart(2,1)] by (simp add: rf_ok_def)
    then show ?case
      using Restart by (intro log_inv_set [where P = P and i = i]) (auto simp: cluster_updates new_node_def keeps_Make)
  qed
qed

section \<open>Clean runs\<close>

text \<open>Runs from empty disks in which no election ends late and no kept suffix disagrees.\<close>

definition cluster_boot :: "nat \<Rightarrow> 'c cluster \<Rightarrow> bool" where
  "cluster_boot n s \<longleftrightarrow>
     (\<forall>i<n. \<exists>now rnd. nodes s i = new_node n i MakePersister now rnd) \<and>
     net s = {} \<and> h_grants s = {} \<and> h_wins s = {} \<and> \<not> h_stale s \<and> h_restarts s = 0"

definition clean_step :: "nat \<Rightarrow> 'c cluster \<Rightarrow> 'c cluster \<Rightarrow> bool" where
  "clean_step n s s' \<longleftrightarrow>
     cluster_step n s s' \<and> \<not> h_stale s' \<and> (\<forall>j<n. suffix_agrees (rf_of s j) (rf_of s' j))"

definition clean_inv :: "nat \<Rightarrow> 'c cluster \<Rightarrow> bool" where
  "clean_inv n s \<longleftrightarrow> cluster_ok n s \<and> (\<exists>P. log_inv n P s)"

lemma boot_durable: "durable (MakePersister :: 'c raft_persister) = Some boot_state"
  by (simp add: durable_def)

lemma clean_inv_boot:
  fixes s :: "'c cluster"
  assumes boot: "cluster_boot n s"
  shows "clean_inv n s"
proof -
  let ?P = "[(0, 0) \<mapsto> (0, None)] :: 'c ancestry"
  have "cluster_init n s"
    using boot boot_durable unfolding cluster_boot_def cluster_init_def by (metis option.distinct(1))
  then have ok: "cluster_ok n s" by (rule cluster_init_ok)
  have bs: "hs_chained ?P boot_state" by (simp add: hs_chained_def boot_state_def)
  have "node_log_ok ?P i (nodes s i) \<and> 0 \<le> currentTerm (rf_of s i)" if i: "i < n" for i
  proof -
    obtain now rnd where nd: "nodes s i = new_node n i MakePersister now rnd"
      using boot i by (auto simp: cluster_boot_def)
    have hs: "hard_state (Make n (int i) (MakePersister :: 'c raft_persister) now rnd) = boot_state"
      by (simp add: Make_hard_state boot_durable)
    then have "logs_ok ?P (rf_of s i)" using bs by (simp add: logs_ok_def nd new_node_def Make_fields boot_durable)
    then show ?thesis using hs by (auto simp: nd new_node_def node_log_ok_def Make_fields Make_boot)
  qed
  then have "log_inv n ?P s" using boot by (auto simp: log_inv_def cluster_boot_def)
  then show ?thesis using ok by (auto simp: clean_inv_def)
qed

interpretation clean: inductive_invariant "cluster_boot n" "clean_step n" "clean_inv n"
proof unfold_locales
  fix s t :: "'a cluster"
  assume "clean_inv n s" and "clean_step n s t"
  then show "clean_inv n t"
    using cluster_step_refines [of n s t] log_inv_step [of n s t]
    by (auto simp: clean_inv_def clean_step_def refines_def)
qed (rule clean_inv_boot)

section \<open>A run that replicates an entry\<close>

lemma calm_runs_clean:
  assumes "(calm_step n)\<^sup>*\<^sup>* s s'" and "\<not> h_stale s'"
  shows "(clean_step n)\<^sup>*\<^sup>* s s'"
  using assms
proof (induction rule: rtranclp_induct)
  case (step b c)
  then have "clean_step n b c" by (simp add: clean_step_def calm_step_def suffix_agrees_def)
  moreover have "\<not> h_stale b" using step cluster_step_stale by (auto simp: calm_step_def)
  ultimately show ?case using step.IH by simp
qed simp

lemma boot_cluster_boot: "cluster_boot n (boot_cluster n)"
  by (auto simp: cluster_boot_def boot_cluster_def)

lemma boot_logs:
  "Log (rf_of (boot_cluster n) i) = [\<lparr>Command = None, Term = 0\<rparr>]"
  "lastAppliedIndex (rf_of (boot_cluster n) i) = -1" "lastAppliedTerm (rf_of (boot_cluster n) i) = 0"
proof -
  have "hard_state (rf_of (boot_cluster n) i) = boot_state"
    by (simp add: boot_cluster_def new_node_def Make_hard_state boot_durable)
  then show "Log (rf_of (boot_cluster n) i) = [\<lparr>Command = None, Term = 0\<rparr>]"
    "lastAppliedIndex (rf_of (boot_cluster n) i) = -1" "lastAppliedTerm (rf_of (boot_cluster n) i) = 0"
    by (auto simp: hard_state_def boot_state_def)
qed

text \<open>Peer 0 is elected in term 1, takes a command and sends it to peer 1, which appends it.\<close>

lemma first_append:
  obtains s :: "nat cluster" where "reaches (cluster_boot 2) (clean_step 2) s"
    and "log_at (rf_of s 0) 1 = Some \<lparr>Command = Some 7, Term = 1\<rparr>"
    and "term_at (rf_of s 1) 1 = Some 1" and "log_at (rf_of s 1) 1 \<noteq> None"
    and "leads s 0 1" and "lastAppliedIndex (rf_of s 0) = -1"
proof (rule first_leader)
  fix s :: "nat cluster"
  assume s: "(calm_step 2)\<^sup>*\<^sup>* (boot_cluster 2) s" "same_logs (boot_cluster 2) s" "\<not> h_stale s" "leads s 0 1"
    "nd_el (nodes s 0) = None" "nd_ar (nodes s 0) = None" "me (rf_of s 0) = 0" "peers (rf_of s 0) = 2"
    "currentTerm (rf_of s 1) = 1"
    "nextIndex (rf_of s 0) = replicate 2 (int (length (Log (rf_of s 0))) + lastAppliedIndex (rf_of s 0) + 1)"
  have logs: "Log (rf_of s k) = [\<lparr>Command = None, Term = 0\<rparr>]" "lastAppliedIndex (rf_of s k) = -1"
    "lastAppliedTerm (rf_of s k) = 0" for k
    using s(2) by (simp_all add: same_logs_def boot_logs)
  have lead: "leaderId (rf_of s 0) = 0" "currentTerm (rf_of s 0) = 1" "nextIndex (rf_of s 0) = [1, 1]"
    using s(4,7,10) by (auto simp: leads_def GetState_def logs numeral_2_eq_2)
  define e :: "nat entry" where "e = \<lparr>Command = Some 7, Term = 1\<rparr>"
  define rf1 where "rf1 = persist ((rf_of s 0)\<lparr>Log := Log (rf_of s 0) @ [e]\<rparr>)"
  have rf1: "Log rf1 = [\<lparr>Command = None, Term = 0\<rparr>, e]" "lastAppliedIndex rf1 = -1"
    "lastAppliedTerm rf1 = 0" "leaderId rf1 = 0" "me rf1 = 0" "peers rf1 = 2" "currentTerm rf1 = 1"
    "nextIndex rf1 = [1, 1]"
    using s(7,8) lead logs by (simp_all add: rf1_def)
  define sA where "sA = set_rf 0 rf1 s"
  have A: "cluster_step 2 s sA"
    unfolding sA_def
    by (rule StartCommand [where command = 7 and ix = 1 and t = 1 and b = True])
      (use s(7) lead in \<open>simp_all add: Start_def rf1_def e_def logs\<close>)
  define ar :: ae_round where "ar = \<lparr>ar_currentTerm = 1, ar_count = 1, ar_finished = 0\<rparr>"
  define wk :: "nat \<Rightarrow> nat worker_phase" where "wk = (\<lambda>j. case map_of [(1 :: nat, False)] j of None \<Rightarrow> WIdle
                        | Some b \<Rightarrow> if b then WInstall else WAppend)"
  have "sendAERpcs_begin rf1 = Inr (ar, [(1, False)])"
    by (simp add: sendAERpcs_begin_def rf1 ar_def upt_rec go_nth_def)
  define sB where "sB = set_node 0 ((nodes sA 0)\<lparr>nd_ar := Some ar, nd_wk := wk\<rparr>) sA"
  have B: "cluster_step 2 sA sB"
    unfolding sB_def wk_def
    by (rule RoundStart) (use \<open>sendAERpcs_begin rf1 = _\<close> s(5,6) in \<open>simp_all add: sA_def cluster_updates\<close>)
  define args where "args = \<lparr>aea_Term = 1, aea_LeaderId = 0, aea_PrevLogIndex = 0, aea_PrevLogTerm = 0,
    aea_Entries = [e], aea_LeaderCommit = commitIndex rf1\<rparr>"
  have req: "appendRPCWorker_request 1 1 rf1 = Inr (Some args)"
    by (simp add: appendRPCWorker_request_def rf1 args_def go_nth_def go_from_def)
  define sC where "sC = post (AEReq 0 1 args)
    (set_node 0 ((nodes sB 0)\<lparr>nd_wk := (nd_wk (nodes sB 0))(1 := WAppendCall args)\<rparr>) sB)"
  have C: "cluster_step 2 sB sC"
    unfolding sC_def
    by (rule AppendSend [where ar = ar]) (use req in \<open>simp_all add: sB_def sA_def cluster_updates wk_def ar_def\<close>)
  have at0: "term_at (rf_of s 1) 0 = Some 0" by (simp add: term_at_def log_at_def lastLogIndex_def logs)
  then obtain rf2 rep where ae: "AppendEntries 0 0 args (rf_of s 1) = Inr (rf2, rep)" "aer_Success rep"
    using s(9) by (simp add: AppendEntries_branches args_def logs lastLogIndex_def)
  have rf2: "Log rf2 = [\<lparr>Command = None, Term = 0\<rparr>, e]" "lastAppliedIndex rf2 = -1"
    using AppendEntries_success_state [OF ae] by (simp_all add: ae_accept_Log args_def logs)
  define sD where "sD = post (AERep 0 1 args rep) (set_rf 1 rf2 sC)"
  have D: "cluster_step 2 sC sD"
    unfolding sD_def
    by (rule DeliverAppendEntries) (use ae(1) in \<open>simp_all add: sC_def sB_def sA_def cluster_updates\<close>)
  have base: "lastAppliedIndex (rf_of sA k) = lastAppliedIndex (rf_of s k)"
    "lastAppliedIndex (rf_of sB k) = lastAppliedIndex (rf_of sA k)"
    "lastAppliedIndex (rf_of sC k) = lastAppliedIndex (rf_of sB k)"
    "lastAppliedIndex (rf_of sD k) = lastAppliedIndex (rf_of sC k)" for k
    using logs rf1(2) rf2(2) by (simp_all add: sA_def sB_def sC_def sD_def cluster_updates)
  have "calm_step 2 s sA" "calm_step 2 sA sB" "calm_step 2 sB sC" "calm_step 2 sC sD"
    using A B C D base by (simp_all add: calm_step_def)
  then have run: "(calm_step 2)\<^sup>*\<^sup>* (boot_cluster 2) sD"
    by (rule rtranclp.rtrancl_into_rtrancl [OF rtranclp.rtrancl_into_rtrancl
          [OF rtranclp.rtrancl_into_rtrancl [OF rtranclp.rtrancl_into_rtrancl [OF s(1)]]]])
  have "\<not> h_stale sD" using s(3) by (simp add: sD_def sC_def sB_def sA_def cluster_updates)
  then have "reaches (cluster_boot 2) (clean_step 2) sD"
    by (intro reaches_rtranclp [OF calm_runs_clean [OF run]] reaches_init boot_cluster_boot)
  then show thesis
    by (rule that)
      (simp_all add: sD_def sC_def sB_def sA_def cluster_updates term_at_def log_at_def lastLogIndex_def
        leads_def GetState_def rf1 rf2 e_def)
qed

section \<open>Properties\<close>

text \<open>
  C4. Log matching. In every run of the cluster from empty disks, with any message loss, delay,
  repetition and reordering and any crashes and restarts, in which no election ended after its
  peer's term had moved on and no installed snapshot was put before entries that follow another
  term, two logs that have the same term at an index hold the same entries, commands included,
  at every index up to it that both have not compacted.
\<close>

theorem log_matching:
  assumes "reaches (cluster_boot n) (clean_step n) s" and "i < n" and "j < n"
    and "term_at (rf_of s i) k = Some t" and "term_at (rf_of s j) k = Some t" and "k' \<le> k"
    and "log_at (rf_of s i) k' = Some e" and "log_at (rf_of s j) k' = Some e'"
  shows "e = e'"
proof -
  obtain P where "log_inv n P s" using clean.invar_reaches [OF assms(1)] by (auto simp: clean_inv_def)
  then have "logs_ok P (rf_of s i)" "logs_ok P (rf_of s j)"
    using log_invD(1) assms(2,3) by (auto simp: node_log_ok_def)
  then show ?thesis
    using chained_match [OF logs_okD logs_okD assms(4,5,7,8,6)] by blast
qed

theorem log_matching_witness:
  "\<exists>s :: nat cluster. reaches (cluster_boot 2) (clean_step 2) s \<and>
     log_at (rf_of s 0) 1 = Some \<lparr>Command = Some 7, Term = 1\<rparr> \<and> log_at (rf_of s 1) 1 = log_at (rf_of s 0) 1"
proof (rule first_append)
  fix s :: "nat cluster"
  assume s: "reaches (cluster_boot 2) (clean_step 2) s"
    "log_at (rf_of s 0) 1 = Some \<lparr>Command = Some 7, Term = 1\<rparr>" "term_at (rf_of s 1) 1 = Some 1" "log_at (rf_of s 1) 1 \<noteq> None"
  have t: "term_at (rf_of s 0) 1 = Some 1" "term_at (rf_of s 1) 1 = Some 1"
    using s(2) s(3) by (auto simp: term_at_def log_at_def split: if_splits)
  obtain e where e: "log_at (rf_of s 1) 1 = Some e" using s(4) by blast
  have "\<lparr>Command = Some 7, Term = 1\<rparr> = e"
    by (rule log_matching [OF s(1) _ _ t order_refl s(2) e]) simp_all
  with s e show ?thesis by auto
qed

text \<open>
  C37. A leader holds everything of its own term. In every run of the cluster from empty disks in
  which no election ended after its peer's term had moved on and no installed snapshot was put
  before entries that follow another term, an entry of the term that a peer leads, wherever it is
  in the cluster, stands at the same index of the leader's log, unless the leader has compacted
  that index.
\<close>

theorem leader_holds_its_term:
  assumes "reaches (cluster_boot n) (clean_step n) s" and "i < n" and "j < n" and "leads s i t"
    and "log_at (rf_of s j) k = Some e" and "Term e = t" and "lastAppliedIndex (rf_of s i) < k"
  shows "log_at (rf_of s i) k = Some e"
proof -
  obtain P where inv: "log_inv n P s" "cluster_ok n s"
    using clean.invar_reaches [OF assms(1)] by (auto simp: clean_inv_def)
  have nd: "node_log_ok P i (nodes s i)" "node_log_ok P j (nodes s j)" using log_invD(1) [OF inv(1)] assms(2,3) by auto
  have lead: "leaderId (rf_of s i) = int i" "currentTerm (rf_of s i) = t" using leads_iff [OF inv(2) assms(2)] assms(4) by auto
  have "hs_chained P (hard_state (rf_of s j))" using nd(2) by (auto simp: node_log_ok_def dest: logs_okD)
  then obtain pt where e: "P (k, t) = Some (pt, Command e)" using log_at_ancestry [OF _ assms(5)] assms(6) by blast
  then have "P (k, currentTerm (rf_of s i)) \<noteq> None" using lead(2) by simp
  then have "k \<le> lastLogIndex (rf_of s i)" "term_at (rf_of s i) k = Some t"
    using nd(1) lead assms(7) unfolding node_log_ok_def by blast+
  then obtain x where x: "log_at (rf_of s i) k = Some x" "Term x = t"
    using assms(7) by (auto simp: term_at_def)
  have ch: "hs_chained P (hard_state (rf_of s i))" using nd(1) by (auto simp: node_log_ok_def dest: logs_okD)
  have "Command x = Command e" using log_at_ancestry [OF ch x(1)] x(2) e by auto
  then show ?thesis using x assms(6) by simp
qed

theorem leader_holds_its_term_witness:
  "\<exists>(s :: nat cluster) e. reaches (cluster_boot 2) (clean_step 2) s \<and> leads s 0 1 \<and>
     log_at (rf_of s 1) 1 = Some e \<and> Term e = 1 \<and> log_at (rf_of s 0) 1 = Some e"
proof (rule first_append)
  fix s :: "nat cluster"
  assume s: "reaches (cluster_boot 2) (clean_step 2) s" "term_at (rf_of s 1) 1 = Some 1" "log_at (rf_of s 1) 1 \<noteq> None"
    "leads s 0 1" "lastAppliedIndex (rf_of s 0) = -1"
  obtain e where e: "log_at (rf_of s 1) 1 = Some e" using s(3) by blast
  then have "Term e = 1" using s(2) by (auto simp: term_at_def log_at_def split: if_splits)
  have "log_at (rf_of s 0) 1 = Some e"
    by (rule leader_holds_its_term [OF s(1) _ _ s(4) e \<open>Term e = 1\<close>]) (use s(5) in simp_all)
  with s e \<open>Term e = 1\<close> show ?thesis by blast
qed

text \<open>
  The condition on installed snapshots is needed: \<open>InstallSnapshot\<close> never compares the term its
  log has at the snapshot's last index with the snapshot's, and keeps the entries after it in
  either case. They then follow an entry of another term than the one they were appended to.
\<close>

theorem install_keeps_conflicting_suffix:
  assumes "currentTerm rf \<le> isa_Term args" and "lastAppliedIndex rf < isa_LastIncludedIndex args"
    and "isa_LastIncludedIndex args < lastLogIndex rf"
  shows "\<exists>rf' rep sp. InstallSnapshot now rnd args rf = Inr (rf', rep, sp) \<and>
    term_at rf' (isa_LastIncludedIndex args) = Some (isa_LastIncludedTerm args) \<and>
    (\<forall>k > isa_LastIncludedIndex args. log_at rf' k = log_at rf k) \<and>
    (suffix_agrees rf rf' \<longleftrightarrow> term_at rf (isa_LastIncludedIndex args) = Some (isa_LastIncludedTerm args))"
proof -
  let ?rf1 = "follow_leader (isa_Term args) (isa_LeaderId args) rf"
  let ?rf' = "updateElectionTimeout now rnd (is_accept args ?rf1)"
  have f: "lastAppliedIndex ?rf' = isa_LastIncludedIndex args" "lastAppliedTerm ?rf' = isa_LastIncludedTerm args"
    "Log ?rf' = drop (nat (isa_LastIncludedIndex args - lastAppliedIndex rf)) (Log rf)"
    using assms(2,3) by (simp_all add: is_accept_def lastLogIndex_def Let_def)
  have "log_at ?rf' k = log_at rf k" if "isa_LastIncludedIndex args < k" for k
    using drop_log_at [OF f(3,1)] assms(2,3) that by simp
  then show ?thesis
    using assms f by (auto simp: InstallSnapshot_branches suffix_agrees_def term_at_def)
qed

end
