(* ===== verification/Raft_Loss.thy ===== *)
theory Raft_Loss
  imports Raft_Safety
begin

text \<open>
  Runs of the cluster as schedules: a list of actions, each of which is one step of
  \<open>Raft_Cluster\<close>, executed on a view of the cluster that keeps the nodes and the messages as
  lists. Every executed schedule is a run without a restart, so that runs of the code can be
  computed. The schedule at the end loses a committed entry.
\<close>

section \<open>Schedules\<close>

datatype 'c act =
    StartElection nat | AskVote nat nat | HandleVote nat | VoteReply nat nat "nat option"
  | FinishElection nat | Command_at nat 'c | StartRound nat | SendAppend nat nat
  | HandleAppend nat | AppendAnswer nat nat "nat option" | FinishRound nat

record 'c view =
  vw_nodes :: "'c node list"
  vw_net :: "'c msg list"
  vw_stale :: bool

definition vw_set :: "nat \<Rightarrow> 'c node \<Rightarrow> 'c view \<Rightarrow> 'c view" where
  "vw_set i nd v = v\<lparr>vw_nodes := (vw_nodes v)[i := nd]\<rparr>"

definition vw_post :: "'c msg \<Rightarrow> 'c view \<Rightarrow> 'c view" where
  "vw_post m v = v\<lparr>vw_net := vw_net v @ [m]\<rparr>"

definition vw_msg :: "nat \<Rightarrow> 'c view \<Rightarrow> 'c msg option" where
  "vw_msg m v = (if m < length (vw_net v) then Some (vw_net v ! m) else None)"

definition vw_node :: "nat \<Rightarrow> 'c view \<Rightarrow> 'c node option" where
  "vw_node i v = (if i < length (vw_nodes v) then Some (vw_nodes v ! i) else None)"

text \<open>The reply a call sees: none when it failed, else a message of the view, which must answer it.\<close>

fun vote_answer :: "nat \<Rightarrow> nat \<Rightarrow> int \<Rightarrow> nat option \<Rightarrow> 'c view \<Rightarrow> (bool \<times> RequestVoteReply) option" where
  "vote_answer i j T None v = Some (False, \<lparr>rvr_Term = 0, rvr_VoteGranted = False\<rparr>)"
| "vote_answer i j T (Some m) v =
     (case vw_msg m v of
        Some (RVRep i' j' T' rep) \<Rightarrow> if i' = i \<and> j' = j \<and> T' = T then Some (True, rep) else None
      | _ \<Rightarrow> None)"

fun append_answer ::
  "nat \<Rightarrow> nat \<Rightarrow> 'c AppendEntriesArgs \<Rightarrow> nat option \<Rightarrow> 'c view \<Rightarrow> (bool \<times> AppendEntriesReply) option" where
  "append_answer i j args None v = Some (False, \<lparr>aer_Term = 0, aer_Success = False\<rparr>)"
| "append_answer i j args (Some m) v =
     (case vw_msg m v of
        Some (AERep i' j' args' rep) \<Rightarrow> if i' = i \<and> j' = j \<and> args' = args then Some (True, rep) else None
      | _ \<Rightarrow> None)"

fun exec :: "'c act \<Rightarrow> 'c view \<Rightarrow> 'c view option" where
  "exec (StartElection i) v =
     (case vw_node i v of
        Some nd \<Rightarrow>
          (case (nd_el nd, nd_ar nd) of
             (None, None) \<Rightarrow>
               (case startElection_begin (nd_rf nd) of (rf', el) \<Rightarrow>
                  Some (vw_set i (nd\<lparr>nd_rf := rf', nd_el := Some el,
                          nd_pc := (\<lambda>j. if j = i then PcDone else PcSpawned), nd_voters := {i}\<rparr>) v))
           | _ \<Rightarrow> None)
      | None \<Rightarrow> None)"
| "exec (AskVote i j) v =
     (case (vw_node i v, vw_node j v) of
        (Some nd, Some _) \<Rightarrow>
          (case (nd_el nd, nd_pc nd j) of
             (Some el, PcSpawned) \<Rightarrow>
               (case electionSender_request (el_currentTerm el) (nd_rf nd) of
                  Some args \<Rightarrow>
                    Some (vw_post (RVReq i j args) (vw_set i (nd\<lparr>nd_pc := (nd_pc nd)(j := PcCalling)\<rparr>) v))
                | None \<Rightarrow> None)
           | _ \<Rightarrow> None)
      | _ \<Rightarrow> None)"
| "exec (HandleVote m) v =
     (case vw_msg m v of
        Some (RVReq i j args) \<Rightarrow>
          (case vw_node j v of
             Some nd \<Rightarrow>
               (case RequestVote 0 0 args (nd_rf nd) of (rf', rep) \<Rightarrow>
                  Some (vw_post (RVRep i j (rva_Term args) rep) (vw_set j (nd\<lparr>nd_rf := rf'\<rparr>) v)))
           | None \<Rightarrow> None)
      | _ \<Rightarrow> None)"
| "exec (VoteReply i j mo) v =
     (case (vw_node i v, vw_node j v) of
        (Some nd, Some _) \<Rightarrow>
          (case (nd_el nd, nd_pc nd j) of
             (Some el, PcCalling) \<Rightarrow>
               (case vote_answer i j (el_currentTerm el) mo v of
                  Some (ok, rep) \<Rightarrow>
                    (case electionSender_reply ok rep (nd_rf nd) el of (rf', el') \<Rightarrow>
                       Some (vw_set i (nd\<lparr>nd_rf := rf', nd_el := Some el', nd_pc := (nd_pc nd)(j := PcDone),
                               nd_voters := (if el_voteCount el < el_voteCount el'
                                             then insert j (nd_voters nd) else nd_voters nd)\<rparr>) v))
                | None \<Rightarrow> None)
           | _ \<Rightarrow> None)
      | _ \<Rightarrow> None)"
| "exec (FinishElection i) v =
     (case vw_node i v of
        Some nd \<Rightarrow>
          (case nd_el nd of
             Some el \<Rightarrow>
               if startElection_done (nd_rf nd) el
               then let won = (el_voteCount el > go_quot (int (peers (nd_rf nd))) 2);
                        fresh = (currentTerm (nd_rf nd) = el_currentTerm el)
                    in Some ((vw_set i (nd\<lparr>nd_rf := startElection_finish 0 0 (nd_rf nd) el, nd_el := None\<rparr>) v)
                          \<lparr>vw_stale := (vw_stale v \<or> won \<and> \<not> fresh)\<rparr>)
               else None
           | None \<Rightarrow> None)
      | None \<Rightarrow> None)"
| "exec (Command_at i c) v =
     (case vw_node i v of
        Some nd \<Rightarrow> Some (vw_set i (nd\<lparr>nd_rf := fst (Start c (nd_rf nd))\<rparr>) v)
      | None \<Rightarrow> None)"
| "exec (StartRound i) v =
     (case vw_node i v of
        Some nd \<Rightarrow>
          (case (nd_el nd, nd_ar nd, sendAERpcs_begin (nd_rf nd)) of
             (None, None, Inr (ar, ws)) \<Rightarrow>
               Some (vw_set i (nd\<lparr>nd_ar := Some ar,
                  nd_wk := (\<lambda>j. case map_of ws j of None \<Rightarrow> WIdle
                                | Some b \<Rightarrow> if b then WInstall else WAppend)\<rparr>) v)
           | _ \<Rightarrow> None)
      | None \<Rightarrow> None)"
| "exec (SendAppend i j) v =
     (case (vw_node i v, vw_node j v) of
        (Some nd, Some _) \<Rightarrow>
          (case (nd_ar nd, nd_wk nd j) of
             (Some ar, WAppend) \<Rightarrow>
               (case appendRPCWorker_request j (ar_currentTerm ar) (nd_rf nd) of
                  Inr (Some args) \<Rightarrow>
                    Some (vw_post (AEReq i j args)
                            (vw_set i (nd\<lparr>nd_wk := (nd_wk nd)(j := WAppendCall args)\<rparr>) v))
                | _ \<Rightarrow> None)
           | _ \<Rightarrow> None)
      | _ \<Rightarrow> None)"
| "exec (HandleAppend m) v =
     (case vw_msg m v of
        Some (AEReq i j args) \<Rightarrow>
          (case vw_node j v of
             Some nd \<Rightarrow>
               (case AppendEntries 0 0 args (nd_rf nd) of
                  Inr (rf', rep) \<Rightarrow> Some (vw_post (AERep i j args rep) (vw_set j (nd\<lparr>nd_rf := rf'\<rparr>) v))
                | Inl _ \<Rightarrow> None)
           | None \<Rightarrow> None)
      | _ \<Rightarrow> None)"
| "exec (AppendAnswer i j mo) v =
     (case (vw_node i v, vw_node j v) of
        (Some nd, Some _) \<Rightarrow>
          (case (nd_ar nd, nd_wk nd j) of
             (Some ar, WAppendCall args) \<Rightarrow>
               (case append_answer i j args mo v of
                  Some (ok, rep) \<Rightarrow>
                    (case appendRPCWorker_reply j ok args rep (nd_rf nd) ar of
                       Inr (rf', ar') \<Rightarrow>
                         Some (vw_set i (nd\<lparr>nd_rf := rf', nd_ar := Some ar', nd_wk := (nd_wk nd)(j := WIdle)\<rparr>) v)
                     | Inl _ \<Rightarrow> None)
                | None \<Rightarrow> None)
           | _ \<Rightarrow> None)
      | _ \<Rightarrow> None)"
| "exec (FinishRound i) v =
     (case vw_node i v of
        Some nd \<Rightarrow>
          (case nd_ar nd of
             Some ar \<Rightarrow>
               if sendAERpcs_done (nd_rf nd) ar
               then (case sendAERpcs_finish (nd_rf nd) ar of
                       Inr rf' \<Rightarrow> Some (vw_set i (nd\<lparr>nd_rf := rf', nd_ar := None\<rparr>) v)
                     | Inl _ \<Rightarrow> None)
               else None
           | None \<Rightarrow> None)
      | None \<Rightarrow> None)"

fun execs :: "'c act list \<Rightarrow> 'c view \<Rightarrow> 'c view option" where
  "execs [] v = Some v"
| "execs (a # as) v = (case exec a v of None \<Rightarrow> None | Some v' \<Rightarrow> execs as v')"

section \<open>Every schedule is a run\<close>

definition views :: "nat \<Rightarrow> 'c cluster \<Rightarrow> 'c view \<Rightarrow> bool" where
  "views n s v \<longleftrightarrow>
     length (vw_nodes v) = n \<and> (\<forall>i<n. nodes s i = vw_nodes v ! i) \<and> set (vw_net v) \<subseteq> net s \<and>
     h_stale s = vw_stale v \<and> h_restarts s = 0"

lemma viewsD:
  assumes "views n s v"
  shows "vw_node i v = Some nd \<Longrightarrow> i < n \<and> nodes s i = nd" and "vw_msg m v = Some x \<Longrightarrow> x \<in> net s"
  using assms by (auto simp: views_def vw_node_def vw_msg_def subset_eq split: if_splits)

lemma views_set:
  assumes "views n s v" and "vw_node i v = Some nd0"
    and "\<And>k. k \<noteq> i \<Longrightarrow> nodes s' k = nodes s k" and "nodes s' i = nd" and "net s' = net s" and "h_stale s' = h_stale s"
    and "h_restarts s' = h_restarts s"
  shows "views n s' (vw_set i nd v)"
  using assms by (auto simp: views_def vw_set_def vw_node_def nth_list_update split: if_splits)

lemma views_post: "views n s v \<Longrightarrow> views n (post m s) (vw_post m v)"
  by (auto simp: views_def post_def vw_post_def)

lemma views_ghost [simp]: "views n (s\<lparr>h_grants := G\<rparr>) v = views n s v" "views n (s\<lparr>h_wins := W\<rparr>) v = views n s v"
  by (simp_all add: views_def)

lemma views_set_node: "views n s v \<Longrightarrow> vw_node i v = Some nd0 \<Longrightarrow> views n (set_node i nd s) (vw_set i nd v)"
  by (rule views_set) (auto simp: set_node_def)

lemma views_stale:
  "views n s v \<Longrightarrow> views n (s\<lparr>h_wins := W, h_stale := h_stale s0 \<or> b\<rparr>) (v\<lparr>vw_stale := h_stale s0 \<or> b\<rparr>)"
  by (simp add: views_def)

lemma views_h_stale: "views n s v \<Longrightarrow> vw_stale v = h_stale s"
  by (simp add: views_def)

lemma views_set_rf:
  assumes "views n s v" and "vw_node i v = Some nd"
  shows "views n (set_rf i rf s) (vw_set i (nd\<lparr>nd_rf := rf\<rparr>) v)"
  using viewsD(1) [OF assms] views_set_node [OF assms] by (simp add: set_rf_def)

lemma vote_answer_sent:
  assumes "vote_answer i j T mo v = Some (ok, rep)" and "views n s v"
  shows "ok \<longrightarrow> RVRep i j T rep \<in> net s"
  using assms viewsD(2) [OF assms(2)]
  by (cases mo) (auto split: option.splits msg.splits if_splits)

lemma append_answer_sent:
  assumes "append_answer i j args mo v = Some (ok, rep)" and "views n s v"
  shows "ok \<longrightarrow> AERep i j args rep \<in> net s"
  using assms viewsD(2) [OF assms(2)]
  by (cases mo) (auto split: option.splits msg.splits if_splits)

lemmas view_intros = views_post views_set_node views_set_rf

lemma exec_sound:
  assumes e: "exec a v = Some v'" and vs: "views n s v"
  shows "\<exists>s'. cluster_step n s s' \<and> views n s' v'"
proof (cases a)
  case (StartElection i)
  then obtain nd rf' el where h: "vw_node i v = Some nd" "nd_el nd = None" "nd_ar nd = None"
    "startElection_begin (nd_rf nd) = (rf', el)"
    and v': "v' = vw_set i (nd\<lparr>nd_rf := rf', nd_el := Some el,
      nd_pc := (\<lambda>j. if j = i then PcDone else PcSpawned), nd_voters := {i}\<rparr>) v"
    using e by (auto split: option.splits prod.splits)
  show ?thesis
    unfolding v'
    by (intro exI conjI, rule ElectionStart [OF _ _ h(2-4)])
      (use viewsD(1) [OF vs h(1)] vs h(1) in \<open>auto intro: view_intros\<close>)
next
  case (AskVote i j)
  then obtain nd ndj el args where h: "vw_node i v = Some nd" "vw_node j v = Some ndj" "nd_el nd = Some el"
    "nd_pc nd j = PcSpawned" "electionSender_request (el_currentTerm el) (nd_rf nd) = Some args"
    and v': "v' = vw_post (RVReq i j args) (vw_set i (nd\<lparr>nd_pc := (nd_pc nd)(j := PcCalling)\<rparr>) v)"
    using e by (auto split: option.splits prod.splits call_phase.splits)
  show ?thesis
    unfolding v'
    by (intro exI conjI, rule ElectionSend [OF _ _ _ h(3-5)])
      (use viewsD(1) [OF vs h(1)] viewsD(1) [OF vs h(2)] vs h(1) in \<open>auto intro: view_intros\<close>)
next
  case (HandleVote m)
  then obtain i j args nd rf' rep where h: "vw_msg m v = Some (RVReq i j args)" "vw_node j v = Some nd"
    "RequestVote 0 0 args (nd_rf nd) = (rf', rep)"
    and v': "v' = vw_post (RVRep i j (rva_Term args) rep) (vw_set j (nd\<lparr>nd_rf := rf'\<rparr>) v)"
    using e by (auto split: option.splits msg.splits prod.splits)
  show ?thesis
    unfolding v'
    by (intro exI conjI, rule DeliverRequestVote [OF viewsD(2) [OF vs h(1)], of n 0 0 rf' rep])
      (use viewsD(1) [OF vs h(2)] vs h(2,3) in \<open>auto intro: view_intros\<close>)
next
  case (VoteReply i j mo)
  then obtain nd ndj el ok rep rf' el' where h: "vw_node i v = Some nd" "vw_node j v = Some ndj"
    "nd_el nd = Some el" "nd_pc nd j = PcCalling" "vote_answer i j (el_currentTerm el) mo v = Some (ok, rep)"
    "electionSender_reply ok rep (nd_rf nd) el = (rf', el')"
    and v': "v' = vw_set i (nd\<lparr>nd_rf := rf', nd_el := Some el', nd_pc := (nd_pc nd)(j := PcDone),
      nd_voters := (if el_voteCount el < el_voteCount el' then insert j (nd_voters nd) else nd_voters nd)\<rparr>) v"
    using e by (auto split: option.splits prod.splits call_phase.splits)
  show ?thesis
    unfolding v'
    by (intro exI conjI, rule ElectionReply [OF _ _ _ h(3,4) vote_answer_sent [OF h(5) vs] h(6)])
      (use viewsD(1) [OF vs h(1)] viewsD(1) [OF vs h(2)] views_set_node [OF vs h(1)] in auto)
next
  case (FinishElection i)
  then obtain nd el where h: "vw_node i v = Some nd" "nd_el nd = Some el" "startElection_done (nd_rf nd) el"
    and v': "v' = (vw_set i (nd\<lparr>nd_rf := startElection_finish 0 0 (nd_rf nd) el, nd_el := None\<rparr>) v)
      \<lparr>vw_stale := (h_stale s \<or> el_voteCount el > go_quot (int (peers (nd_rf nd))) 2 \<and>
         currentTerm (nd_rf nd) \<noteq> el_currentTerm el)\<rparr>"
    using e views_h_stale [OF vs] by (auto simp: Let_def split: option.splits if_splits)
  note at = viewsD(1) [OF vs h(1)]
  show ?thesis
    unfolding v'
    by (intro exI conjI, rule ElectionFinish [OF conjunct1 [OF at] conjunct2 [OF at] h(2,3) refl refl],
        rule views_stale, rule views_set_node [OF vs h(1)])
next
  case (Command_at i c)
  then obtain nd where h: "vw_node i v = Some nd" and v': "v' = vw_set i (nd\<lparr>nd_rf := fst (Start c (nd_rf nd))\<rparr>) v"
    using e by (auto split: option.splits)
  obtain rf' ix t b where st: "Start c (nd_rf nd) = (rf', ix, t, b)" by (metis prod_cases4)
  show ?thesis
    unfolding v' st fst_conv
    by (intro exI conjI, rule StartCommand [of i n c s rf' ix t b])
      (use viewsD(1) [OF vs h] vs h st in \<open>auto intro: view_intros\<close>)
next
  case (StartRound i)
  then obtain nd ar ws where h: "vw_node i v = Some nd" "nd_el nd = None" "nd_ar nd = None"
    "sendAERpcs_begin (nd_rf nd) = Inr (ar, ws)"
    and v': "v' = vw_set i (nd\<lparr>nd_ar := Some ar, nd_wk := (\<lambda>j. case map_of ws j of None \<Rightarrow> WIdle
        | Some b \<Rightarrow> if b then WInstall else WAppend)\<rparr>) v"
    using e by (auto split: option.splits prod.splits sum.splits)
  show ?thesis
    unfolding v'
    by (intro exI conjI, rule RoundStart [OF _ _ h(2-4)])
      (use viewsD(1) [OF vs h(1)] vs h(1) in \<open>auto intro: view_intros\<close>)
next
  case (SendAppend i j)
  then obtain nd ndj ar args where h: "vw_node i v = Some nd" "vw_node j v = Some ndj" "nd_ar nd = Some ar"
    "nd_wk nd j = WAppend" "appendRPCWorker_request j (ar_currentTerm ar) (nd_rf nd) = Inr (Some args)"
    and v': "v' = vw_post (AEReq i j args) (vw_set i (nd\<lparr>nd_wk := (nd_wk nd)(j := WAppendCall args)\<rparr>) v)"
    using e by (auto split: option.splits prod.splits sum.splits worker_phase.splits)
  show ?thesis
    unfolding v'
    by (intro exI conjI, rule AppendSend [OF _ _ _ h(3-5)])
      (use viewsD(1) [OF vs h(1)] viewsD(1) [OF vs h(2)] vs h(1) in \<open>auto intro: view_intros\<close>)
next
  case (HandleAppend m)
  then obtain i j args nd rf' rep where h: "vw_msg m v = Some (AEReq i j args)" "vw_node j v = Some nd"
    "AppendEntries 0 0 args (nd_rf nd) = Inr (rf', rep)"
    and v': "v' = vw_post (AERep i j args rep) (vw_set j (nd\<lparr>nd_rf := rf'\<rparr>) v)"
    using e by (auto split: option.splits msg.splits prod.splits sum.splits)
  show ?thesis
    unfolding v'
    by (intro exI conjI, rule DeliverAppendEntries [OF viewsD(2) [OF vs h(1)], of n 0 0 rf' rep])
      (use viewsD(1) [OF vs h(2)] vs h(2,3) in \<open>auto intro: view_intros\<close>)
next
  case (AppendAnswer i j mo)
  then obtain nd ndj ar args ok rep rf' ar' where h: "vw_node i v = Some nd" "vw_node j v = Some ndj"
    "nd_ar nd = Some ar" "nd_wk nd j = WAppendCall args" "append_answer i j args mo v = Some (ok, rep)"
    "appendRPCWorker_reply j ok args rep (nd_rf nd) ar = Inr (rf', ar')"
    and v': "v' = vw_set i (nd\<lparr>nd_rf := rf', nd_ar := Some ar', nd_wk := (nd_wk nd)(j := WIdle)\<rparr>) v"
    using e by (auto split: option.splits prod.splits sum.splits worker_phase.splits)
  show ?thesis
    unfolding v'
    by (intro exI conjI, rule AppendReply [OF _ _ _ h(3,4) append_answer_sent [OF h(5) vs] h(6)])
      (use viewsD(1) [OF vs h(1)] viewsD(1) [OF vs h(2)] vs h(1) in \<open>auto intro: view_intros\<close>)
next
  case (FinishRound i)
  then obtain nd ar rf' where h: "vw_node i v = Some nd" "nd_ar nd = Some ar" "sendAERpcs_done (nd_rf nd) ar"
    "sendAERpcs_finish (nd_rf nd) ar = Inr rf'"
    and v': "v' = vw_set i (nd\<lparr>nd_rf := rf', nd_ar := None\<rparr>) v"
    using e by (auto split: option.splits sum.splits if_splits)
  show ?thesis
    unfolding v'
    by (intro exI conjI, rule RoundFinish [OF _ _ h(2-4)])
      (use viewsD(1) [OF vs h(1)] vs h(1) in \<open>auto intro: view_intros\<close>)
qed

lemma execs_sound:
  "execs as v = Some v' \<Longrightarrow> views n s v \<Longrightarrow> \<exists>s'. (cluster_step n)\<^sup>*\<^sup>* s s' \<and> views n s' v'"
proof (induction as v arbitrary: s rule: execs.induct)
  case (2 a as v)
  then obtain v1 where v1: "exec a v = Some v1" "execs as v1 = Some v'" by (auto split: option.splits)
  obtain s1 where s1: "cluster_step n s s1" "views n s1 v1" using exec_sound [OF v1(1) "2.prems"(2)] by blast
  show ?case using "2.IH" [OF v1 s1(2)] s1(1) by (meson converse_rtranclp_into_rtranclp)
qed auto

definition boot_view :: "nat \<Rightarrow> nat view" where
  "boot_view n = \<lparr>vw_nodes = map (\<lambda>i. new_node n i MakePersister 0 0) [0..<n], vw_net = [], vw_stale = False\<rparr>"

lemma boot_views: "views n (boot_cluster n) (boot_view n)"
  by (simp add: views_def boot_view_def boot_cluster_def)

lemma views_rf: "views n s v \<Longrightarrow> i < n \<Longrightarrow> rf_of s i = nd_rf (vw_nodes v ! i)"
  by (simp add: views_def)

section \<open>A schedule that loses a committed entry\<close>

text \<open>
  Peer 0 leads term 1 with the vote of peer 1. The append of its first command to peer 1 is slow
  and times out; the next one carries both commands, is acknowledged by peer 1, and with it
  peer 0 commits index 2. Then the slow append arrives and cuts the second command off the log
  of peer 1.
\<close>

definition commit_schedule :: "nat act list" where
  "commit_schedule =
     [StartElection 0, AskVote 0 1, HandleVote 0, VoteReply 0 1 (Some 1), AskVote 0 2, VoteReply 0 2 None,
      FinishElection 0, Command_at 0 7, StartRound 0, SendAppend 0 1, AppendAnswer 0 1 None, SendAppend 0 2,
      AppendAnswer 0 2 None, FinishRound 0, Command_at 0 8, StartRound 0, SendAppend 0 1, HandleAppend 5,
      AppendAnswer 0 1 (Some 6), SendAppend 0 2, AppendAnswer 0 2 None, FinishRound 0]"

text \<open>The slow append, message number 3.\<close>

definition slow_append :: "nat AppendEntriesArgs" where
  "slow_append = \<lparr>aea_Term = 1, aea_LeaderId = 0, aea_PrevLogIndex = 0, aea_PrevLogTerm = 0,
     aea_Entries = [\<lparr>Command = Some 7, Term = 1\<rparr>], aea_LeaderCommit = - 1\<rparr>"

text \<open>
  Peer 1 is elected by peer 2 in term 2, takes another command at index 2, brings peer 2 up to
  date in its second round, and commits.
\<close>

definition overwrite_schedule :: "nat act list" where
  "overwrite_schedule =
     [StartElection 1, AskVote 1 2, HandleVote 9, VoteReply 1 2 (Some 10), AskVote 1 0, VoteReply 1 0 None,
      FinishElection 1, Command_at 1 9, StartRound 1, SendAppend 1 2, HandleAppend 12, AppendAnswer 1 2 (Some 13),
      SendAppend 1 0, AppendAnswer 1 0 None, FinishRound 1, StartRound 1, SendAppend 1 2, HandleAppend 15,
      AppendAnswer 1 2 (Some 16), SendAppend 1 0, AppendAnswer 1 0 None, FinishRound 1]"

text \<open>What both leaders hand to their services when they apply up to their commit index.\<close>

definition delivers :: "'c raft \<Rightarrow> int \<Rightarrow> 'c option \<Rightarrow> bool" where
  "delivers rf i c \<longleftrightarrow>
     (case applyLogToRsm (commitIndex rf) rf of
        Inr rf' \<Rightarrow> list_ex (\<lambda>m. m = command_msg i c) (sender rf')
      | Inl _ \<Rightarrow> False)"

text \<open>The committed entry, and its index in the logs of the two peers that make the majority.\<close>

definition committed_by_two :: "nat raft \<Rightarrow> nat raft \<Rightarrow> bool" where
  "committed_by_two rf0 rf1 \<longleftrightarrow>
     GetState rf0 = (1, True) \<and> commitIndex rf0 = 2 \<and>
     log_at rf0 2 = Some \<lparr>Command = Some 8, Term = 1\<rparr> \<and> log_at rf1 2 = Some \<lparr>Command = Some 8, Term = 1\<rparr> \<and>
     log_at rf1 1 = Some \<lparr>Command = Some 7, Term = 1\<rparr>"

definition cuts :: "nat AppendEntriesArgs \<Rightarrow> nat raft \<Rightarrow> bool" where
  "cuts args rf \<longleftrightarrow>
     (case AppendEntries 0 0 args rf of
        Inr (rf', rep) \<Rightarrow> aer_Success rep \<and> log_at rf' 2 = None \<and> log_at rf' 1 = log_at rf 1
      | Inl _ \<Rightarrow> False)"

lemma commit_computed:
  "case execs commit_schedule (boot_view 3) of
     None \<Rightarrow> False
   | Some v \<Rightarrow> (let rf0 = nd_rf (vw_nodes v ! 0); rf1 = nd_rf (vw_nodes v ! 1)
        in committed_by_two rf0 rf1 \<and> vw_net v ! 3 = AEReq 0 1 slow_append \<and> 3 < length (vw_net v) \<and>
           cuts slow_append rf1)"
  by code_simp

lemma loss_computed:
  "case execs (commit_schedule @ HandleAppend 3 # overwrite_schedule) (boot_view 3) of
     None \<Rightarrow> False
   | Some v \<Rightarrow> \<not> vw_stale v \<and>
       (let rf0 = nd_rf (vw_nodes v ! 0); rf1 = nd_rf (vw_nodes v ! 1)
        in commitIndex rf0 = 2 \<and> commitIndex rf1 = 2 \<and> delivers rf0 2 (Some 8) \<and> delivers rf1 2 (Some 9))"
  by code_simp

lemma execs_append:
  "execs (as @ bs) v = (case execs as v of None \<Rightarrow> None | Some v' \<Rightarrow> execs bs v')"
  by (induction as v rule: execs.induct) (auto split: option.split)

lemma commit_run:
  obtains v s where "execs commit_schedule (boot_view 3) = Some v" and "(cluster_step 3)\<^sup>*\<^sup>* (boot_cluster 3) s"
    and "views 3 s v" and "committed_by_two (rf_of s 0) (rf_of s 1)" and "vw_msg 3 v = Some (AEReq 0 1 slow_append)"
    and "cuts slow_append (rf_of s 1)"
proof -
  obtain v where v: "execs commit_schedule (boot_view 3) = Some v"
    "committed_by_two (nd_rf (vw_nodes v ! 0)) (nd_rf (vw_nodes v ! 1))"
    "vw_net v ! 3 = AEReq 0 1 slow_append" "3 < length (vw_net v)" "cuts slow_append (nd_rf (vw_nodes v ! 1))"
    using commit_computed by (auto simp: Let_def split: option.splits)
  obtain s where s: "(cluster_step 3)\<^sup>*\<^sup>* (boot_cluster 3) s" "views 3 s v"
    using execs_sound [OF v(1) boot_views] by blast
  show thesis
    by (rule that [OF v(1) s]) (use v(2-) views_rf [OF s(2)] in \<open>simp_all add: vw_msg_def\<close>)
qed

text \<open>
  C5. Committed entries are not safe. Three peers that start from empty disks have a run, without
  any restart and with every election ending in its own term, that loses a committed entry. In
  the middle of it peer 0 leads term 1 and has committed index 2, which it and peer 1 hold. Then
  an append that peer 0 had sent before, and that peer 1 already holds every entry of, is
  delivered: \<open>AppendEntries\<close> answers success and removes index 2 from the log of peer 1. In the end
  peers 0 and 1 have both committed index 2, and deliver different commands there.
\<close>

theorem committed_entry_lost:
  "\<exists>(s :: nat cluster) rf' rep s'.
     (cluster_step 3)\<^sup>*\<^sup>* (boot_cluster 3) s \<and> leads s 0 1 \<and> commitIndex (rf_of s 0) = 2 \<and>
     log_at (rf_of s 0) 2 = Some \<lparr>Command = Some 8, Term = 1\<rparr> \<and> log_at (rf_of s 1) 2 = log_at (rf_of s 0) 2 \<and>
     AEReq 0 1 slow_append \<in> net s \<and> log_at (rf_of s 1) 1 = Some (hd (aea_Entries slow_append)) \<and>
     AppendEntries 0 0 slow_append (rf_of s 1) = Inr (rf', rep) \<and> aer_Success rep \<and>
     log_at rf' 2 = None \<and> log_at rf' 1 = log_at (rf_of s 1) 1 \<and>
     (cluster_step 3)\<^sup>*\<^sup>* (post (AERep 0 1 slow_append rep) (set_rf 1 rf' s)) s' \<and>
     h_restarts s' = 0 \<and> \<not> h_stale s' \<and> commitIndex (rf_of s' 0) = 2 \<and> commitIndex (rf_of s' 1) = 2 \<and>
     delivers (rf_of s' 0) 2 (Some 8) \<and> delivers (rf_of s' 1) 2 (Some 9)"
proof -
  obtain v s where v: "execs commit_schedule (boot_view 3) = Some v" and s: "(cluster_step 3)\<^sup>*\<^sup>* (boot_cluster 3) s"
    "views 3 s v" and c: "committed_by_two (rf_of s 0) (rf_of s 1)" and m: "vw_msg 3 v = Some (AEReq 0 1 slow_append)"
    and cut: "cuts slow_append (rf_of s 1)"
    by (rule commit_run)
  obtain rf' rep where ae: "AppendEntries 0 0 slow_append (rf_of s 1) = Inr (rf', rep)" "aer_Success rep"
    "log_at rf' 2 = None" "log_at rf' 1 = log_at (rf_of s 1) 1"
    using cut by (auto simp: cuts_def split: sum.splits)
  have nd: "vw_node 1 v = Some (nodes s 1)" using s(2) by (auto simp: views_def vw_node_def)
  let ?s1 = "post (AERep 0 1 slow_append rep) (set_rf 1 rf' s)"
    and ?v1 = "vw_post (AERep 0 1 slow_append rep) (vw_set 1 ((nodes s 1)\<lparr>nd_rf := rf'\<rparr>) v)"
  have "exec (HandleAppend 3) v = Some ?v1" using m nd ae(1) by simp
  then obtain v' where v': "execs overwrite_schedule ?v1 = Some v'" "\<not> vw_stale v'"
    "commitIndex (nd_rf (vw_nodes v' ! 0)) = 2" "commitIndex (nd_rf (vw_nodes v' ! 1)) = 2"
    "delivers (nd_rf (vw_nodes v' ! 0)) 2 (Some 8)" "delivers (nd_rf (vw_nodes v' ! 1)) 2 (Some 9)"
    using loss_computed by (auto simp: execs_append v Let_def split: option.splits)
  have "views 3 ?s1 ?v1" by (intro views_post views_set_rf [OF s(2) nd])
  then obtain s' where s': "(cluster_step 3)\<^sup>*\<^sup>* ?s1 s'" "views 3 s' v'" using execs_sound [OF v'(1)] by blast
  have "h_restarts s' = 0" "\<not> h_stale s'" using s'(2) v'(2) by (auto simp: views_def)
  moreover have "commitIndex (rf_of s' 0) = 2" "commitIndex (rf_of s' 1) = 2"
    "delivers (rf_of s' 0) 2 (Some 8)" "delivers (rf_of s' 1) 2 (Some 9)"
    using v'(3-) views_rf [OF s'(2)] by simp_all
  moreover have "AEReq 0 1 slow_append \<in> net s" using viewsD(2) [OF s(2) m] .
  ultimately show ?thesis
    using s(1) c ae s'(1) unfolding committed_by_two_def leads_def
    by (intro exI [of _ s] exI [of _ rf'] exI [of _ rep] exI [of _ s']) (simp add: slow_append_def)
qed

end
