(* ===== verification/Go_Strings.thy ===== *)
theory Go_Strings
  imports Lab_Prelude "HOL-Library.Char_ord" "HOL-Library.List_Lexorder" "HOL-Library.Multiset"
begin

text \<open>
  The string functions of Go's standard library that the MapReduce applications and the clients
  call: splitting into fields, joining, searching, decimal printing, sorting. A Go string is a
  list of characters; for ASCII text a character is both a byte and a rune, and comparison of
  bytes is the lexicographic order of characters. Letters are those of Latin-1, as in the table
  \<open>unicode.IsLetter\<close> consults for such runes.
\<close>

definition IsLetter :: "char \<Rightarrow> bool" where
  "IsLetter r =
     (let n = of_char r :: nat in
      (65 \<le> n \<and> n \<le> 90) \<or> (97 \<le> n \<and> n \<le> 122) \<or> n = 170 \<or> n = 181 \<or> n = 186 \<or>
      (192 \<le> n \<and> n \<le> 214) \<or> (216 \<le> n \<and> n \<le> 246) \<or> (248 \<le> n \<and> n \<le> 255))"

text \<open>\<open>strings.FieldsFunc\<close>: the maximal runs of characters that do not satisfy \<open>f\<close>.\<close>

fun fields_acc :: "(char \<Rightarrow> bool) \<Rightarrow> string \<Rightarrow> string \<Rightarrow> string list" where
  "fields_acc f cur [] = (if cur = [] then [] else [cur])"
| "fields_acc f cur (c # cs) =
     (if f c then (if cur = [] then fields_acc f [] cs else cur # fields_acc f [] cs)
      else fields_acc f (cur @ [c]) cs)"

definition FieldsFunc :: "string \<Rightarrow> (char \<Rightarrow> bool) \<Rightarrow> string list" where
  "FieldsFunc s f = fields_acc f [] s"

fun strings_Join :: "string list \<Rightarrow> string \<Rightarrow> string" where
  "strings_Join [] sep = []"
| "strings_Join [x] sep = x"
| "strings_Join (x # y # xs) sep = x @ sep @ strings_Join (y # xs) sep"

definition HasPrefix :: "string \<Rightarrow> string \<Rightarrow> bool" where
  "HasPrefix s p \<longleftrightarrow> take (length p) s = p"

definition Contains :: "string \<Rightarrow> string \<Rightarrow> bool" where
  "Contains s p \<longleftrightarrow> list_ex (\<lambda>i. HasPrefix (drop i s) p) [0..<length s + 1]"

definition digit :: "nat \<Rightarrow> char" where
  "digit n = char_of (48 + n)"

fun itoa_nat :: "nat \<Rightarrow> string" where
  "itoa_nat n = (if n < 10 then [digit n] else itoa_nat (n div 10) @ [digit (n mod 10)])"

declare itoa_nat.simps [simp del]

definition Itoa :: "int \<Rightarrow> string" where
  "Itoa i = (if i < 0 then CHR ''-'' # itoa_nat (nat (- i)) else itoa_nat (nat i))"

text \<open>\<open>sort.Strings\<close>; equal strings are indistinguishable, so any correct sort gives this list.\<close>

definition sort_Strings :: "string list \<Rightarrow> string list" where
  "sort_Strings xs = sort xs"

section \<open>Fields\<close>

text \<open>
  The word \<open>w\<close> stands at position \<open>i\<close> of \<open>s\<close>: its characters are there, none of them is a
  separator, and it cannot be extended on either side.
\<close>

definition word_at :: "(char \<Rightarrow> bool) \<Rightarrow> string \<Rightarrow> string \<Rightarrow> nat \<Rightarrow> bool" where
  "word_at f s w i \<longleftrightarrow>
     i + length w \<le> length s \<and> take (length w) (drop i s) = w \<and> (\<forall>c \<in> set w. \<not> f c) \<and>
     (0 < i \<longrightarrow> f (s ! (i - 1))) \<and> (i + length w < length s \<longrightarrow> f (s ! (i + length w)))"

lemma FieldsFunc_words: "w \<in> set (FieldsFunc s f) \<Longrightarrow> w \<noteq> [] \<and> (\<forall>c \<in> set w. \<not> f c)"
proof -
  have "(\<forall>c \<in> set cur. \<not> f c) \<Longrightarrow> w \<in> set (fields_acc f cur s) \<Longrightarrow> w \<noteq> [] \<and> (\<forall>c \<in> set w. \<not> f c)" for cur
  proof (induction f cur s rule: fields_acc.induct)
    case (2 f cur c cs)
    consider "f c" "cur = []" | "f c" "cur \<noteq> []" "w = cur" | "f c" "cur \<noteq> []" "w \<noteq> cur" | "\<not> f c"
      by blast
    then show ?case
    proof cases
      case 1 then show ?thesis using "2.IH"(1) "2.prems" by simp
    next
      case 2 then show ?thesis using "2.prems" by simp
    next
      case 3 then show ?thesis using "2.IH"(2) "2.prems" by simp
    next
      case 4 then show ?thesis using "2.IH"(3) "2.prems" by simp
    qed
  qed (simp split: if_splits)
  from this [of "[]"] show "w \<in> set (FieldsFunc s f) \<Longrightarrow> w \<noteq> [] \<and> (\<forall>c \<in> set w. \<not> f c)"
    by (simp add: FieldsFunc_def)
qed

lemma word_at_whole:
  assumes "\<forall>c \<in> set s. \<not> f c" and "w \<noteq> []"
  shows "word_at f s w i \<longleftrightarrow> i = 0 \<and> w = s"
proof
  assume w: "word_at f s w i"
  have "i = 0"
  proof (rule ccontr)
    assume "i \<noteq> 0"
    then have "f (s ! (i - 1))" "i - 1 < length s" using w assms(2) by (auto simp: word_at_def)
    then show False using assms(1) nth_mem by blast
  qed
  moreover have "\<not> length w < length s"
  proof
    assume "length w < length s"
    moreover from this have "f (s ! length w)" using w \<open>i = 0\<close> by (simp add: word_at_def)
    ultimately show False using assms(1) nth_mem by blast
  qed
  moreover have "take (length w) (drop i s) = w" using w unfolding word_at_def by blast
  ultimately show "i = 0 \<and> w = s" by (metis drop0 not_less take_all)
qed (use assms in \<open>simp add: word_at_def\<close>)

text \<open>A separator cuts the occurrences of a word into those before and those after it.\<close>

lemma word_at_cut:
  assumes cur: "\<forall>c \<in> set cur. \<not> f c" and sep: "f c" and w: "w \<noteq> []"
  shows "word_at f (cur @ c # cs) w i \<longleftrightarrow>
    (i = 0 \<and> w = cur) \<or> (length cur < i \<and> word_at f cs w (i - Suc (length cur)))"
proof -
  let ?s = "cur @ c # cs"
  consider "i = 0" | "0 < i" "i \<le> length cur" | "length cur < i" by linarith
  then show ?thesis
  proof cases
    case 1
    have "w = cur" if o: "word_at f ?s w i"
    proof -
      have tk: "take (length w) ?s = w" "\<forall>c \<in> set w. \<not> f c" using o 1 by (auto simp: word_at_def)
      have "length w \<le> length cur"
      proof (rule ccontr)
        assume "\<not> length w \<le> length cur"
        then have l: "length cur < length w" by simp
        then have "take (length w) ?s ! length cur = c" by (subst nth_take) simp_all
        then show False using tk sep nth_mem [OF l] by simp
      qed
      moreover have "\<not> length w < length cur"
      proof
        assume l: "length w < length cur"
        then have "f (cur ! length w)" using o 1 by (simp add: word_at_def nth_append)
        then show False using cur nth_mem [OF l] by blast
      qed
      ultimately show ?thesis using tk(1) by (metis append_eq_conv_conj le_antisym linorder_not_less)
    qed
    moreover have "word_at f ?s cur 0" using cur sep by (simp add: word_at_def)
    ultimately show ?thesis using 1 by auto
  next
    case 2
    then have "\<not> f (?s ! (i - 1))" using cur by (simp add: nth_append)
    then show ?thesis using 2 by (auto simp: word_at_def)
  next
    case 3
    define k where "k = i - Suc (length cur)"
    have i: "i = Suc (length cur) + k" using 3 by (simp add: k_def)
    have "0 < i \<longrightarrow> f (?s ! (i - 1))" if "0 < k \<longrightarrow> f (cs ! (k - 1))"
      using that sep unfolding i by (cases k) (simp_all add: nth_append)
    moreover have "0 < k \<longrightarrow> f (cs ! (k - 1))" if "0 < i \<longrightarrow> f (?s ! (i - 1))"
      using that unfolding i by (cases k) (simp_all add: nth_append)
    moreover have "?s ! (i + length w) = cs ! (k + length w)"
      unfolding i by (simp add: nth_append)
    ultimately show ?thesis unfolding word_at_def k_def [symmetric] using i by auto
  qed
qed

lemma word_at_finite: "finite {i. word_at f s w i}"
  by (rule finite_subset [of _ "{..length s}"]) (auto simp: word_at_def)

lemma FieldsFunc_count:
  assumes "w \<noteq> []"
  shows "count_list (FieldsFunc s f) w = card {i. word_at f s w i}"
proof -
  have "\<forall>c \<in> set cur. \<not> f c \<Longrightarrow>
      count_list (fields_acc f cur cs) w = card {i. word_at f (cur @ cs) w i}" for cur cs
  proof (induction f cur cs rule: fields_acc.induct)
    case (1 f cur)
    have "{i. word_at f cur w i} = (if w = cur then {0} else {})"
      using word_at_whole [OF 1 assms] by auto
    then show ?case using assms by simp
  next
    case (2 f cur c cs)
    show ?case
    proof (cases "f c")
      case True
      have split: "{i. word_at f (cur @ c # cs) w i} =
          (if w = cur then {0} else {}) \<union> (\<lambda>k. k + Suc (length cur)) ` {k. word_at f cs w k}"
      proof (intro set_eqI iffI)
        fix i assume "i \<in> {i. word_at f (cur @ c # cs) w i}"
        then consider "i = 0" "w = cur"
          | "i = (i - Suc (length cur)) + Suc (length cur)" "word_at f cs w (i - Suc (length cur))"
          unfolding word_at_cut [OF "2.prems" True assms] mem_Collect_eq by fastforce
        then show "i \<in> (if w = cur then {0} else {}) \<union> (\<lambda>k. k + Suc (length cur)) ` {k. word_at f cs w k}"
          by cases (simp, blast)
      qed (auto simp: word_at_cut [OF "2.prems" True assms] split: if_splits)
      have "card ((\<lambda>k. k + Suc (length cur)) ` {k. word_at f cs w k}) = count_list (fields_acc f [] cs) w"
        using "2.IH"(1,2) True by (cases "cur = []") (simp_all add: card_image inj_on_def)
      then show ?thesis
        unfolding split using True assms
        by (subst card_Un_disjoint) (auto simp: word_at_finite)
    next
      case False
      then show ?thesis using 2 by simp
    qed
  qed
  from this [of "[]" s] show ?thesis by (simp add: FieldsFunc_def)
qed

section \<open>Decimal numbers\<close>

fun atoi_nat :: "nat \<Rightarrow> string \<Rightarrow> nat" where
  "atoi_nat acc [] = acc"
| "atoi_nat acc (c # cs) = atoi_nat (10 * acc + (of_char c - 48)) cs"

lemma of_char_digit: "n < 10 \<Longrightarrow> of_char (digit n) = 48 + n"
  by (simp add: digit_def)

lemma atoi_append: "atoi_nat acc (xs @ ys) = atoi_nat (atoi_nat acc xs) ys"
  by (induction acc xs rule: atoi_nat.induct) auto

lemma atoi_itoa [simp]: "atoi_nat 0 (itoa_nat n) = n"
proof (induction n rule: itoa_nat.induct)
  case (1 n)
  then show ?case by (subst itoa_nat.simps) (auto simp: atoi_append of_char_digit)
qed

lemma itoa_nat_inject [simp]: "itoa_nat m = itoa_nat n \<longleftrightarrow> m = n"
  by (metis atoi_itoa)

lemma itoa_nat_digits: "c \<in> set (itoa_nat n) \<Longrightarrow> 48 \<le> (of_char c :: nat) \<and> (of_char c :: nat) \<le> 57"
proof (induction n rule: itoa_nat.induct)
  case (1 n)
  then show ?case by (subst (asm) itoa_nat.simps) (auto simp: of_char_digit split: if_splits)
qed

lemma Itoa_inject [simp]: "Itoa i = Itoa j \<longleftrightarrow> i = j"
proof -
  have "CHR ''-'' \<notin> set (itoa_nat n)" for n
    using itoa_nat_digits [of "CHR ''-''" n] by auto
  then have "CHR ''-'' # xs \<noteq> itoa_nat n" "itoa_nat n \<noteq> CHR ''-'' # xs" for xs n
    by (metis list.set_intros(1))+
  then show ?thesis by (auto simp: Itoa_def)
qed

section \<open>Parsing numbers\<close>

text \<open>
  \<open>strconv.ParseInt(s, 10, 64)\<close>: the value and the error. A range error is found at the digit
  that overflows, before the rest of the text is read.
\<close>

datatype num_error = ErrSyntax | ErrRange

definition is_digit :: "char \<Rightarrow> bool" where
  "is_digit c \<longleftrightarrow> 48 \<le> (of_char c :: nat) \<and> (of_char c :: nat) \<le> 57"

fun parse_uint :: "nat \<Rightarrow> string \<Rightarrow> num_error + nat" where
  "parse_uint n [] = Inr n"
| "parse_uint n (c # cs) =
     (if \<not> is_digit c then Inl ErrSyntax
      else let n1 = 10 * n + (of_char c - 48)
           in if n1 > 2 ^ 64 - 1 then Inl ErrRange else parse_uint n1 cs)"

definition ParseUint :: "string \<Rightarrow> num_error + nat" where
  "ParseUint s = (if s = [] then Inl ErrSyntax else parse_uint 0 s)"

definition parse_sign :: "string \<Rightarrow> bool \<times> string" where
  "parse_sign s =
     (case s of
        c # cs \<Rightarrow> if c = CHR ''+'' then (False, cs) else if c = CHR ''-'' then (True, cs) else (False, s)
      | [] \<Rightarrow> (False, s))"

definition ParseInt :: "string \<Rightarrow> int \<times> num_error option" where
  "ParseInt s =
     (let (neg, s1) = parse_sign s
      in case ParseUint s1 of
           Inl ErrSyntax \<Rightarrow> (0, Some ErrSyntax)
         | r \<Rightarrow>
             let un = (case r of Inr n \<Rightarrow> n | Inl _ \<Rightarrow> 2 ^ 64 - 1)
             in if \<not> neg \<and> un \<ge> 2 ^ 63 then (2 ^ 63 - 1, Some ErrRange)
                else if neg \<and> un > 2 ^ 63 then (- (2 ^ 63), Some ErrRange)
                else (if neg then - int un else int un, None))"

text \<open>\<open>strconv.Atoi\<close> on a 64-bit machine gives the same values.\<close>

definition Atoi :: "string \<Rightarrow> int \<times> num_error option" where
  "Atoi s = ParseInt s"

definition ParseBool :: "string \<Rightarrow> bool \<times> bool" where
  "ParseBool s =
     (if s \<in> {''1'', ''t'', ''T'', ''TRUE'', ''true'', ''True''} then (True, True)
      else if s \<in> {''0'', ''f'', ''F'', ''FALSE'', ''false'', ''False''} then (False, True)
      else (False, False))"

lemma atoi_ge: "acc \<le> atoi_nat acc s"
proof (induction acc s rule: atoi_nat.induct)
  case (2 acc c cs)
  then show ?case by (simp add: order_trans [OF _ 2])
qed simp

lemma parse_uint_digits:
  "\<forall>c \<in> set s. is_digit c \<Longrightarrow> atoi_nat n s \<le> 2 ^ 64 - 1 \<Longrightarrow> parse_uint n s = Inr (atoi_nat n s)"
proof (induction n s rule: parse_uint.induct)
  case (2 n c cs)
  have "10 * n + (of_char c - 48) \<le> atoi_nat n (c # cs)" using atoi_ge by simp
  then have "\<not> 10 * n + (of_char c - 48) > 2 ^ 64 - 1" using 2(3) by linarith
  then show ?case using 2 by (simp add: Let_def)
qed simp

lemma itoa_nat_nonempty [simp]: "itoa_nat n \<noteq> []"
  by (subst itoa_nat.simps) simp

lemma ParseUint_itoa: "n < 2 ^ 64 \<Longrightarrow> ParseUint (itoa_nat n) = Inr n"
  using parse_uint_digits [of "itoa_nat n" 0] itoa_nat_digits [of _ n]
  by (simp add: ParseUint_def is_digit_def)

lemma itoa_nat_unsigned: "parse_sign (itoa_nat n) = (False, itoa_nat n)"
proof -
  have "c \<noteq> CHR ''+'' \<and> c \<noteq> CHR ''-''" if "c \<in> set (itoa_nat n)" for c
    using itoa_nat_digits [OF that] by auto
  then show ?thesis by (cases "itoa_nat n") (auto simp: parse_sign_def)
qed

text \<open>Printing and parsing a 64-bit number.\<close>

lemma ParseInt_Itoa:
  assumes "- (2 ^ 63) \<le> k" and "k < 2 ^ 63"
  shows "ParseInt (Itoa k) = (k, None)"
proof (cases "0 \<le> k")
  case True
  then have "nat k < 2 ^ 63" using assms(2) by simp
  then show ?thesis
    using True itoa_nat_unsigned [of "nat k"] ParseUint_itoa [of "nat k"]
    by (simp add: ParseInt_def Itoa_def)
next
  case False
  then have "nat (- k) \<le> 2 ^ 63" using assms(1) by simp
  then show ?thesis
    using False ParseUint_itoa [of "nat (- k)"] by (simp add: ParseInt_def Itoa_def parse_sign_def)
qed

end
