(* ===== verification/Labrpc.thy ===== *)
theory Labrpc
  imports Go_Strings
begin

text \<open>
  \<open>labrpc/labrpc.go\<close>: the simulated network. A server is a record in a store, addressed by a
  number because the network compares server pointers; its services are maps from method names
  to handlers on the host's state. Names of ends and servers are arbitrary values. Arguments and
  replies are byte lists; \<open>gob\<close> is an argument. A request that the network handles in a goroutine
  of its own is a \<open>flight\<close> that moves from one atomic section of \<open>processReq\<close> to the next, together
  with the goroutines that these sections have started.
\<close>

section \<open>Messages and servers\<close>

record 'n reqMsg =
  rq_endname :: 'n
  rq_svcMeth :: string
  rq_argsType :: string
  rq_args :: "byte list"

record replyMsg =
  rp_ok :: bool
  rp_reply :: "byte list"

text \<open>What reflection tells of a method; its function takes the host's state, the argument and a
  zero reply, and may panic. Types are their names; \<open>mt_In2\<close> is the type the reply points to.\<close>

record ('s, 'v) Method =
  mt_Name :: string
  mt_PkgPath :: string
  mt_NumIn :: int
  mt_In2_ptr :: bool
  mt_In2 :: string
  mt_NumOut :: int
  mt_Func :: "'s \<Rightarrow> 'v \<Rightarrow> 'v \<Rightarrow> ('s \<times> 'v) go"

record ('s, 'v) Service =
  sv_name :: string
  sv_methods :: "string \<rightharpoonup> ('s, 'v) Method"

definition handler_method :: "('s, 'v) Method \<Rightarrow> bool" where
  "handler_method m \<longleftrightarrow>
     \<not> (mt_PkgPath m \<noteq> '''' \<or> mt_NumIn m \<noteq> 3 \<or> \<not> mt_In2_ptr m \<or> mt_NumOut m \<noteq> 0)"

fun add_methods :: "('s, 'v) Method list \<Rightarrow> (string \<rightharpoonup> ('s, 'v) Method) \<Rightarrow> (string \<rightharpoonup> ('s, 'v) Method)" where
  "add_methods [] ms = ms"
| "add_methods (m # rest) ms =
     add_methods rest (if handler_method m then ms(mt_Name m \<mapsto> m) else ms)"

definition MakeService :: "string \<Rightarrow> ('s, 'v) Method list \<Rightarrow> ('s, 'v) Service" where
  "MakeService tname ms = \<lparr>sv_name = tname, sv_methods = add_methods ms Map.empty\<rparr>"

record ('s, 'v) Server =
  sr_services :: "string \<rightharpoonup> ('s, 'v) Service"
  sr_count :: int
  sr_host :: 's

definition MakeServer :: "'s \<Rightarrow> ('s, 'v) Server" where
  "MakeServer host = \<lparr>sr_services = Map.empty, sr_count = 0, sr_host = host\<rparr>"

definition AddService :: "('s, 'v) Service \<Rightarrow> ('s, 'v) Server \<Rightarrow> ('s, 'v) Server" where
  "AddService svc rs = rs\<lparr>sr_services := (sr_services rs)(sv_name svc \<mapsto> svc)\<rparr>"

definition Server_GetCount :: "('s, 'v) Server \<Rightarrow> int" where
  "Server_GetCount rs = sr_count rs"

text \<open>
  \<open>labgob\<close>: the bytes that encoding a value writes, the value that decoding makes of a given one,
  each with whether there was no error; the type of a value, and the zero value of a type.
\<close>

record 'v codec =
  cd_enc :: "'v \<Rightarrow> byte list \<times> bool"
  cd_dec :: "byte list \<Rightarrow> 'v \<Rightarrow> 'v \<times> bool"
  cd_typeOf :: "'v \<Rightarrow> string"
  cd_zero :: "string \<Rightarrow> 'v"

text \<open>Errors of the decoder and of the encoder are ignored.\<close>

definition Service_dispatch ::
  "'v codec \<Rightarrow> ('s, 'v) Service \<Rightarrow> string \<Rightarrow> 'n reqMsg \<Rightarrow> 's \<Rightarrow> ('s \<times> replyMsg) go" where
  "Service_dispatch cd svc methname req host =
     (case sv_methods svc methname of
        Some method \<Rightarrow>
          let args = fst (cd_dec cd (rq_args req) (cd_zero cd (rq_argsType req)))
          in go_bind (mt_Func method host args (cd_zero cd (mt_In2 method))) (\<lambda>(host', replyv).
               Inr (host', \<lparr>rp_ok = True, rp_reply = fst (cd_enc cd replyv)\<rparr>))
      | None \<Rightarrow> Inl (Fatal (''labrpc.Service.dispatch(): unknown method '' @ methname)))"

text \<open>\<open>strings.LastIndex\<close> of a one-character string.\<close>

fun last_index :: "char \<Rightarrow> int \<Rightarrow> int \<Rightarrow> string \<Rightarrow> int" where
  "last_index c i found [] = found"
| "last_index c i found (x # xs) = last_index c (i + 1) (if x = c then i else found) xs"

definition LastIndex :: "string \<Rightarrow> char \<Rightarrow> int" where
  "LastIndex s c = last_index c 0 (- 1) s"

definition Server_dispatch ::
  "'v codec \<Rightarrow> 'n reqMsg \<Rightarrow> ('s, 'v) Server \<Rightarrow> (('s, 'v) Server \<times> replyMsg) go" where
  "Server_dispatch cd req rs0 =
     (let rs = rs0\<lparr>sr_count := sr_count rs0 + 1\<rparr>;
          dot = LastIndex (rq_svcMeth req) (CHR ''.'')
      in
      go_bind (go_upto (rq_svcMeth req) dot) (\<lambda>serviceName.
      go_bind (go_from (rq_svcMeth req) (dot + 1)) (\<lambda>methodName.
      case sr_services rs serviceName of
        Some svc \<Rightarrow>
          go_bind (Service_dispatch cd svc methodName req (sr_host rs)) (\<lambda>(host', rep).
            Inr (rs\<lparr>sr_host := host'\<rparr>, rep))
      | None \<Rightarrow> Inl (Fatal (''labrpc.Server.dispatch(): unknown service '' @ serviceName)))))"

section \<open>The network\<close>

text \<open>A deleted server is a \<open>nil\<close> in the map, which is \<open>None\<close> like a name never added.\<close>

record ('n, 'm) Network =
  nw_reliable :: bool
  nw_longDelays :: bool
  nw_longReordering :: bool
  nw_ends :: "'n set"
  nw_enabled :: "'n \<Rightarrow> bool"
  nw_servers :: "'m \<rightharpoonup> nat"
  nw_connections :: "'n \<rightharpoonup> 'm"
  nw_done :: bool
  nw_count :: "32 word"
  nw_bytes :: "64 word"

definition MakeNetwork :: "('n, 'm) Network" where
  "MakeNetwork = \<lparr>nw_reliable = True, nw_longDelays = False, nw_longReordering = False, nw_ends = {},
     nw_enabled = (\<lambda>_. False), nw_servers = Map.empty, nw_connections = Map.empty, nw_done = False,
     nw_count = 0, nw_bytes = 0\<rparr>"

definition Cleanup :: "('n, 'm) Network \<Rightarrow> ('n, 'm) Network" where
  "Cleanup rn = rn\<lparr>nw_done := True\<rparr>"

definition Reliable :: "bool \<Rightarrow> ('n, 'm) Network \<Rightarrow> ('n, 'm) Network" where
  "Reliable yes rn = rn\<lparr>nw_reliable := yes\<rparr>"

definition LongReordering :: "bool \<Rightarrow> ('n, 'm) Network \<Rightarrow> ('n, 'm) Network" where
  "LongReordering yes rn = rn\<lparr>nw_longReordering := yes\<rparr>"

definition LongDelays :: "bool \<Rightarrow> ('n, 'm) Network \<Rightarrow> ('n, 'm) Network" where
  "LongDelays yes rn = rn\<lparr>nw_longDelays := yes\<rparr>"

definition MakeEnd :: "'n \<Rightarrow> ('n, 'm) Network \<Rightarrow> ('n, 'm) Network go" where
  "MakeEnd endname rn =
     (if endname \<in> nw_ends rn then Inl (Fatal ''MakeEnd: already exists'')
      else Inr (rn\<lparr>nw_ends := insert endname (nw_ends rn), nw_enabled := (nw_enabled rn)(endname := False),
                   nw_connections := (nw_connections rn)(endname := None)\<rparr>))"

definition AddServer :: "'m \<Rightarrow> nat \<Rightarrow> ('n, 'm) Network \<Rightarrow> ('n, 'm) Network" where
  "AddServer servername rs rn = rn\<lparr>nw_servers := (nw_servers rn)(servername \<mapsto> rs)\<rparr>"

definition DeleteServer :: "'m \<Rightarrow> ('n, 'm) Network \<Rightarrow> ('n, 'm) Network" where
  "DeleteServer servername rn = rn\<lparr>nw_servers := (nw_servers rn)(servername := None)\<rparr>"

definition Connect :: "'n \<Rightarrow> 'm \<Rightarrow> ('n, 'm) Network \<Rightarrow> ('n, 'm) Network" where
  "Connect endname servername rn = rn\<lparr>nw_connections := (nw_connections rn)(endname \<mapsto> servername)\<rparr>"

definition Enable :: "'n \<Rightarrow> bool \<Rightarrow> ('n, 'm) Network \<Rightarrow> ('n, 'm) Network" where
  "Enable endname en rn = rn\<lparr>nw_enabled := (nw_enabled rn)(endname := en)\<rparr>"

definition Network_GetCount :: "(nat \<Rightarrow> ('s, 'v) Server) \<Rightarrow> 'm \<Rightarrow> ('n, 'm) Network \<Rightarrow> int go" where
  "Network_GetCount store servername rn =
     (case nw_servers rn servername of None \<Rightarrow> Inl NilDereference | Some svr \<Rightarrow> Inr (Server_GetCount (store svr)))"

definition GetTotalCount :: "('n, 'm) Network \<Rightarrow> int" where
  "GetTotalCount rn = sint (nw_count rn)"

definition GetTotalBytes :: "('n, 'm) Network \<Rightarrow> int" where
  "GetTotalBytes rn = sint (nw_bytes rn)"

definition readEndnameInfo :: "'n \<Rightarrow> ('n, 'm) Network \<Rightarrow> bool \<times> 'm option \<times> nat option \<times> bool \<times> bool" where
  "readEndnameInfo endname rn =
     (let servername = nw_connections rn endname;
          server = (case servername of None \<Rightarrow> None | Some s \<Rightarrow> nw_servers rn s)
      in (nw_enabled rn endname, servername, server, nw_reliable rn, nw_longReordering rn))"

definition isServerDead :: "'n \<Rightarrow> 'm \<Rightarrow> nat \<Rightarrow> ('n, 'm) Network \<Rightarrow> bool" where
  "isServerDead endname servername server rn =
     (if nw_enabled rn endname = False \<or> nw_servers rn servername \<noteq> Some server then True else False)"

section \<open>One request\<close>

text \<open>What a goroutine of \<open>processReq\<close> has read about its request's server.\<close>

record 'm target =
  tg_servername :: 'm
  tg_server :: nat
  tg_reliable :: bool
  tg_longreordering :: bool

text \<open>
  Where it stands: not yet taken off \<open>endCh\<close>; about to read the end's information; about to
  execute; waiting for the handler; about to decide on the reply; delaying the reply; simulating
  a timeout; done, with what it sent on \<open>replyCh\<close>.
\<close>

datatype 'm req_state =
  Sent | Accepted | Chosen "'m target" | Waiting "'m target" | Deciding "'m target" "replyMsg option"
| Delayed replyMsg | TimingOut | Replied replyMsg

definition fail_reply :: replyMsg where
  "fail_reply = \<lparr>rp_ok = False, rp_reply = []\<rparr>"

definition acceptReq :: "'n reqMsg \<Rightarrow> ('n, 'm) Network \<Rightarrow> ('n, 'm) Network" where
  "acceptReq req rn =
     rn\<lparr>nw_count := nw_count rn + 1, nw_bytes := nw_bytes rn + of_nat (length (rq_args req))\<rparr>"

definition processReq_begin :: "'n reqMsg \<Rightarrow> ('n, 'm) Network \<Rightarrow> 'm req_state" where
  "processReq_begin req rn =
     (case readEndnameInfo (rq_endname req) rn of
        (enabled, Some servername, Some server, reliable, longreordering) \<Rightarrow>
          if enabled
          then Chosen \<lparr>tg_servername = servername, tg_server = server, tg_reliable = reliable,
                       tg_longreordering = longreordering\<rparr>
          else TimingOut
      | _ \<Rightarrow> TimingOut)"

text \<open>The time after which a request that reaches no server is answered, in milliseconds; \<open>draw\<close> is
  \<open>rand.Int()\<close>.\<close>

definition processReq_timeout :: "nat \<Rightarrow> ('n, 'm) Network \<Rightarrow> nat" where
  "processReq_timeout draw rn = (if nw_longDelays rn then draw mod 7000 else draw mod 100)"

text \<open>
  The goroutines that a request's \<open>processReq\<close> starts: one that is about to dispatch the request to
  a server, one that offers what the dispatch returned on \<open>ech\<close>, and one that drains \<open>ech\<close>. A
  section returns where it leaves the request and the goroutines it has started.
\<close>

datatype goroutine = Dispatching nat | Sending replyMsg | Draining

text \<open>\<open>draw\<close> is \<open>rand.Int() % 1000\<close>.\<close>

definition processReq_execute :: "int \<Rightarrow> 'm target \<Rightarrow> 'm req_state \<times> goroutine list" where
  "processReq_execute draw tg =
     (if tg_reliable tg = False \<and> draw < 100 then (Replied fail_reply, [])
      else (Waiting tg, [Dispatching (tg_server tg)]))"

text \<open>One turn of the loop that waits: the handler's reply has arrived, or 100 ms have passed.\<close>

definition processReq_wait ::
  "'n reqMsg \<Rightarrow> 'm target \<Rightarrow> replyMsg option \<Rightarrow> ('n, 'm) Network \<Rightarrow> 'm req_state \<times> goroutine list" where
  "processReq_wait req tg ech rn =
     (case ech of
        Some reply \<Rightarrow> (Deciding tg (Some reply), [])
      | None \<Rightarrow>
          if isServerDead (rq_endname req) (tg_servername tg) (tg_server tg) rn
          then (Deciding tg None, [Draining]) else (Waiting tg, []))"

definition count_bytes :: "replyMsg \<Rightarrow> ('n, 'm) Network \<Rightarrow> ('n, 'm) Network" where
  "count_bytes reply rn = rn\<lparr>nw_bytes := nw_bytes rn + of_nat (length (rp_reply reply))\<rparr>"

text \<open>\<open>drop\<close> is \<open>rand.Int() % 1000\<close> and \<open>delay\<close> is \<open>rand.Intn(900)\<close>.\<close>

definition processReq_decide ::
  "int \<Rightarrow> int \<Rightarrow> 'n reqMsg \<Rightarrow> 'm target \<Rightarrow> replyMsg option \<Rightarrow> ('n, 'm) Network \<Rightarrow>
   ('n, 'm) Network \<times> 'm req_state" where
  "processReq_decide drp delay req tg mreply rn =
     (let serverDead = isServerDead (rq_endname req) (tg_servername tg) (tg_server tg) rn
      in case mreply of
           None \<Rightarrow> (rn, Replied fail_reply)
         | Some reply \<Rightarrow>
             if serverDead then (rn, Replied fail_reply)
             else if tg_reliable tg = False \<and> drp < 100 then (rn, Replied fail_reply)
             else if tg_longreordering tg \<and> delay < 600 then (rn, Delayed reply)
             else (count_bytes reply rn, Replied reply))"

text \<open>The client's side: what \<open>Call\<close> sends, and what it makes of the reply. It panics when the
  arguments cannot be encoded and ends the process when the reply cannot be decoded.\<close>

definition Call_request :: "'v codec \<Rightarrow> 'n \<Rightarrow> string \<Rightarrow> 'v \<Rightarrow> 'n reqMsg go" where
  "Call_request cd endname svcMeth args =
     (case cd_enc cd args of (bs, noerr) \<Rightarrow>
        if \<not> noerr then Inl (Fatal ''panic: labgob'')
        else Inr \<lparr>rq_endname = endname, rq_svcMeth = svcMeth, rq_argsType = cd_typeOf cd args, rq_args = bs\<rparr>)"

definition Call_result :: "'v codec \<Rightarrow> replyMsg \<Rightarrow> 'v \<Rightarrow> (bool \<times> 'v) go" where
  "Call_result cd rep reply0 =
     (if rp_ok rep
      then (case cd_dec cd (rp_reply rep) reply0 of (reply, noerr) \<Rightarrow>
              if \<not> noerr then Inl (Fatal ''ClientEnd.Call(): decode reply'') else Inr (True, reply))
      else Inr (False, reply0))"

text \<open>The whole call: it fails at once when the network has been destroyed, and otherwise waits for
  what \<open>processReq\<close> sends on \<open>replyCh\<close> for its request.\<close>

definition ClientEnd_Call ::
  "'v codec \<Rightarrow> bool \<Rightarrow> 'n \<Rightarrow> string \<Rightarrow> 'v \<Rightarrow> ('n reqMsg \<Rightarrow> replyMsg) \<Rightarrow> 'v \<Rightarrow> (bool \<times> 'v) go" where
  "ClientEnd_Call cd destroyed endname svcMeth args replyCh reply0 =
     go_bind (Call_request cd endname svcMeth args) (\<lambda>req.
       if destroyed then Inr (False, reply0) else Call_result cd (replyCh req) reply0)"

section \<open>Requests in flight\<close>

text \<open>
  A goroutine that dispatches runs at any time, also after \<open>processReq\<close> has stopped waiting; its
  result waits on \<open>ech\<close>, which has no buffer, until \<open>processReq\<close> or a draining goroutine receives
  it. A handler that panics ends the process, so a dispatch that does not return makes no step.
  \<open>wd_execs\<close> records the dispatches that returned, each with the server before it.
\<close>

record ('n, 'm) flight =
  fl_req :: "'n reqMsg"
  fl_state :: "'m req_state"
  fl_gos :: "goroutine list"

record ('n, 'm, 's, 'v) world =
  wd_net :: "('n, 'm) Network"
  wd_store :: "nat \<Rightarrow> ('s, 'v) Server"
  wd_flights :: "nat \<rightharpoonup> ('n, 'm) flight"
  wd_execs :: "(nat \<times> ('s, 'v) Server \<times> replyMsg) list"

definition set_flight ::
  "nat \<Rightarrow> ('n, 'm) flight \<Rightarrow> ('n, 'm, 's, 'v) world \<Rightarrow> ('n, 'm, 's, 'v) world" where
  "set_flight i f w = w\<lparr>wd_flights := (wd_flights w)(i \<mapsto> f)\<rparr>"

text \<open>The administrative operations, by any caller at any time.\<close>

inductive net_admin :: "('n, 'm) Network \<Rightarrow> ('n, 'm) Network \<Rightarrow> bool" where
  "net_admin rn (Reliable b rn)"
| "net_admin rn (LongReordering b rn)"
| "net_admin rn (LongDelays b rn)"
| "MakeEnd e rn = Inr rn' \<Longrightarrow> net_admin rn rn'"
| "net_admin rn (AddServer m a rn)"
| "net_admin rn (DeleteServer m rn)"
| "net_admin rn (Connect e m rn)"
| "net_admin rn (Enable e b rn)"
| "net_admin rn (Cleanup rn)"

inductive net_step ::
  "'v codec \<Rightarrow> ('n, 'm, 's, 'v) world \<Rightarrow> ('n, 'm, 's, 'v) world \<Rightarrow> bool" for cd :: "'v codec" where
  step_admin: "net_admin (wd_net w) rn \<Longrightarrow> net_step cd w (w\<lparr>wd_net := rn\<rparr>)"
| step_send: "wd_flights w i = None \<Longrightarrow> \<not> nw_done (wd_net w) \<Longrightarrow>
    net_step cd w (set_flight i \<lparr>fl_req = req, fl_state = Sent, fl_gos = []\<rparr> w)"
| step_accept: "wd_flights w i = Some f \<Longrightarrow> fl_state f = Sent \<Longrightarrow>
    net_step cd w (set_flight i (f\<lparr>fl_state := Accepted\<rparr>) (w\<lparr>wd_net := acceptReq (fl_req f) (wd_net w)\<rparr>))"
| step_begin: "wd_flights w i = Some f \<Longrightarrow> fl_state f = Accepted \<Longrightarrow>
    net_step cd w (set_flight i (f\<lparr>fl_state := processReq_begin (fl_req f) (wd_net w)\<rparr>) w)"
| step_timeout: "wd_flights w i = Some f \<Longrightarrow> fl_state f = TimingOut \<Longrightarrow>
    net_step cd w (set_flight i (f\<lparr>fl_state := Replied fail_reply\<rparr>) w)"
| step_execute: "wd_flights w i = Some f \<Longrightarrow> fl_state f = Chosen tg \<Longrightarrow> processReq_execute draw tg = (st, gs) \<Longrightarrow>
    net_step cd w (set_flight i (f\<lparr>fl_state := st, fl_gos := fl_gos f @ gs\<rparr>) w)"
| step_dispatch: "wd_flights w i = Some f \<Longrightarrow> fl_gos f = gs1 @ Dispatching a # gs2 \<Longrightarrow>
    Server_dispatch cd (fl_req f) (wd_store w a) = Inr (rs, rep) \<Longrightarrow>
    net_step cd w (set_flight i (f\<lparr>fl_gos := gs1 @ Sending rep # gs2\<rparr>)
      (w\<lparr>wd_store := (wd_store w)(a := rs), wd_execs := wd_execs w @ [(i, wd_store w a, rep)]\<rparr>))"
| step_receive: "wd_flights w i = Some f \<Longrightarrow> fl_state f = Waiting tg \<Longrightarrow> fl_gos f = gs1 @ Sending rep # gs2 \<Longrightarrow>
    processReq_wait (fl_req f) tg (Some rep) (wd_net w) = (st, gs) \<Longrightarrow>
    net_step cd w (set_flight i (f\<lparr>fl_state := st, fl_gos := gs1 @ gs2 @ gs\<rparr>) w)"
| step_after: "wd_flights w i = Some f \<Longrightarrow> fl_state f = Waiting tg \<Longrightarrow>
    processReq_wait (fl_req f) tg None (wd_net w) = (st, gs) \<Longrightarrow>
    net_step cd w (set_flight i (f\<lparr>fl_state := st, fl_gos := fl_gos f @ gs\<rparr>) w)"
| step_drain: "wd_flights w i = Some f \<Longrightarrow> fl_gos f = gs1 @ Sending rep # gs2 \<Longrightarrow> Draining \<in> set (gs1 @ gs2) \<Longrightarrow>
    net_step cd w (set_flight i (f\<lparr>fl_gos := remove1 Draining (gs1 @ gs2)\<rparr>) w)"
| step_decide: "wd_flights w i = Some f \<Longrightarrow> fl_state f = Deciding tg mr \<Longrightarrow>
    processReq_decide drp delay (fl_req f) tg mr (wd_net w) = (rn, st) \<Longrightarrow>
    net_step cd w (set_flight i (f\<lparr>fl_state := st\<rparr>) (w\<lparr>wd_net := rn\<rparr>))"
| step_delayed: "wd_flights w i = Some f \<Longrightarrow> fl_state f = Delayed rep \<Longrightarrow>
    net_step cd w (set_flight i (f\<lparr>fl_state := Replied rep\<rparr>) (w\<lparr>wd_net := count_bytes rep (wd_net w)\<rparr>))"

definition net_init :: "('n, 'm, 's, 'v) world \<Rightarrow> bool" where
  "net_init w \<longleftrightarrow> wd_net w = MakeNetwork \<and> wd_flights w = Map.empty \<and> wd_execs w = []"

text \<open>
  What holds of a flight: the goroutines it can have in each state, that it has not been executed
  before its handler has run, and that every result it holds is one of an execution.
\<close>

definition left_behind :: "goroutine list \<Rightarrow> bool" where
  "left_behind gs \<longleftrightarrow> gs = [] \<or> (\<exists>a. gs = [Dispatching a, Draining]) \<or> (\<exists>r. gs = [Sending r, Draining])"

fun gos_ok :: "'m req_state \<Rightarrow> goroutine list \<Rightarrow> bool" where
  "gos_ok (Waiting tg) gs \<longleftrightarrow> (\<exists>a. gs = [Dispatching a]) \<or> (\<exists>r. gs = [Sending r])"
| "gos_ok (Deciding tg None) gs \<longleftrightarrow> left_behind gs"
| "gos_ok (Replied r) gs \<longleftrightarrow> left_behind gs"
| "gos_ok st gs \<longleftrightarrow> gs = []"

fun before_run :: "'m req_state \<Rightarrow> goroutine list \<Rightarrow> bool" where
  "before_run Sent gs \<longleftrightarrow> True"
| "before_run Accepted gs \<longleftrightarrow> True"
| "before_run (Chosen tg) gs \<longleftrightarrow> True"
| "before_run TimingOut gs \<longleftrightarrow> True"
| "before_run st gs \<longleftrightarrow> (\<exists>a. Dispatching a \<in> set gs)"

fun state_results :: "'m req_state \<Rightarrow> replyMsg set" where
  "state_results (Deciding tg (Some r)) = {r}"
| "state_results (Delayed r) = {r}"
| "state_results (Replied r) = {r} - {fail_reply}"
| "state_results st = {}"

definition flight_ok :: "(nat \<times> ('s, 'v) Server \<times> replyMsg) list \<Rightarrow> nat \<Rightarrow> ('n, 'm) flight \<Rightarrow> bool" where
  "flight_ok E i f \<longleftrightarrow> gos_ok (fl_state f) (fl_gos f) \<and>
     (before_run (fl_state f) (fl_gos f) \<longrightarrow> i \<notin> fst ` set E) \<and>
     (\<forall>r. Sending r \<in> set (fl_gos f) \<or> r \<in> state_results (fl_state f) \<longrightarrow> (\<exists>pre. (i, pre, r) \<in> set E))"

definition exec_ok :: "'v codec \<Rightarrow> ('n, 'm, 's, 'v) world \<Rightarrow> nat \<times> ('s, 'v) Server \<times> replyMsg \<Rightarrow> bool" where
  "exec_ok cd w e \<longleftrightarrow> (case e of (i, pre, rep) \<Rightarrow>
     \<exists>f. wd_flights w i = Some f \<and> (\<exists>post. Server_dispatch cd (fl_req f) pre = Inr (post, rep)))"

definition net_inv :: "'v codec \<Rightarrow> ('n, 'm, 's, 'v) world \<Rightarrow> bool" where
  "net_inv cd w \<longleftrightarrow> distinct (map fst (wd_execs w)) \<and> (\<forall>e \<in> set (wd_execs w). exec_ok cd w e) \<and>
     (\<forall>i f. wd_flights w i = Some f \<longrightarrow> flight_ok (wd_execs w) i f)"

lemma net_inv_flight: "net_inv cd w \<Longrightarrow> wd_flights w i = Some f \<Longrightarrow> flight_ok (wd_execs w) i f"
  unfolding net_inv_def by blast

lemma net_inv_set:
  assumes inv: "net_inv cd w" and f: "wd_flights w i = Some f"
    and g: "fl_req g = fl_req f" "flight_ok (wd_execs w) i g"
  shows "net_inv cd (set_flight i g (w\<lparr>wd_net := rn\<rparr>))"
proof -
  have "exec_ok cd (set_flight i g (w\<lparr>wd_net := rn\<rparr>)) e" if "e \<in> set (wd_execs w)" for e
  proof -
    obtain j pre rep where e: "e = (j, pre, rep)" by (cases e)
    have "exec_ok cd w e" using inv that by (simp add: net_inv_def)
    then show ?thesis using f g unfolding e by (cases "j = i") (auto simp: exec_ok_def set_flight_def)
  qed
  then show ?thesis using inv f g by (auto simp: net_inv_def set_flight_def)
qed

lemma net_inv_same_net:
  assumes "net_inv cd w" and "wd_flights w i = Some f" and "fl_req g = fl_req f" and "flight_ok (wd_execs w) i g"
  shows "net_inv cd (set_flight i g w)"
  using net_inv_set [OF assms, of "wd_net w"] by simp

lemma left_behind_split:
  "left_behind (gs1 @ Sending r # gs2) \<longleftrightarrow> gs1 = [] \<and> gs2 = [Draining]"
  "left_behind (gs1 @ Dispatching a # gs2) \<longleftrightarrow> gs1 = [] \<and> gs2 = [Draining]"
  by (auto simp: left_behind_def append_eq_Cons_conv Cons_eq_append_conv)

lemma gos_ok_split:
  assumes "gos_ok st (gs1 @ g # gs2)"
  shows "g \<noteq> Draining \<Longrightarrow> gs1 = [] \<and> (gs2 = [] \<or> gs2 = [Draining])"
  using assms left_behind_split(1) [of gs1 _ gs2] left_behind_split(2) [of gs1 _ gs2]
  by (cases "(st, gs1 @ g # gs2)" rule: gos_ok.cases; cases g)
    (auto simp: append_eq_Cons_conv Cons_eq_append_conv)

lemma net_inv_dispatch:
  assumes inv: "net_inv cd w" and f: "wd_flights w i = Some f" "fl_gos f = gs1 @ Dispatching a # gs2"
    and d: "Server_dispatch cd (fl_req f) (wd_store w a) = Inr (rs, rep)"
  shows "net_inv cd (set_flight i (f\<lparr>fl_gos := gs1 @ Sending rep # gs2\<rparr>)
      (w\<lparr>wd_store := st, wd_execs := wd_execs w @ [(i, wd_store w a, rep)]\<rparr>))" (is "net_inv cd ?w")
proof -
  note fo = net_inv_flight [OF inv f(1)]
  have gs: "gs1 = []" "gs2 = [] \<or> gs2 = [Draining]"
    using gos_ok_split [of "fl_state f" gs1 "Dispatching a" gs2] fo f(2) by (auto simp: flight_ok_def)
  have "before_run (fl_state f) (fl_gos f)" using f(2) by (cases "fl_state f") auto
  then have new: "i \<notin> fst ` set (wd_execs w)" using fo by (auto simp: flight_ok_def)
  have "exec_ok cd ?w e" if "e \<in> set (wd_execs w)" for e
  proof -
    obtain j pre r where e: "e = (j, pre, r)" by (cases e)
    have "j \<noteq> i" using new that e by force
    moreover have "exec_ok cd w e" using inv that by (simp add: net_inv_def)
    ultimately show ?thesis unfolding e by (simp add: exec_ok_def set_flight_def)
  qed
  moreover have "exec_ok cd ?w (i, wd_store w a, rep)" using d by (simp add: exec_ok_def set_flight_def)
  moreover have "flight_ok (wd_execs w @ [(i, wd_store w a, rep)]) i (f\<lparr>fl_gos := gs1 @ Sending rep # gs2\<rparr>)"
    using fo gs f(2)
    by (cases "(fl_state f, fl_gos f)" rule: gos_ok.cases) (auto simp: flight_ok_def left_behind_def)
  moreover have "flight_ok (wd_execs w @ [(i, wd_store w a, rep)]) j g" if "wd_flights w j = Some g" "j \<noteq> i" for j g
    using net_inv_flight [OF inv that(1)] that(2) by (auto simp: flight_ok_def)
  ultimately show ?thesis using inv f new by (auto simp: net_inv_def set_flight_def)
qed

lemma net_inv_send:
  assumes inv: "net_inv cd w" and i: "wd_flights w i = None"
  shows "net_inv cd (set_flight i \<lparr>fl_req = req, fl_state = Sent, fl_gos = []\<rparr> w)" (is "net_inv cd ?w")
proof -
  have other: "j \<noteq> i" if "(j, pre, rep) \<in> set (wd_execs w)" for j pre rep
    using inv that i unfolding net_inv_def exec_ok_def by fastforce
  have "exec_ok cd ?w e" if e: "e \<in> set (wd_execs w)" for e
  proof -
    obtain j pre rep where je: "e = (j, pre, rep)" by (cases e)
    have "exec_ok cd w e" using inv e unfolding net_inv_def by blast
    then show ?thesis using other e unfolding je by (auto simp: exec_ok_def set_flight_def)
  qed
  moreover have "i \<notin> fst ` set (wd_execs w)" using other by force
  ultimately show ?thesis using inv by (auto simp: net_inv_def set_flight_def flight_ok_def)
qed

text \<open>One lemma per section of \<open>processReq\<close>: how it keeps what holds of its flight.\<close>

lemma flight_ok_begin:
  "flight_ok E i f \<Longrightarrow> fl_state f = Accepted \<Longrightarrow> flight_ok E i (f\<lparr>fl_state := processReq_begin req rn\<rparr>)"
  by (cases f) (auto simp: flight_ok_def processReq_begin_def readEndnameInfo_def Let_def split: option.split)

lemma flight_ok_execute:
  "flight_ok E i f \<Longrightarrow> fl_state f = Chosen tg \<Longrightarrow> processReq_execute draw tg = (st, gs) \<Longrightarrow>
   flight_ok E i (f\<lparr>fl_state := st, fl_gos := fl_gos f @ gs\<rparr>)"
  by (cases f) (auto simp: flight_ok_def processReq_execute_def left_behind_def split: if_splits)

lemma flight_ok_receive:
  "flight_ok E i f \<Longrightarrow> fl_state f = Waiting tg \<Longrightarrow> fl_gos f = gs1 @ Sending rep # gs2 \<Longrightarrow>
   processReq_wait req tg (Some rep) rn = (st, gs) \<Longrightarrow>
   flight_ok E i (f\<lparr>fl_state := st, fl_gos := gs1 @ gs2 @ gs\<rparr>)"
  by (cases f) (auto simp: flight_ok_def processReq_wait_def append_eq_Cons_conv Cons_eq_append_conv)

lemma flight_ok_after:
  "flight_ok E i f \<Longrightarrow> fl_state f = Waiting tg \<Longrightarrow> processReq_wait req tg None rn = (st, gs) \<Longrightarrow>
   flight_ok E i (f\<lparr>fl_state := st, fl_gos := fl_gos f @ gs\<rparr>)"
  by (cases f) (auto simp: flight_ok_def processReq_wait_def left_behind_def split: if_splits)

lemma flight_ok_drain:
  assumes "flight_ok E i f" and "fl_gos f = gs1 @ Sending rep # gs2" and "Draining \<in> set (gs1 @ gs2)"
  shows "flight_ok E i (f\<lparr>fl_gos := remove1 Draining (gs1 @ gs2)\<rparr>)"
proof -
  have gs: "gs1 = []" "gs2 = [Draining]"
    using gos_ok_split [of "fl_state f" gs1 "Sending rep" gs2] assms by (auto simp: flight_ok_def)
  then show ?thesis
    using assms by (cases "(fl_state f, fl_gos f)" rule: gos_ok.cases) (auto simp: flight_ok_def left_behind_def)
qed

lemma flight_ok_decide:
  "flight_ok E i f \<Longrightarrow> fl_state f = Deciding tg mr \<Longrightarrow> processReq_decide drp delay req tg mr rn = (rn', st) \<Longrightarrow>
   flight_ok E i (f\<lparr>fl_state := st\<rparr>)"
  by (cases f) (auto simp: flight_ok_def processReq_decide_def left_behind_def Let_def split: option.splits if_splits)

interpretation lnet: inductive_invariant
  "net_init :: ('n, 'm, 's, 'v) world \<Rightarrow> bool" "net_step cd" "net_inv cd"
proof
  fix s :: "('n, 'm, 's, 'v) world" assume "net_init s"
  then show "net_inv cd s" by (simp add: net_init_def net_inv_def)
next
  fix s t :: "('n, 'm, 's, 'v) world" assume inv: "net_inv cd s" and "net_step cd s t"
  note fo = net_inv_flight [OF inv] and keep = net_inv_same_net [OF inv] and move = net_inv_set [OF inv]
  from \<open>net_step cd s t\<close> show "net_inv cd t"
  proof cases
    case (step_admin rn)
    then show ?thesis using inv by (simp add: net_inv_def exec_ok_def)
  next
    case (step_send i req)
    then show ?thesis using net_inv_send [OF inv] by simp
  next
    case (step_accept i f)
    have "flight_ok (wd_execs s) i (f\<lparr>fl_state := Accepted\<rparr>)"
      using fo [OF step_accept(2)] step_accept(3) by (simp add: flight_ok_def)
    then show ?thesis unfolding step_accept(1) by (intro move [OF step_accept(2)]) simp_all
  next
    case (step_begin i f)
    show ?thesis unfolding step_begin(1)
      by (rule keep [OF step_begin(2) _ flight_ok_begin [OF fo [OF step_begin(2)] step_begin(3)]]) simp
  next
    case (step_timeout i f)
    have "flight_ok (wd_execs s) i (f\<lparr>fl_state := Replied fail_reply\<rparr>)"
      using fo [OF step_timeout(2)] step_timeout(3) by (simp add: flight_ok_def left_behind_def)
    then show ?thesis unfolding step_timeout(1) by (intro keep [OF step_timeout(2)]) simp_all
  next
    case (step_execute i f tg draw st gs)
    show ?thesis unfolding step_execute(1)
      by (rule keep [OF step_execute(2) _ flight_ok_execute [OF fo [OF step_execute(2)] step_execute(3) step_execute(4)]]) simp
  next
    case (step_dispatch i f gs1 a gs2 rs rep)
    then show ?thesis using net_inv_dispatch [OF inv] by simp
  next
    case (step_receive i f tg gs1 rep gs2 st gs)
    show ?thesis unfolding step_receive(1)
      by (rule keep [OF step_receive(2) _ flight_ok_receive [OF fo [OF step_receive(2)] step_receive(3) step_receive(4) step_receive(5)]]) simp
  next
    case (step_after i f tg st gs)
    show ?thesis unfolding step_after(1)
      by (rule keep [OF step_after(2) _ flight_ok_after [OF fo [OF step_after(2)] step_after(3) step_after(4)]]) simp
  next
    case (step_drain i f gs1 rep gs2)
    show ?thesis unfolding step_drain(1)
      by (rule keep [OF step_drain(2) _ flight_ok_drain [OF fo [OF step_drain(2)] step_drain(3) step_drain(4)]]) simp
  next
    case (step_decide i f tg mr drp delay rn st)
    show ?thesis unfolding step_decide(1)
      by (rule move [OF step_decide(2) _ flight_ok_decide [OF fo [OF step_decide(2)] step_decide(3,4)]]) simp
  next
    case (step_delayed i f rep)
    have "flight_ok (wd_execs s) i (f\<lparr>fl_state := Replied rep\<rparr>)"
      using fo [OF step_delayed(2)] step_delayed(3) by (auto simp: flight_ok_def left_behind_def)
    then show ?thesis unfolding step_delayed(1) by (intro move [OF step_delayed(2)]) simp_all
  qed
qed

section \<open>Dispatch\<close>

lemma last_index_append:
  "CHR ''.'' \<notin> set m \<Longrightarrow> last_index (CHR ''.'') i found (s @ CHR ''.'' # m) = i + int (length s)"
proof (induction s arbitrary: i found)
  case Nil
  have "last_index (CHR ''.'') j k m = k" for j k
    using Nil by (induction m arbitrary: j) auto
  then show ?case by simp
qed (simp add: ac_simps)

lemma Server_dispatch_run:
  assumes "rq_svcMeth req = svc @ ''.'' @ meth" and "CHR ''.'' \<notin> set meth"
    and "sr_services rs svc = Some sv" and "sv_methods sv meth = Some m"
  shows "Server_dispatch cd req rs =
    go_bind (mt_Func m (sr_host rs) (fst (cd_dec cd (rq_args req) (cd_zero cd (rq_argsType req))))
        (cd_zero cd (mt_In2 m))) (\<lambda>(host', v).
      Inr (rs\<lparr>sr_count := sr_count rs + 1, sr_host := host'\<rparr>, \<lparr>rp_ok = True, rp_reply = fst (cd_enc cd v)\<rparr>))"
proof -
  have "LastIndex (rq_svcMeth req) (CHR ''.'') = int (length svc)"
    using assms(1,2) by (simp add: LastIndex_def last_index_append)
  then show ?thesis
    using assms
    by (auto simp: Server_dispatch_def Service_dispatch_def Let_def go_upto_in go_from_in nat_add_distrib go_bind_assoc
        intro!: go_bind_cong split: prod.split)
qed

lemma add_methods_other: "m \<notin> mt_Name ` set ms \<Longrightarrow> add_methods ms M m = M m"
  by (induction ms arbitrary: M) auto

lemma add_methods_lookup:
  assumes "distinct (map mt_Name ms)"
  shows "add_methods ms M name =
    (case find (\<lambda>m. mt_Name m = name \<and> handler_method m) ms of Some m \<Rightarrow> Some m | None \<Rightarrow> M name)"
  using assms
proof (induction ms arbitrary: M)
  case (Cons m ms)
  have "find (\<lambda>m. mt_Name m = name \<and> handler_method m) ms = None" if "mt_Name m = name"
    using Cons.prems that unfolding find_None_iff by (simp add: image_iff) metis
  then show ?case using Cons by (auto split: option.split)
qed simp

section \<open>Properties\<close>

text \<open>A goroutine that runs a handler or offers its result.\<close>

definition handler_go :: "goroutine \<Rightarrow> bool" where
  "handler_go g \<longleftrightarrow> g \<noteq> Draining"

text \<open>
  C24. At most once, and only true answers. In every run of the network, with requests and replies
  dropped, delayed and reordered, ends enabled and disabled and servers added and deleted at any
  time: no request is executed twice, although the goroutine that executes it goes on after
  \<open>processReq\<close> has given up; a call that gets a positive reply was executed, by a server in the
  recorded state, and the reply is what its dispatch returned; and once the reply is out, at most
  one goroutine of the handler is left, and exactly then one that drains its channel.
\<close>

theorem network_at_most_once:
  fixes w :: "('n, 'm, 's, 'v) world"
  assumes "reaches net_init (net_step cd) w"
  shows "distinct (map fst (wd_execs w)) \<and>
    (\<forall>i f rep. wd_flights w i = Some f \<and> fl_state f = Replied rep \<longrightarrow>
       (rp_ok rep \<longrightarrow> (\<exists>pre post. (i, pre, rep) \<in> set (wd_execs w) \<and>
          Server_dispatch cd (fl_req f) pre = Inr (post, rep))) \<and>
       length (filter handler_go (fl_gos f)) = length (filter (\<lambda>g. \<not> handler_go g) (fl_gos f)) \<and>
       length (fl_gos f) \<le> 2)"
proof -
  have inv: "net_inv cd w" using assms by (rule lnet.invar_reaches)
  show ?thesis
  proof (intro conjI allI impI; (elim conjE)?)
    show "distinct (map fst (wd_execs w))" using inv by (simp add: net_inv_def)
    fix i f rep assume f: "wd_flights w i = Some f" "fl_state f = Replied rep"
    note fo = net_inv_flight [OF inv f(1)]
    then have "left_behind (fl_gos f)" using f(2) by (simp add: flight_ok_def)
    then show "length (filter handler_go (fl_gos f)) = length (filter (\<lambda>g. \<not> handler_go g) (fl_gos f))"
      and "length (fl_gos f) \<le> 2" by (auto simp: left_behind_def handler_go_def)
    assume "rp_ok rep"
    then have "rep \<in> state_results (fl_state f)" using f(2) by (auto simp: fail_reply_def)
    then obtain pre where e: "(i, pre, rep) \<in> set (wd_execs w)"
      using fo unfolding flight_ok_def by blast
    then have "exec_ok cd w (i, pre, rep)" using inv unfolding net_inv_def by blast
    then show "\<exists>pre post. (i, pre, rep) \<in> set (wd_execs w) \<and> Server_dispatch cd (fl_req f) pre = Inr (post, rep)"
      using e f(1) by (auto simp: exec_ok_def)
  qed
qed

text \<open>A request whose end is enabled and connected to a server that has the method.\<close>

definition reachable_method ::
  "'v codec \<Rightarrow> ('n, 'm, 's, 'v) world \<Rightarrow> 'n reqMsg \<Rightarrow> nat \<Rightarrow> ('s, 'v) Method \<Rightarrow> bool" where
  "reachable_method cd w req a m \<longleftrightarrow>
     nw_enabled (wd_net w) (rq_endname req) \<and>
     (\<exists>sn svc meth sv. nw_connections (wd_net w) (rq_endname req) = Some sn \<and> nw_servers (wd_net w) sn = Some a \<and>
        rq_svcMeth req = svc @ ''.'' @ meth \<and> CHR ''.'' \<notin> set meth \<and>
        sr_services (wd_store w a) svc = Some sv \<and> sv_methods sv meth = Some m)"

lemma reliable_run:
  fixes w :: "('n, 'm, 's, 'v) world"
  assumes f: "wd_flights w i = Some \<lparr>fl_req = req, fl_state = Sent, fl_gos = []\<rparr>"
    and net: "nw_reliable (wd_net w)" "\<not> nw_longReordering (wd_net w)" and m: "reachable_method cd w req a m"
    and h: "mt_Func m (sr_host (wd_store w a)) (fst (cd_dec cd (rq_args req) (cd_zero cd (rq_argsType req))))
      (cd_zero cd (mt_In2 m)) = Inr (host', v)"
  shows "\<exists>w' f'. (net_step cd)\<^sup>*\<^sup>* w w' \<and> wd_flights w' i = Some f' \<and>
    fl_state f' = Replied \<lparr>rp_ok = True, rp_reply = fst (cd_enc cd v)\<rparr> \<and>
    wd_store w' = (wd_store w)(a := (wd_store w a)\<lparr>sr_count := sr_count (wd_store w a) + 1, sr_host := host'\<rparr>)"
proof -
  obtain sn svc meth sv where en: "nw_enabled (wd_net w) (rq_endname req)"
    "nw_connections (wd_net w) (rq_endname req) = Some sn" "nw_servers (wd_net w) sn = Some a"
    and d: "rq_svcMeth req = svc @ ''.'' @ meth" "CHR ''.'' \<notin> set meth"
      "sr_services (wd_store w a) svc = Some sv" "sv_methods sv meth = Some m"
    using m unfolding reachable_method_def by blast
  define rep where "rep = \<lparr>rp_ok = True, rp_reply = fst (cd_enc cd v)\<rparr>"
  define rs where "rs = (wd_store w a)\<lparr>sr_count := sr_count (wd_store w a) + 1, sr_host := host'\<rparr>"
  have disp: "Server_dispatch cd req (wd_store w a) = Inr (rs, rep)"
    using Server_dispatch_run [OF d, of cd] h by (simp add: rs_def rep_def)
  define tg where "tg = \<lparr>tg_servername = sn, tg_server = a, tg_reliable = True, tg_longreordering = False\<rparr>"
  define rn where "rn = acceptReq req (wd_net w)"
  define g :: "'m req_state \<Rightarrow> goroutine list \<Rightarrow> ('n, 'm) flight"
    where "g = (\<lambda>st gs. \<lparr>fl_req = req, fl_state = st, fl_gos = gs\<rparr>)"
  define at where "at = (\<lambda>st gs. set_flight i (g st gs) (w\<lparr>wd_net := rn\<rparr>))"
  define ran where "ran = (\<lambda>st gs. set_flight i (g st gs)
    (w\<lparr>wd_net := rn, wd_store := (wd_store w)(a := rs), wd_execs := wd_execs w @ [(i, wd_store w a, rep)]\<rparr>))"
  have "net_step cd w (at Accepted [])"
    using step_accept [of w i _ cd, OF f] by (simp add: at_def g_def rn_def)
  moreover have "net_step cd (at Accepted []) (at (Chosen tg) [])"
    using step_begin [of "at Accepted []" i "g Accepted []" cd] en net
    by (simp add: at_def g_def set_flight_def processReq_begin_def readEndnameInfo_def rn_def acceptReq_def tg_def)
  moreover have "net_step cd (at (Chosen tg) []) (at (Waiting tg) [Dispatching a])"
    using step_execute [of "at (Chosen tg) []" i "g (Chosen tg) []" tg 0 "Waiting tg" "[Dispatching a]" cd]
    by (simp add: at_def g_def set_flight_def processReq_execute_def tg_def)
  moreover have "net_step cd (at (Waiting tg) [Dispatching a]) (ran (Waiting tg) [Sending rep])"
    using step_dispatch [of "at (Waiting tg) [Dispatching a]" i "g (Waiting tg) [Dispatching a]" "[]" a "[]" cd rs rep] disp
    by (simp add: at_def ran_def g_def set_flight_def)
  moreover have "net_step cd (ran (Waiting tg) [Sending rep]) (ran (Deciding tg (Some rep)) [])"
    using step_receive [of "ran (Waiting tg) [Sending rep]" i "g (Waiting tg) [Sending rep]" tg "[]" rep "[]"
        "Deciding tg (Some rep)" "[]" cd]
    by (simp add: ran_def g_def set_flight_def processReq_wait_def)
  moreover have "net_step cd (ran (Deciding tg (Some rep)) []) ((ran (Replied rep) [])\<lparr>wd_net := count_bytes rep rn\<rparr>)"
  proof -
    let ?d = "ran (Deciding tg (Some rep)) []" and ?f = "g (Deciding tg (Some rep)) []"
    have "processReq_decide 0 0 req tg (Some rep) rn = (count_bytes rep rn, Replied rep)"
      using en by (simp add: processReq_decide_def isServerDead_def tg_def rn_def acceptReq_def)
    then have "net_step cd ?d (set_flight i (?f\<lparr>fl_state := Replied rep\<rparr>) (?d\<lparr>wd_net := count_bytes rep rn\<rparr>))"
      by (intro step_decide [where tg = tg and mr = "Some rep" and drp = 0 and delay = 0])
        (simp_all add: ran_def g_def set_flight_def)
    moreover have "set_flight i (?f\<lparr>fl_state := Replied rep\<rparr>) (?d\<lparr>wd_net := count_bytes rep rn\<rparr>) =
        (ran (Replied rep) [])\<lparr>wd_net := count_bytes rep rn\<rparr>"
      by (rule world.equality) (simp_all add: ran_def g_def set_flight_def)
    ultimately show ?thesis by simp
  qed
  ultimately have "(net_step cd)\<^sup>*\<^sup>* w ((ran (Replied rep) [])\<lparr>wd_net := count_bytes rep rn\<rparr>)"
    by (meson converse_rtranclp_into_rtranclp rtranclp.rtrancl_refl)
  then show ?thesis
    by (intro exI [of _ "(ran (Replied rep) [])\<lparr>wd_net := count_bytes rep rn\<rparr>"]
        exI [of _ "g (Replied rep) []"])
      (simp add: ran_def g_def set_flight_def rep_def rs_def)
qed

text \<open>What the calls rely on of \<open>gob\<close>: a value of a set that encodes without an error decodes, into
  the zero value of its type, to itself.\<close>

definition codec_ok :: "'v codec \<Rightarrow> 'v set \<Rightarrow> bool" where
  "codec_ok cd vals \<longleftrightarrow>
     (\<forall>v \<in> vals. \<exists>bs. cd_enc cd v = (bs, True) \<and> cd_dec cd bs (cd_zero cd (cd_typeOf cd v)) = (v, True))"

lemma codec_okD:
  assumes "codec_ok cd vals" and "v \<in> vals"
  shows "cd_enc cd v = (fst (cd_enc cd v), True)"
    and "cd_dec cd (fst (cd_enc cd v)) (cd_zero cd (cd_typeOf cd v)) = (v, True)"
  using assms by (auto simp: codec_ok_def)

lemma Call_request_ok:
  assumes "codec_ok cd vals" and "v \<in> vals"
  shows "Call_request cd e sm v =
    Inr \<lparr>rq_endname = e, rq_svcMeth = sm, rq_argsType = cd_typeOf cd v, rq_args = fst (cd_enc cd v)\<rparr>"
  using codec_okD(1) [OF assms] by (cases "cd_enc cd v") (simp add: Call_request_def)

lemma Call_result_ok:
  assumes "codec_ok cd vals" and "v \<in> vals"
  shows "Call_result cd \<lparr>rp_ok = True, rp_reply = fst (cd_enc cd v)\<rparr> (cd_zero cd (cd_typeOf cd v)) = Inr (True, v)"
  using codec_okD(2) [OF assms] by (simp add: Call_result_def)

text \<open>
  C25. Calls on a reliable network. When the network is reliable and does not reorder, the end is
  enabled and connected to a registered server, that server has the method, and the method
  returns a reply of its reply type, a call that was just sent can complete: the handler runs
  once on the decoded argument, the server counts one call, and \<open>Call\<close> returns true with what the
  handler wrote into the reply.
\<close>

theorem reliable_call_returns:
  assumes req: "Call_request cd e sm args = Inr req"
    and f: "wd_flights w i = Some \<lparr>fl_req = req, fl_state = Sent, fl_gos = []\<rparr>"
    and net: "nw_reliable (wd_net w)" "\<not> nw_longReordering (wd_net w)"
    and m: "reachable_method cd w req a m"
    and codec: "codec_ok cd {args, v}"
    and h: "mt_Func m (sr_host (wd_store w a)) args (cd_zero cd (mt_In2 m)) = Inr (host', v)" "cd_typeOf cd v = mt_In2 m"
  shows "\<exists>w' f' rep. (net_step cd)\<^sup>*\<^sup>* w w' \<and> wd_flights w' i = Some f' \<and> fl_state f' = Replied rep \<and>
    Call_result cd rep (cd_zero cd (mt_In2 m)) = Inr (True, v) \<and> sr_host (wd_store w' a) = host' \<and>
    Server_GetCount (wd_store w' a) = Server_GetCount (wd_store w a) + 1"
proof -
  have "fst (cd_dec cd (rq_args req) (cd_zero cd (rq_argsType req))) = args"
    using req codec_okD(2) [OF codec, of args] by (auto simp: Call_request_ok [OF codec])
  then have "mt_Func m (sr_host (wd_store w a)) (fst (cd_dec cd (rq_args req) (cd_zero cd (rq_argsType req))))
      (cd_zero cd (mt_In2 m)) = Inr (host', v)"
    using h(1) by simp
  from reliable_run [OF f net m this] obtain w' f' where run: "(net_step cd)\<^sup>*\<^sup>* w w'" "wd_flights w' i = Some f'"
    "fl_state f' = Replied \<lparr>rp_ok = True, rp_reply = fst (cd_enc cd v)\<rparr>"
    "wd_store w' = (wd_store w)(a := (wd_store w a)\<lparr>sr_count := sr_count (wd_store w a) + 1, sr_host := host'\<rparr>)"
    by blast
  then show ?thesis
    using Call_result_ok [OF codec, of v] h(2)
    by (intro exI [of _ w'] exI [of _ f'] exI [of _ "\<lparr>rp_ok = True, rp_reply = fst (cd_enc cd v)\<rparr>"])
      (simp add: Server_GetCount_def)
qed

text \<open>An echo service on one server, and a request to it.\<close>

definition sample_codec :: "byte list codec" where
  "sample_codec = \<lparr>cd_enc = (\<lambda>v. (v, True)), cd_dec = (\<lambda>b z. (if b = [] then z else b, True)),
     cd_typeOf = (\<lambda>_. ''[]byte''), cd_zero = (\<lambda>_. [])\<rparr>"

definition sample_echo :: "(nat, byte list) Method" where
  "sample_echo = \<lparr>mt_Name = ''Echo'', mt_PkgPath = '''', mt_NumIn = 3, mt_In2_ptr = True, mt_In2 = ''[]byte'',
     mt_NumOut = 0, mt_Func = (\<lambda>h args reply. Inr (h + 1, args))\<rparr>"

definition sample_server :: "(nat, byte list) Server" where
  "sample_server = AddService (MakeService ''Host'' [sample_echo]) (MakeServer 0)"

definition sample_request :: "nat reqMsg" where
  "sample_request = \<lparr>rq_endname = 0, rq_svcMeth = ''Host.Echo'', rq_argsType = ''[]byte'', rq_args = [7]\<rparr>"

definition sample_net :: "(nat, nat) Network" where
  "sample_net = Enable 0 True (Connect 0 9 (AddServer 9 1 MakeNetwork))"

definition sample_start :: "(nat, nat, nat, byte list) world" where
  "sample_start = \<lparr>wd_net = MakeNetwork, wd_store = (\<lambda>_. sample_server), wd_flights = Map.empty, wd_execs = []\<rparr>"

definition sample_world :: "(nat, nat, nat, byte list) world" where
  "sample_world = set_flight 0 \<lparr>fl_req = sample_request, fl_state = Sent, fl_gos = []\<rparr>
     (sample_start\<lparr>wd_net := sample_net\<rparr>)"

lemma sample_codec_ok: "codec_ok sample_codec vals"
  by (simp add: codec_ok_def sample_codec_def)

lemma sample_call: "Call_request sample_codec 0 ''Host.Echo'' [7] = Inr sample_request"
  by (simp add: Call_request_def sample_codec_def sample_request_def)

lemma sample_net_fields:
  "nw_reliable sample_net" "\<not> nw_longReordering sample_net" "\<not> nw_done sample_net" "nw_enabled sample_net 0"
  "nw_connections sample_net 0 = Some 9" "nw_servers sample_net 9 = Some 1"
  by (simp_all add: sample_net_def Enable_def Connect_def AddServer_def MakeNetwork_def)

lemma sample_flight:
  "wd_flights sample_world 0 = Some \<lparr>fl_req = sample_request, fl_state = Sent, fl_gos = []\<rparr>"
  "wd_net sample_world = sample_net" "wd_store sample_world = (\<lambda>_. sample_server)"
  by (simp_all add: sample_world_def sample_start_def set_flight_def)

lemma sample_method: "reachable_method sample_codec sample_world sample_request 1 sample_echo"
proof -
  have "sr_services sample_server ''Host'' = Some (MakeService ''Host'' [sample_echo])"
    "sv_methods (MakeService ''Host'' [sample_echo]) ''Echo'' = Some sample_echo"
    "rq_svcMeth sample_request = ''Host'' @ ''.'' @ ''Echo''"
    by (simp_all add: sample_server_def AddService_def MakeServer_def MakeService_def handler_method_def
        sample_echo_def sample_request_def)
  moreover have "CHR ''.'' \<notin> set ''Echo''" "rq_endname sample_request = 0"
    by (simp_all add: sample_request_def)
  ultimately show ?thesis
    unfolding reachable_method_def sample_flight using sample_net_fields by metis
qed

lemma sample_echo_run:
  "mt_Func sample_echo (sr_host (wd_store sample_world 1)) [7] (cd_zero sample_codec (mt_In2 sample_echo)) = Inr (1, [7])"
  "cd_typeOf sample_codec [7] = mt_In2 sample_echo"
  unfolding sample_flight
  by (simp_all add: sample_echo_def sample_server_def AddService_def MakeServer_def sample_codec_def)

theorem reliable_call_returns_witness:
  "\<exists>w' f' rep. (net_step sample_codec)\<^sup>*\<^sup>* sample_world w' \<and> wd_flights w' 0 = Some f' \<and>
     fl_state f' = Replied rep \<and> Call_result sample_codec rep [] = Inr (True, [7])"
proof -
  have "cd_zero sample_codec (mt_In2 sample_echo) = []" by (simp add: sample_codec_def)
  then show ?thesis
    using reliable_call_returns [OF sample_call sample_flight(1) _ _ sample_method sample_codec_ok sample_echo_run]
    unfolding sample_flight using sample_net_fields by auto
qed

lemma sample_reached: "reaches net_init (net_step sample_codec) sample_world"
proof -
  let ?a = "\<lambda>rn. sample_start\<lparr>wd_net := rn\<rparr>"
  let ?n1 = "AddServer 9 1 MakeNetwork :: (nat, nat) Network" and ?n2 = "Connect 0 9 (AddServer 9 1 MakeNetwork) :: (nat, nat) Network"
  have "net_init sample_start" by (simp add: net_init_def sample_start_def)
  then have "reaches net_init (net_step sample_codec) sample_start" by (rule reaches_init)
  then have "reaches net_init (net_step sample_codec) (?a ?n1)"
    by (rule reaches_step) (rule step_admin, simp add: sample_start_def net_admin.intros)
  then have "reaches net_init (net_step sample_codec) ((?a ?n1)\<lparr>wd_net := ?n2\<rparr>)"
    by (rule reaches_step) (rule step_admin, simp add: net_admin.intros)
  then have "reaches net_init (net_step sample_codec) (((?a ?n1)\<lparr>wd_net := ?n2\<rparr>)\<lparr>wd_net := sample_net\<rparr>)"
    by (rule reaches_step) (rule step_admin, simp add: sample_net_def net_admin.intros)
  then have "reaches net_init (net_step sample_codec) (?a sample_net)" by simp
  then show ?thesis unfolding sample_world_def
    by (rule reaches_step) (rule step_send, simp_all add: sample_start_def sample_net_fields)
qed

theorem network_at_most_once_witness:
  "\<exists>w f rep pre post. wd_flights w 0 = Some f \<and> fl_state f = Replied rep \<and> rp_ok rep \<and>
     (0, pre, rep) \<in> set (wd_execs w) \<and> Server_dispatch sample_codec (fl_req f) pre = Inr (post, rep) \<and>
     (net_step sample_codec)\<^sup>*\<^sup>* sample_world w"
proof -
  have "fst (cd_dec sample_codec (rq_args sample_request) (cd_zero sample_codec (rq_argsType sample_request))) = [7]"
    by (simp add: sample_request_def sample_codec_def)
  then have "mt_Func sample_echo (sr_host (wd_store sample_world 1)) (fst (cd_dec sample_codec (rq_args sample_request)
      (cd_zero sample_codec (rq_argsType sample_request)))) (cd_zero sample_codec (mt_In2 sample_echo)) = Inr (1, [7])"
    using sample_echo_run(1) by simp
  from reliable_run [OF sample_flight(1) _ _ sample_method this] sample_net_fields
  obtain w f where w: "(net_step sample_codec)\<^sup>*\<^sup>* sample_world w" "wd_flights w 0 = Some f"
    "fl_state f = Replied \<lparr>rp_ok = True, rp_reply = fst (cd_enc sample_codec [7])\<rparr>"
    unfolding sample_flight by blast
  have "reaches net_init (net_step sample_codec) w" using w(1) sample_reached by (rule reaches_rtranclp)
  from network_at_most_once [OF this] w show ?thesis by fastforce
qed

end
