(* ===== verification/Raft_Rpc.thy ===== *)
theory Raft_Rpc
  imports Raft_Snapshot Labrpc
begin

text \<open>
  How the peers of \<open>raft/raft.go\<close> call each other over \<open>labrpc/labrpc.go\<close>: a peer as a service of
  a server, the three remote calls, and the wait for their replies with its time limit.

  The handlers of \<open>Raft_Election\<close>, \<open>Raft_Replication\<close> and \<open>Raft_Snapshot\<close> are methods of the
  service \<open>Raft\<close>, found by name. What their server holds is the peer and the calls of \<open>doSnapshot\<close>
  that \<open>InstallSnapshot\<close> started. A handler that panics ends the process, so its dispatch has no
  reply. \<open>gob\<close> is the codec of \<open>Labrpc\<close> on the values that these calls exchange.
\<close>

section \<open>The service of a peer\<close>

datatype 'c rpc_value =
    RVArgs RequestVoteArgs | RVReply RequestVoteReply
  | AEArgs "'c AppendEntriesArgs" | AEReply AppendEntriesReply
  | ISArgs InstallsnapshotArgs | ISReply InstallsnapshotReply

fun rpc_type :: "'c rpc_value \<Rightarrow> string" where
  "rpc_type (RVArgs _) = ''RequestVoteArgs''"
| "rpc_type (RVReply _) = ''RequestVoteReply''"
| "rpc_type (AEArgs _) = ''AppendEntriesArgs''"
| "rpc_type (AEReply _) = ''AppendEntriesReply''"
| "rpc_type (ISArgs _) = ''InstallsnapshotArgs''"
| "rpc_type (ISReply _) = ''InstallsnapshotReply''"

record 'c raft_host =
  rh_rf :: "'c raft"
  rh_spawned :: "(int \<times> byte list) list"

type_synonym 'c raft_method = "('c raft_host, 'c rpc_value) Method"
type_synonym 'c raft_handler =
  "'c raft_host \<Rightarrow> 'c rpc_value \<Rightarrow> 'c rpc_value \<Rightarrow> ('c raft_host \<times> 'c rpc_value) go"

text \<open>A method that takes two arguments, the second a pointer, and returns nothing.\<close>

definition rpc_handler :: "string \<Rightarrow> string \<Rightarrow> 'c raft_handler \<Rightarrow> 'c raft_method" where
  "rpc_handler name reply f =
     \<lparr>mt_Name = name, mt_PkgPath = '''', mt_NumIn = 3, mt_In2_ptr = True, mt_In2 = reply, mt_NumOut = 0,
      mt_Func = f\<rparr>"

text \<open>Any other exported method: the numbers of its parameters (the receiver included) and of
  its results. None has the form of a handler, so the network never calls it.\<close>

definition other_method :: "string \<Rightarrow> int \<Rightarrow> int \<Rightarrow> 'c raft_method" where
  "other_method name ins outs =
     \<lparr>mt_Name = name, mt_PkgPath = '''', mt_NumIn = ins, mt_In2_ptr = False, mt_In2 = '''', mt_NumOut = outs,
      mt_Func = (\<lambda>h v r. Inl TypeAssertion)\<rparr>"

text \<open>The handlers as reflection calls them: a value of another type than the declared one panics.\<close>

definition RequestVote_rpc :: "int \<Rightarrow> int \<Rightarrow> 'c raft_handler" where
  "RequestVote_rpc now rnd h v r =
     (case v of
        RVArgs args \<Rightarrow>
          (case RequestVote now rnd args (rh_rf h) of (rf', rep) \<Rightarrow> Inr (h\<lparr>rh_rf := rf'\<rparr>, RVReply rep))
      | _ \<Rightarrow> Inl TypeAssertion)"

definition AppendEntries_rpc :: "int \<Rightarrow> int \<Rightarrow> 'c raft_handler" where
  "AppendEntries_rpc now rnd h v r =
     (case v of
        AEArgs args \<Rightarrow>
          go_bind (AppendEntries now rnd args (rh_rf h)) (\<lambda>(rf', rep). Inr (h\<lparr>rh_rf := rf'\<rparr>, AEReply rep))
      | _ \<Rightarrow> Inl TypeAssertion)"

definition InstallSnapshot_rpc :: "int \<Rightarrow> int \<Rightarrow> 'c raft_handler" where
  "InstallSnapshot_rpc now rnd h v r =
     (case v of
        ISArgs args \<Rightarrow>
          go_bind (InstallSnapshot now rnd args (rh_rf h)) (\<lambda>(rf', rep, sp).
            Inr (h\<lparr>rh_rf := rf', rh_spawned := rh_spawned h @ (case sp of None \<Rightarrow> [] | Some c \<Rightarrow> [c])\<rparr>,
                 ISReply rep))
      | _ \<Rightarrow> Inl TypeAssertion)"

text \<open>The exported methods of \<open>*Raft\<close>, in the order of reflection.\<close>

definition raft_methods :: "int \<Rightarrow> int \<Rightarrow> 'c raft_method list" where
  "raft_methods now rnd =
     [rpc_handler ''AppendEntries'' ''AppendEntriesReply'' (AppendEntries_rpc now rnd), other_method ''ApplyMsgSender'' 1 0,
      other_method ''CondInstallSnapshot'' 4 1, other_method ''GetState'' 1 2,
      rpc_handler ''InstallSnapshot'' ''InstallsnapshotReply'' (InstallSnapshot_rpc now rnd),
      other_method ''InstallSnapshotSender'' 4 0, other_method ''Kill'' 1 0,
      rpc_handler ''RequestVote'' ''RequestVoteReply'' (RequestVote_rpc now rnd), other_method ''Snapshot'' 3 0,
      other_method ''Start'' 2 3]"

definition raft_service :: "int \<Rightarrow> int \<Rightarrow> ('c raft_host, 'c rpc_value) Service" where
  "raft_service now rnd = MakeService ''Raft'' (raft_methods now rnd)"

definition raft_rpc_server :: "int \<Rightarrow> int \<Rightarrow> 'c raft \<Rightarrow> ('c raft_host, 'c rpc_value) Server" where
  "raft_rpc_server now rnd rf =
     AddService (raft_service now rnd) (MakeServer \<lparr>rh_rf = rf, rh_spawned = []\<rparr>)"

section \<open>The calls\<close>

text \<open>\<open>replyCh\<close> is what the network sends back for a request.\<close>

type_synonym ('n, 'c) send =
  "'c rpc_value codec \<Rightarrow> bool \<Rightarrow> 'n \<Rightarrow> ('n reqMsg \<Rightarrow> replyMsg) \<Rightarrow> 'c rpc_value \<Rightarrow> (bool \<times> 'c rpc_value) go"

definition sendRequestVote :: "RequestVoteArgs \<Rightarrow> ('n, 'c) send" where
  "sendRequestVote args cd destroyed server replyCh reply =
     ClientEnd_Call cd destroyed server ''Raft.RequestVote'' (RVArgs args) replyCh reply"

definition sendAppendEntries :: "'c AppendEntriesArgs \<Rightarrow> ('n, 'c) send" where
  "sendAppendEntries args cd destroyed server replyCh reply =
     ClientEnd_Call cd destroyed server ''Raft.AppendEntries'' (AEArgs args) replyCh reply"

definition sendInstallSnapshot :: "InstallsnapshotArgs \<Rightarrow> ('n, 'c) send" where
  "sendInstallSnapshot args cd destroyed server replyCh reply =
     ClientEnd_Call cd destroyed server ''Raft.InstallSnapshot'' (ISArgs args) replyCh reply"

text \<open>
  The wait for a reply. The goroutine that calls starts at \<open>start\<close> and, when the call returns
  \<open>ok\<close> after \<open>took\<close> milliseconds (never, if it is \<open>None\<close>), offers the result on the channel unless
  the limit has passed on its own clock. The caller armed its timer at \<open>armed\<close>; \<open>tie\<close> is the
  choice of \<open>select\<close> when both are ready.
\<close>

definition RPCTimeout :: int where
  "RPCTimeout = 150"

definition rpc_offer :: "int \<Rightarrow> int option \<Rightarrow> bool \<Rightarrow> (int \<times> bool) option" where
  "rpc_offer start took ok =
     (case took of
        None \<Rightarrow> None
      | Some d \<Rightarrow> if d < RPCTimeout then Some (start + d, ok) else None)"

definition rpc_received :: "bool \<Rightarrow> int \<Rightarrow> (int \<times> bool) option \<Rightarrow> bool" where
  "rpc_received tie armed offer =
     (case offer of
        None \<Rightarrow> False
      | Some (t, ok) \<Rightarrow> t < armed + RPCTimeout \<or> t = armed + RPCTimeout \<and> tie)"

definition rpc_select :: "bool \<Rightarrow> int \<Rightarrow> (int \<times> bool) option \<Rightarrow> bool" where
  "rpc_select tie armed offer = (if rpc_received tie armed offer then snd (the offer) else False)"

definition electionSender_wait :: "bool \<Rightarrow> int \<Rightarrow> int \<Rightarrow> int option \<Rightarrow> bool \<Rightarrow> bool" where
  "electionSender_wait tie armed start took ok = rpc_select tie armed (rpc_offer start took ok)"

text \<open>The other two senders repeat the text.\<close>

definition appendRPCWorker_wait :: "bool \<Rightarrow> int \<Rightarrow> int \<Rightarrow> int option \<Rightarrow> bool \<Rightarrow> bool" where
  "appendRPCWorker_wait tie armed start took ok = rpc_select tie armed (rpc_offer start took ok)"

definition InstallSnapshotSender_wait :: "bool \<Rightarrow> int \<Rightarrow> int \<Rightarrow> int option \<Rightarrow> bool \<Rightarrow> bool" where
  "InstallSnapshotSender_wait tie armed start took ok = rpc_select tie armed (rpc_offer start took ok)"

text \<open>The channel has no buffer: an offer that is not received blocks its goroutine for good.\<close>

definition rpc_leaks :: "bool \<Rightarrow> int \<Rightarrow> int \<Rightarrow> int option \<Rightarrow> bool \<Rightarrow> bool" where
  "rpc_leaks tie armed start took ok \<longleftrightarrow>
     rpc_offer start took ok \<noteq> None \<and> \<not> rpc_received tie armed (rpc_offer start took ok)"

section \<open>Properties\<close>

text \<open>Of the exported methods exactly the three handlers have the form of a remote call.\<close>

lemma raft_service_methods:
  "sv_methods (raft_service now rnd) =
     [''AppendEntries'' \<mapsto> rpc_handler ''AppendEntries'' ''AppendEntriesReply'' (AppendEntries_rpc now rnd),
      ''InstallSnapshot'' \<mapsto> rpc_handler ''InstallSnapshot'' ''InstallsnapshotReply'' (InstallSnapshot_rpc now rnd),
      ''RequestVote'' \<mapsto> rpc_handler ''RequestVote'' ''RequestVoteReply'' (RequestVote_rpc now rnd)]"
  by (simp add: raft_service_def MakeService_def raft_methods_def handler_method_def rpc_handler_def other_method_def)

text \<open>
  A call that is dispatched at a server: \<open>h\<close> is what the handler does there. Either it returns,
  and the call returns true with its reply, or it panics, and so does the dispatch.
\<close>

definition call_runs ::
  "'c rpc_value codec \<Rightarrow> ('n, 'c) send \<Rightarrow> 'n \<Rightarrow> string \<Rightarrow> 'c rpc_value \<Rightarrow> string \<Rightarrow>
   ('c raft_host, 'c rpc_value) Server \<Rightarrow> ('c raft_host \<times> 'c rpc_value) go \<Rightarrow> bool" where
  "call_runs cd send e svcMeth args reply rs h \<longleftrightarrow>
     (\<exists>req. Call_request cd e svcMeth args = Inr req \<and>
        (case h of
           Inl err \<Rightarrow> Server_dispatch cd req rs = Inl err
         | Inr (host', v) \<Rightarrow>
             \<exists>rep. Server_dispatch cd req rs = Inr (rs\<lparr>sr_count := sr_count rs + 1, sr_host := host'\<rparr>, rep) \<and>
               send cd False e (\<lambda>r. if r = req then rep else fail_reply) (cd_zero cd reply) = Inr (True, v)))"

lemma call_runs_method:
  assumes srv: "sr_services rs ''Raft'' = Some (raft_service now rnd)"
    and meth: "CHR ''.'' \<notin> set m" "sv_methods (raft_service now rnd) m = Some (rpc_handler m reply f)"
    and send: "\<And>d replyCh z. send cd d e replyCh z = ClientEnd_Call cd d e (''Raft.'' @ m) args replyCh z"
    and codec: "codec_ok cd vals" "args \<in> vals" "cd_typeOf cd = rpc_type"
    and h: "f (sr_host rs) args (cd_zero cd reply) = h"
      "\<And>host' v. h = Inr (host', v) \<Longrightarrow> v \<in> vals \<and> rpc_type v = reply"
  shows "call_runs cd send e (''Raft.'' @ m) args reply rs h"
proof -
  define req where "req = \<lparr>rq_endname = e, rq_svcMeth = ''Raft.'' @ m, rq_argsType = cd_typeOf cd args,
    rq_args = fst (cd_enc cd args)\<rparr>"
  have req: "Call_request cd e (''Raft.'' @ m) args = Inr req"
    using Call_request_ok [OF codec(1,2)] by (simp add: req_def)
  have "fst (cd_dec cd (rq_args req) (cd_zero cd (rq_argsType req))) = args"
    using codec_okD(2) [OF codec(1,2)] by (simp add: req_def)
  then have disp: "Server_dispatch cd req rs = go_bind h (\<lambda>(host', v).
      Inr (rs\<lparr>sr_count := sr_count rs + 1, sr_host := host'\<rparr>, \<lparr>rp_ok = True, rp_reply = fst (cd_enc cd v)\<rparr>))"
    using Server_dispatch_run [of req "''Raft''" m rs "raft_service now rnd" "rpc_handler m reply f" cd] srv meth h(1)
    by (simp add: req_def rpc_handler_def)
  show ?thesis
  proof (cases h)
    case (Inl err)
    then show ?thesis using req disp by (simp add: call_runs_def)
  next
    case (Inr r)
    obtain host' v where r: "r = (host', v)" by (cases r)
    then have "v \<in> vals" "cd_typeOf cd v = reply" using h(2) Inr codec(3) by auto
    then have "Call_result cd \<lparr>rp_ok = True, rp_reply = fst (cd_enc cd v)\<rparr> (cd_zero cd reply) = Inr (True, v)"
      using Call_result_ok [OF codec(1)] by metis
    then show ?thesis
      using req disp unfolding Inr r by (simp add: call_runs_def send ClientEnd_Call_def)
  qed
qed

text \<open>
  C34. The remote calls reach the handlers. When a peer calls \<open>sendRequestVote\<close>,
  \<open>sendAppendEntries\<close> or \<open>sendInstallSnapshot\<close> with a fresh reply and its request is dispatched at
  the server of another peer, that peer's handler runs on exactly the arguments sent: the peer's
  state becomes what the handler makes it, and the call returns true with the reply that the
  handler wrote; and when \<open>AppendEntries\<close> panics, the dispatch panics with its reason and there is
  no reply. This needs of \<open>gob\<close> that the arguments and the reply, decoded into zero values of their
  types, are what was encoded.
\<close>

theorem raft_rpc_runs_handler:
  fixes cd :: "'c rpc_value codec" and rs :: "('c raft_host, 'c rpc_value) Server"
  assumes srv: "sr_services rs ''Raft'' = Some (raft_service now rnd)" "rh_rf (sr_host rs) = rf"
    and codec: "codec_ok cd vals" "cd_typeOf cd = rpc_type"
  shows "(\<forall>rva rf' rvr. RVArgs rva \<in> vals \<and> RequestVote now rnd rva rf = (rf', rvr) \<and> RVReply rvr \<in> vals \<longrightarrow>
      call_runs cd (sendRequestVote rva) e ''Raft.RequestVote'' (RVArgs rva) ''RequestVoteReply'' rs
        (Inr ((sr_host rs)\<lparr>rh_rf := rf'\<rparr>, RVReply rvr))) \<and>
    (\<forall>aea rf' aer. AEArgs aea \<in> vals \<and> AppendEntries now rnd aea rf = Inr (rf', aer) \<and> AEReply aer \<in> vals \<longrightarrow>
      call_runs cd (sendAppendEntries aea) e ''Raft.AppendEntries'' (AEArgs aea) ''AppendEntriesReply'' rs
        (Inr ((sr_host rs)\<lparr>rh_rf := rf'\<rparr>, AEReply aer))) \<and>
    (\<forall>aea err. AEArgs aea \<in> vals \<and> AppendEntries now rnd aea rf = Inl err \<longrightarrow>
      call_runs cd (sendAppendEntries aea) e ''Raft.AppendEntries'' (AEArgs aea) ''AppendEntriesReply'' rs (Inl err)) \<and>
    (\<forall>isa rf' isr sp. ISArgs isa \<in> vals \<and> InstallSnapshot now rnd isa rf = Inr (rf', isr, sp) \<and> ISReply isr \<in> vals \<longrightarrow>
      call_runs cd (sendInstallSnapshot isa) e ''Raft.InstallSnapshot'' (ISArgs isa) ''InstallsnapshotReply'' rs
        (Inr ((sr_host rs)\<lparr>rh_rf := rf', rh_spawned := rh_spawned (sr_host rs) @
           (case sp of None \<Rightarrow> [] | Some c \<Rightarrow> [c])\<rparr>, ISReply isr)))"
proof -
  note run = call_runs_method [OF srv(1) _ _ _ codec(1) _ codec(2), of _ _ _ _ e]
  show ?thesis
  proof (intro conjI allI impI; elim conjE)
    fix rva rf' rvr assume "RVArgs rva \<in> vals" "RequestVote now rnd rva rf = (rf', rvr)" "RVReply rvr \<in> vals"
    then show "call_runs cd (sendRequestVote rva) e ''Raft.RequestVote'' (RVArgs rva) ''RequestVoteReply'' rs
        (Inr ((sr_host rs)\<lparr>rh_rf := rf'\<rparr>, RVReply rvr))"
      using run [of "''RequestVote''" "''RequestVoteReply''" "RequestVote_rpc now rnd" "sendRequestVote rva" "RVArgs rva"] srv(2)
      by (simp add: raft_service_methods sendRequestVote_def RequestVote_rpc_def)
  next
    fix aea rf' aer assume "AEArgs aea \<in> vals" "AppendEntries now rnd aea rf = Inr (rf', aer)" "AEReply aer \<in> vals"
    then show "call_runs cd (sendAppendEntries aea) e ''Raft.AppendEntries'' (AEArgs aea) ''AppendEntriesReply'' rs
        (Inr ((sr_host rs)\<lparr>rh_rf := rf'\<rparr>, AEReply aer))"
      using run [of "''AppendEntries''" "''AppendEntriesReply''" "AppendEntries_rpc now rnd" "sendAppendEntries aea" "AEArgs aea"] srv(2)
      by (simp add: raft_service_methods sendAppendEntries_def AppendEntries_rpc_def)
  next
    fix aea err assume "AEArgs aea \<in> vals" "AppendEntries now rnd aea rf = Inl err"
    then show "call_runs cd (sendAppendEntries aea) e ''Raft.AppendEntries'' (AEArgs aea) ''AppendEntriesReply'' rs (Inl err)"
      using run [of "''AppendEntries''" "''AppendEntriesReply''" "AppendEntries_rpc now rnd" "sendAppendEntries aea" "AEArgs aea"] srv(2)
      by (simp add: raft_service_methods sendAppendEntries_def AppendEntries_rpc_def)
  next
    fix isa rf' isr sp assume "ISArgs isa \<in> vals" "InstallSnapshot now rnd isa rf = Inr (rf', isr, sp)" "ISReply isr \<in> vals"
    then show "call_runs cd (sendInstallSnapshot isa) e ''Raft.InstallSnapshot'' (ISArgs isa) ''InstallsnapshotReply'' rs
        (Inr ((sr_host rs)\<lparr>rh_rf := rf', rh_spawned := rh_spawned (sr_host rs) @
           (case sp of None \<Rightarrow> [] | Some c \<Rightarrow> [c])\<rparr>, ISReply isr))"
      using run [of "''InstallSnapshot''" "''InstallsnapshotReply''" "InstallSnapshot_rpc now rnd" "sendInstallSnapshot isa" "ISArgs isa"] srv(2)
      by (simp add: raft_service_methods sendInstallSnapshot_def InstallSnapshot_rpc_def)
  qed
qed

text \<open>A codec for one vote. Like \<open>gob\<close> it leaves a field of the target as it is when the encoded
  one is zero, so that decoding into another target than the zero value gives something else.\<close>

definition sample_vote :: RequestVoteArgs where
  "sample_vote = \<lparr>rva_Term = 1, rva_CandidateId = 0, rva_LastLogIndex = 0, rva_LastLogTerm = 0\<rparr>"

definition vote_codec :: "nat rpc_value codec" where
  "vote_codec = \<lparr>
     cd_enc = (\<lambda>v. (case v of RVArgs a \<Rightarrow> [of_int (rva_Term a)] | RVReply r \<Rightarrow> [of_int (rvr_Term r), of_bool (rvr_VoteGranted r)]
       | _ \<Rightarrow> [], True)),
     cd_dec = (\<lambda>b z. (case (b, z) of
         ([t], RVArgs a) \<Rightarrow> RVArgs (a\<lparr>rva_Term := (if t = 0 then rva_Term a else uint t)\<rparr>)
       | ([t, g], RVReply r) \<Rightarrow> RVReply (r\<lparr>rvr_Term := (if t = 0 then rvr_Term r else uint t),
            rvr_VoteGranted := (if g = 0 then rvr_VoteGranted r else True)\<rparr>)
       | _ \<Rightarrow> z, True)),
     cd_typeOf = rpc_type,
     cd_zero = (\<lambda>t. if t = ''RequestVoteArgs''
       then RVArgs \<lparr>rva_Term = 0, rva_CandidateId = 0, rva_LastLogIndex = 0, rva_LastLogTerm = 0\<rparr>
       else RVReply \<lparr>rvr_Term = 0, rvr_VoteGranted = False\<rparr>)\<rparr>"

theorem raft_rpc_runs_handler_witness:
  "\<exists>rf'. voteFor rf' = 0 \<and>
     call_runs vote_codec (sendRequestVote sample_vote) (0 :: nat) ''Raft.RequestVote'' (RVArgs sample_vote)
       ''RequestVoteReply'' (raft_rpc_server 0 0 (Make 3 1 MakePersister 0 0 :: nat raft))
       (Inr ((sr_host (raft_rpc_server 0 0 (Make 3 1 MakePersister 0 0)))\<lparr>rh_rf := rf'\<rparr>,
         RVReply \<lparr>rvr_Term = 0, rvr_VoteGranted = True\<rparr>))"
proof -
  let ?rep = "\<lparr>rvr_Term = 0, rvr_VoteGranted = True\<rparr>"
  let ?rf = "Make 3 1 MakePersister 0 0 :: nat raft"
  let ?rs = "raft_rpc_server 0 0 ?rf"
  have "hard_state ?rf = boot_state" by (simp add: Make_hard_state durable_def)
  then have boot: "currentTerm ?rf = 0" "last_log ?rf = (0, 0)"
    by (auto simp: hard_state_def boot_state_def last_log_def)
  obtain rf' rvr where rv: "RequestVote 0 0 sample_vote ?rf = (rf', rvr)" by force
  have granted: "rvr = ?rep" "voteFor rf' = 0"
    using RequestVote_granted_iff [of 0 0 sample_vote ?rf] RequestVote_reply_term [of 0 0 sample_vote ?rf]
      RequestVote_vote [of 0 0 sample_vote ?rf] boot rv
    by (auto simp: up_to_date_def sample_vote_def)
  have srv: "sr_services ?rs ''Raft'' = Some (raft_service 0 0)" "rh_rf (sr_host ?rs) = ?rf"
    by (simp_all add: raft_rpc_server_def AddService_def MakeServer_def raft_service_def MakeService_def)
  have codec: "codec_ok vote_codec {RVArgs sample_vote, RVReply ?rep}" "cd_typeOf vote_codec = rpc_type"
    by (simp_all add: codec_ok_def vote_codec_def sample_vote_def)
  have "call_runs vote_codec (sendRequestVote sample_vote) (0 :: nat) ''Raft.RequestVote'' (RVArgs sample_vote)
      ''RequestVoteReply'' ?rs (Inr ((sr_host ?rs)\<lparr>rh_rf := rf'\<rparr>, RVReply rvr))"
    by (rule raft_rpc_runs_handler [OF srv codec, THEN conjunct1, THEN spec, THEN spec, THEN spec, THEN mp])
      (use rv granted(1) in simp)
  with granted show ?thesis by blast
qed

text \<open>
  The wait reports success only for a call that returned true in time, and lasts at most the
  limit. A goroutine that started no later than the timer was armed has every timely result
  received; one that was scheduled late can have it dropped, and then blocks forever.
\<close>

theorem rpc_wait_correct:
  assumes "\<And>d. took = Some d \<Longrightarrow> 0 \<le> d"
  shows "electionSender_wait tie armed start took ok \<Longrightarrow>
      \<exists>d. took = Some d \<and> d < RPCTimeout \<and> ok \<and> start + d \<le> armed + RPCTimeout"
    and "start \<le> armed \<Longrightarrow>
      electionSender_wait tie armed start took ok = (ok \<and> (\<exists>d. took = Some d \<and> d < RPCTimeout)) \<and>
      \<not> rpc_leaks tie armed start took ok"
    and "armed < start \<Longrightarrow> \<exists>d < RPCTimeout. 0 \<le> d \<and> rpc_leaks False armed start (Some d) ok"
proof -
  show "electionSender_wait tie armed start took ok \<Longrightarrow>
      \<exists>d. took = Some d \<and> d < RPCTimeout \<and> ok \<and> start + d \<le> armed + RPCTimeout"
    by (auto simp: electionSender_wait_def rpc_select_def rpc_received_def rpc_offer_def
        split: if_splits option.splits)
  show "start \<le> armed \<Longrightarrow>
      electionSender_wait tie armed start took ok = (ok \<and> (\<exists>d. took = Some d \<and> d < RPCTimeout)) \<and>
      \<not> rpc_leaks tie armed start took ok"
    by (auto simp: electionSender_wait_def rpc_select_def rpc_received_def rpc_offer_def rpc_leaks_def
        split: if_splits option.splits)
  have "rpc_leaks False armed start (Some (RPCTimeout - 1)) ok" if "armed < start"
    using that by (simp add: rpc_leaks_def rpc_received_def rpc_offer_def)
  then show "armed < start \<Longrightarrow> \<exists>d < RPCTimeout. 0 \<le> d \<and> rpc_leaks False armed start (Some d) ok"
    by (intro exI [of _ "RPCTimeout - 1"]) (simp add: RPCTimeout_def)
qed

text \<open>A peer that cannot be reached costs the sender at most the limit, although the network may
  take seconds to report the failure.\<close>

lemma unreachable_peer_wait:
  "Call_result cd fail_reply z = Inr (ok, z') \<Longrightarrow>
   \<not> electionSender_wait tie armed start (Some (int (processReq_timeout draw rn))) ok"
  by (auto simp: electionSender_wait_def rpc_select_def rpc_received_def rpc_offer_def Call_result_def fail_reply_def
      split: if_splits)

end
