(* ===== verification/Harness_Links.thy ===== *)
theory Harness_Links
  imports Labrpc
begin

text \<open>
  What the testers (\<open>config.go\<close> of \<open>raft\<close>, \<open>kvraft\<close>, \<open>shardctrler\<close> and \<open>shardkv\<close>) do to the simulated
  network: they keep the names of every server's outgoing ends in a table, make an end for each
  entry, and cut and restore links by enabling the ends. The loops over the table are here, with
  the lemmas that say which ends they leave enabled.
\<close>

section \<open>Random names\<close>

text \<open>\<open>base64.URLEncoding\<close>, on the bytes that \<open>crypto/rand\<close> delivers.\<close>

definition b64_alphabet :: string where
  "b64_alphabet = ''ABCDEFGHIJKLMNOPQRSTUVWXYZabcdefghijklmnopqrstuvwxyz0123456789-_''"

definition b64_digit :: "nat \<Rightarrow> char" where
  "b64_digit v = b64_alphabet ! (v mod 64)"

fun EncodeToString :: "byte list \<Rightarrow> string" where
  "EncodeToString (a # b # c # rest) =
     (let v = unat a * 65536 + unat b * 256 + unat c
      in [b64_digit (v div 262144), b64_digit (v div 4096), b64_digit (v div 64), b64_digit v] @ EncodeToString rest)"
| "EncodeToString [a, b] =
     (let v = unat a * 65536 + unat b * 256
      in [b64_digit (v div 262144), b64_digit (v div 4096), b64_digit (v div 64), CHR ''=''])"
| "EncodeToString [a] =
     (let v = unat a * 65536 in [b64_digit (v div 262144), b64_digit (v div 4096), CHR ''='', CHR ''=''])"
| "EncodeToString [] = []"

text \<open>\<open>b\<close> are the \<open>2 * n\<close> random bytes.\<close>

definition randstring :: "nat \<Rightarrow> byte list \<Rightarrow> string go" where
  "randstring n b = go_upto (EncodeToString b) (int n)"

text \<open>The function stands in each of the four testers.\<close>

definition kv_randstring :: "nat \<Rightarrow> byte list \<Rightarrow> string go" where
  "kv_randstring = randstring"

definition ctrl_randstring :: "nat \<Rightarrow> byte list \<Rightarrow> string go" where
  "ctrl_randstring = randstring"

definition skv_randstring :: "nat \<Rightarrow> byte list \<Rightarrow> string go" where
  "skv_randstring = randstring"

lemma b64_digit_in: "b64_digit v \<in> set b64_alphabet"
proof -
  have "length b64_alphabet = 64" by (simp add: b64_alphabet_def)
  then show ?thesis unfolding b64_digit_def by (intro nth_mem) simp
qed

text \<open>The padding comes after more digits than bytes.\<close>

lemma EncodeToString_digits:
  "length b \<le> length (EncodeToString b) \<and> set (take (length b) (EncodeToString b)) \<subseteq> set b64_alphabet"
proof (induction b rule: EncodeToString.induct)
  case (1 a b c rest)
  have "set (take (length rest - 1) (EncodeToString rest)) \<subseteq> set (take (length rest) (EncodeToString rest))"
    by (rule set_take_subset_set_take) simp
  then show ?case using 1 by (auto simp: Let_def b64_digit_in take_Cons')
qed (auto simp: Let_def b64_digit_in)

lemma randstring_total:
  assumes "length b = 2 * n"
  shows "\<exists>s. randstring n b = Inr s \<and> length s = n \<and> set s \<subseteq> set b64_alphabet"
proof -
  have "n \<le> length (EncodeToString b)" "set (take n (EncodeToString b)) \<subseteq> set b64_alphabet"
    using EncodeToString_digits [of b] assms set_take_subset_set_take [of n "length b" "EncodeToString b"] by auto
  then show ?thesis by (simp add: randstring_def go_upto_in)
qed

section \<open>The table of end names\<close>

text \<open>A row is \<open>None\<close> until its server is first started; \<open>endnames[i][j]\<close> then panics.\<close>

type_synonym end_table = "string list option list"

definition end_at :: "end_table \<Rightarrow> nat \<Rightarrow> nat \<Rightarrow> string go" where
  "end_at es i j =
     (if i < length es
      then (case es ! i of None \<Rightarrow> Inl IndexOutOfRange | Some names \<Rightarrow> go_nth names (int j))
      else Inl IndexOutOfRange)"

definition set_link :: "end_table \<Rightarrow> bool \<Rightarrow> nat \<times> nat \<Rightarrow> (string, 'm) Network \<Rightarrow> (string, 'm) Network go" where
  "set_link es b l net = (case l of (i, j) \<Rightarrow> go_bind (end_at es i j) (\<lambda>e. Inr (Enable e b net)))"

definition set_links :: "end_table \<Rightarrow> bool \<Rightarrow> (nat \<times> nat) list \<Rightarrow> (string, 'm) Network \<Rightarrow> (string, 'm) Network go" where
  "set_links es b = go_fold (set_link es b)"

text \<open>A fresh set of ends, the \<open>j\<close>-th of them connected to the server called \<open>dest j\<close>.\<close>

definition make_end ::
  "string list \<Rightarrow> (nat \<Rightarrow> 'm) \<Rightarrow> nat \<Rightarrow> (string, 'm) Network \<Rightarrow> (string, 'm) Network go" where
  "make_end names dest j net =
     go_bind (go_nth names (int j)) (\<lambda>e.
     go_bind (MakeEnd e net) (\<lambda>net. Inr (Connect e (dest j) net)))"

definition make_ends ::
  "string list \<Rightarrow> (nat \<Rightarrow> 'm) \<Rightarrow> nat \<Rightarrow> (string, 'm) Network \<Rightarrow> (string, 'm) Network go" where
  "make_ends names dest n = go_fold (make_end names dest) [0..<n]"

section \<open>Which ends a loop leaves enabled\<close>

definition link_ends :: "end_table \<Rightarrow> (nat \<times> nat) set \<Rightarrow> string set" where
  "link_ends es ls = {e. \<exists>(i, j) \<in> ls. end_at es i j = Inr e}"

lemma link_ends_Un: "link_ends es (A \<union> B) = link_ends es A \<union> link_ends es B"
  by (auto simp: link_ends_def)

lemma link_ends_insert:
  "end_at es i j = Inr e \<Longrightarrow> link_ends es (insert (i, j) A) = insert e (link_ends es A)"
  by (auto simp: link_ends_def)

lemma set_links_Inr:
  "set_links es b ls net = Inr net' \<longleftrightarrow>
     (\<forall>(i, j) \<in> set ls. \<exists>e. end_at es i j = Inr e) \<and>
     net' = net\<lparr>nw_enabled := (\<lambda>e. if e \<in> link_ends es (set ls) then b else nw_enabled net e)\<rparr>"
proof (induction ls arbitrary: net)
  case Nil
  then show ?case by (auto simp: set_links_def link_ends_def)
next
  case (Cons l ls)
  obtain i j where l: "l = (i, j)" by (cases l)
  show ?case
  proof (cases "end_at es i j")
    case (Inl a)
    then show ?thesis by (simp add: set_links_def set_link_def l)
  next
    case (Inr e)
    have "set_links es b (l # ls) net = set_links es b ls (Enable e b net)"
      using Inr by (simp add: set_links_def set_link_def l)
    moreover have "(\<lambda>x. if x \<in> link_ends es (set ls) then b else nw_enabled (Enable e b net) x) =
      (\<lambda>x. if x \<in> link_ends es (set (l # ls)) then b else nw_enabled net x)"
      using Inr by (auto simp: l link_ends_insert Enable_def fun_eq_iff)
    ultimately show ?thesis
      using Cons [of "Enable e b net"] Inr by (auto simp: l Enable_def)
  qed
qed

lemma set_links_append:
  "go_bind (set_links es b ls net) (set_links es b ls') = set_links es b (ls @ ls') net"
  by (simp add: set_links_def go_fold_append)

text \<open>
  An end that is made is new (\<open>MakeEnd\<close> ends the process otherwise), so making a row succeeds only
  on names that are distinct from each other and from all earlier ones.
\<close>

lemma make_ends_Inr:
  assumes "make_ends names dest n net = Inr net'"
  shows "n \<le> length names \<and> distinct (take n names) \<and> set (take n names) \<inter> nw_ends net = {} \<and>
    nw_ends net' = nw_ends net \<union> set (take n names) \<and>
    nw_enabled net' = (\<lambda>e. e \<notin> set (take n names) \<and> nw_enabled net e) \<and>
    nw_servers net' = nw_servers net \<and>
    (\<forall>j < n. nw_connections net' (names ! j) = Some (dest j)) \<and>
    (\<forall>e. e \<notin> set (take n names) \<longrightarrow> nw_connections net' e = nw_connections net e)"
  using assms
proof (induction n arbitrary: net')
  case 0
  then show ?case by (simp add: make_ends_def)
next
  case (Suc n)
  obtain net1 where n1: "make_ends names dest n net = Inr net1" "make_end names dest n net1 = Inr net'"
    using Suc.prems by (auto simp: make_ends_def go_fold_append go_bind_Inr_iff)
  note IH = Suc.IH [OF n1(1)]
  have s: "n < length names" "names ! n \<notin> nw_ends net1" "nw_ends net' = insert (names ! n) (nw_ends net1)"
    "nw_enabled net' = (nw_enabled net1)(names ! n := False)"
    "nw_connections net' = (nw_connections net1)(names ! n \<mapsto> dest n)" "nw_servers net' = nw_servers net1"
    using n1(2) by (auto simp: make_end_def go_Inr_iffs MakeEnd_def Connect_def split: if_splits)
  have t: "take (Suc n) names = take n names @ [names ! n]" using s(1) by (rule take_Suc_conv_app_nth)
  have new: "names ! n \<notin> nw_ends net" "names ! n \<notin> set (take n names)" using s(2) IH by auto
  moreover have "names ! j \<noteq> names ! n" if "j < n" for j
    using new(2) that s(1) by (auto simp: in_set_conv_nth)
  ultimately show ?case using s IH unfolding t by (auto simp: less_Suc_eq)
qed

section \<open>Tables without aliases\<close>

text \<open>No two entries share a name, and every name in the table is an end of the network.\<close>

definition table_ok :: "end_table \<Rightarrow> string set \<Rightarrow> bool" where
  "table_ok es E \<longleftrightarrow>
     (\<forall>i j i' j' e. end_at es i j = Inr e \<longrightarrow> end_at es i' j' = Inr e \<longrightarrow> i = i' \<and> j = j') \<and>
     (\<forall>i j e. end_at es i j = Inr e \<longrightarrow> e \<in> E)"

lemma table_ok_inj: "table_ok es E \<Longrightarrow> end_at es i j = Inr e \<Longrightarrow> end_at es i' j' = Inr e \<Longrightarrow> i = i' \<and> j = j'"
  unfolding table_ok_def by blast

lemma table_ok_ends: "table_ok es E \<Longrightarrow> end_at es i j = Inr e \<Longrightarrow> e \<in> E"
  unfolding table_ok_def by blast

lemma table_ok_empty: "(\<forall>i j e. end_at es i j \<noteq> Inr e) \<Longrightarrow> table_ok es E"
  by (simp add: table_ok_def)

lemma link_ends_iff:
  assumes "table_ok es E" and "end_at es i j = Inr e"
  shows "e \<in> link_ends es ls \<longleftrightarrow> (i, j) \<in> ls"
  unfolding link_ends_def using assms(2) table_ok_inj [OF assms] by blast

lemma end_at_update:
  assumes "i < length es"
  shows "end_at (es[i := Some names]) a b = (if a = i then go_nth names (int b) else end_at es a b)"
  using assms by (simp add: end_at_def nth_list_update)

lemma table_ok_update:
  assumes "table_ok es E" and "i < length es" and "distinct names" and "set names \<inter> E = {}"
  shows "table_ok (es[i := Some names]) (E \<union> set names)"
proof -
  have new: "e \<in> set names" if "go_nth names (int b) = Inr e" for b e using that by (rule go_nth_set)
  have "a = a' \<and> b = b'" if "end_at (es[i := Some names]) a b = Inr e" "end_at (es[i := Some names]) a' b' = Inr e" for a b a' b' e
  proof (cases "a = i")
    case True
    then have e: "go_nth names (int b) = Inr e" using that(1) assms(2) by (simp add: end_at_update)
    then have "e \<notin> E" using new assms(4) by blast
    then have "a' = i" using that(2) assms(1,2) table_ok_ends by (fastforce simp: end_at_update split: if_splits)
    then have "go_nth names (int b') = Inr e" using that(2) assms(2) by (simp add: end_at_update)
    then show ?thesis using e True \<open>a' = i\<close> assms(3) by (auto simp: go_nth_Inr_iff nth_eq_iff_index_eq)
  next
    case False
    then have e: "end_at es a b = Inr e" using that(1) assms(2) by (simp add: end_at_update)
    then have "a' \<noteq> i"
      using that(2) assms new table_ok_ends [OF assms(1) e] by (auto simp: end_at_update split: if_splits)
    then show ?thesis using that(2) e assms(1,2) table_ok_inj by (auto simp: end_at_update)
  qed
  moreover have "e \<in> E \<union> set names" if "end_at (es[i := Some names]) a b = Inr e" for a b e
    using that assms(1,2) new table_ok_ends by (auto simp: end_at_update split: if_splits)
  ultimately show ?thesis unfolding table_ok_def by blast
qed

end
