(* ===== verification/Raft_Harness.thy ===== *)
theory Raft_Harness
  imports Raft_Snapshot Harness_Links
begin

text \<open>
  \<open>raft/config.go\<close>: the harness that runs a group of Raft peers over the simulated network,
  crashes, restarts and reconnects them, and checks what they deliver. \<open>cfg.saved[i]\<close> and the
  persister of \<open>cfg.rafts[i]\<close> are one object while the peer runs, so the harness reads it through
  the peer. Random names of ends, clock readings and the states that concurrent goroutines leave
  are arguments; \<open>t.Fatal\<close> and \<open>log.Fatal\<close> are \<open>Fatal\<close>.
\<close>

section \<open>The harness\<close>

record 'c config =
  hc_net :: "(string, nat) Network"
  hc_n :: nat
  hc_rafts :: "'c raft option list"
  hc_applyErr :: "string list"
  hc_connected :: "bool list"
  hc_saved :: "'c raft_persister option list"
  hc_endnames :: end_table
  hc_logs :: "(int \<rightharpoonup> 'c option) list"
  hc_start :: int
  hc_t0 :: int
  hc_rpcs0 :: int
  hc_cmds0 :: int
  hc_bytes0 :: int
  hc_maxIndex :: int
  hc_maxIndex0 :: int

text \<open>The contents of the object \<open>cfg.saved[i]\<close> points to.\<close>

definition saved_now :: "'c config \<Rightarrow> nat \<Rightarrow> 'c raft_persister option" where
  "saved_now cfg i =
     (case hc_rafts cfg ! i of
        Some rf \<Rightarrow> Some (rf_persister rf)
      | None \<Rightarrow> hc_saved cfg ! i)"

definition cfg_connect :: "nat \<Rightarrow> 'c config \<Rightarrow> 'c config go" where
  "cfg_connect i cfg0 =
     (if i \<ge> length (hc_connected cfg0) then Inl IndexOutOfRange
      else
        let cfg = cfg0\<lparr>hc_connected := (hc_connected cfg0)[i := True]\<rparr>;
            up = filter (\<lambda>j. hc_connected cfg ! j) [0..<hc_n cfg]
        in go_bind (set_links (hc_endnames cfg) True (map (\<lambda>j. (i, j)) up) (hc_net cfg)) (\<lambda>net1.
           go_bind (set_links (hc_endnames cfg) True (map (\<lambda>j. (j, i)) up) net1) (\<lambda>net2.
             Inr (cfg\<lparr>hc_net := net2\<rparr>))))"

definition cfg_disconnect :: "nat \<Rightarrow> 'c config \<Rightarrow> 'c config go" where
  "cfg_disconnect i cfg0 =
     (if i \<ge> length (hc_connected cfg0) then Inl IndexOutOfRange
      else
        let cfg = cfg0\<lparr>hc_connected := (hc_connected cfg0)[i := False]\<rparr>;
            outgoing = filter (\<lambda>j. hc_endnames cfg ! i \<noteq> None) [0..<hc_n cfg];
            incoming = filter (\<lambda>j. hc_endnames cfg ! j \<noteq> None) [0..<hc_n cfg]
        in go_bind (set_links (hc_endnames cfg) False (map (\<lambda>j. (i, j)) outgoing) (hc_net cfg)) (\<lambda>net1.
           go_bind (set_links (hc_endnames cfg) False (map (\<lambda>j. (j, i)) incoming) net1) (\<lambda>net2.
             Inr (cfg\<lparr>hc_net := net2\<rparr>))))"

text \<open>
  The instance that \<open>crash1\<close> kills is dropped with the persister it still writes to: the one that
  is kept is a copy.
\<close>

definition crash1 :: "nat \<Rightarrow> 'c config \<Rightarrow> 'c config go" where
  "crash1 i cfg0 =
     go_bind (cfg_disconnect i cfg0) (\<lambda>cfg1.
       let cfg2 = cfg1\<lparr>hc_net := DeleteServer i (hc_net cfg1)\<rparr>;
           saved1 = map_option Copy (saved_now cfg2 i);
           cfg3 = cfg2\<lparr>hc_rafts := (hc_rafts cfg2)[i := None]\<rparr>;
           saved2 = map_option (\<lambda>ps. SaveStateAndSnapshot (ReadRaftState ps) (ReadSnapshot ps) MakePersister) saved1
       in Inr (cfg3\<lparr>hc_saved := (hc_saved cfg3)[i := saved2]\<rparr>))"

text \<open>
  \<open>names j\<close> is the \<open>j\<close>-th result of \<open>randstring\<close>, \<open>srv\<close> the address of the new \<open>labrpc\<close> server,
  \<open>now\<close> and \<open>rnd\<close> what \<open>Make\<close> reads from the clock and the random source.
\<close>

definition start1 :: "(nat \<Rightarrow> string) \<Rightarrow> nat \<Rightarrow> int \<Rightarrow> int \<Rightarrow> nat \<Rightarrow> 'c config \<Rightarrow> 'c config go" where
  "start1 names srv now rnd i cfg0 =
     go_bind (crash1 i cfg0) (\<lambda>cfg1.
       let row = map names [0..<hc_n cfg1];
           cfg2 = cfg1\<lparr>hc_endnames := (hc_endnames cfg1)[i := Some row]\<rparr>
       in go_bind (make_ends row id (hc_n cfg2) (hc_net cfg2)) (\<lambda>net1.
            let ps = (case saved_now cfg2 i of Some p \<Rightarrow> Copy p | None \<Rightarrow> MakePersister);
                rf = Make (hc_n cfg2) (int i) ps now rnd
            in Inr (cfg2\<lparr>hc_saved := (hc_saved cfg2)[i := Some ps], hc_rafts := (hc_rafts cfg2)[i := Some rf],
                         hc_net := AddServer i srv net1\<rparr>)))"

definition setunreliable :: "bool \<Rightarrow> 'c config \<Rightarrow> 'c config" where
  "setunreliable unrel cfg = cfg\<lparr>hc_net := Reliable (\<not> unrel) (hc_net cfg)\<rparr>"

definition setlongreordering :: "bool \<Rightarrow> 'c config \<Rightarrow> 'c config" where
  "setlongreordering longrel cfg = cfg\<lparr>hc_net := LongReordering longrel (hc_net cfg)\<rparr>"

text \<open>
  \<open>make_config\<close> up to its loops, and the loops: \<open>env i\<close> gives the names, the server address and the
  clock and random readings for peer \<open>i\<close>.
\<close>

definition blank_config :: "nat \<Rightarrow> bool \<Rightarrow> int \<Rightarrow> 'c config" where
  "blank_config n unreliable now =
     (let cfg0 = \<lparr>hc_net = MakeNetwork, hc_n = n, hc_rafts = replicate n None,
                  hc_applyErr = replicate n '''', hc_connected = replicate n False,
                  hc_saved = replicate n None, hc_endnames = replicate n None,
                  hc_logs = replicate n Map.empty, hc_start = now, hc_t0 = 0, hc_rpcs0 = 0,
                  hc_cmds0 = 0, hc_bytes0 = 0, hc_maxIndex = 0, hc_maxIndex0 = 0\<rparr>;
          cfg1 = setunreliable unreliable cfg0
      in cfg1\<lparr>hc_net := LongDelays True (hc_net cfg1)\<rparr>)"

definition make_config ::
  "nat \<Rightarrow> bool \<Rightarrow> int \<Rightarrow> (nat \<Rightarrow> (nat \<Rightarrow> string) \<times> nat \<times> int \<times> int) \<Rightarrow> 'c config go" where
  "make_config n unreliable now env =
     go_bind (go_fold (\<lambda>i c. case env i of (names, srv, t, rnd) \<Rightarrow>
                  start1 names srv t rnd i (c\<lparr>hc_logs := (hc_logs c)[i := Map.empty]\<rparr>))
               [0..<n] (blank_config n unreliable now))
       (go_fold cfg_connect [0..<n])"

section \<open>Checking what is delivered\<close>

text \<open>The loop of \<open>checkLogs\<close>; of the message it builds only the index is kept.\<close>

fun disagreement :: "int \<Rightarrow> 'c option \<Rightarrow> (int \<rightharpoonup> 'c option) list \<Rightarrow> string \<Rightarrow> string" where
  "disagreement idx v [] err = err"
| "disagreement idx v (l # ls) err =
     disagreement idx v ls
       (case l idx of
          Some old \<Rightarrow> if old \<noteq> v then ''commit index='' @ Itoa idx @ '' server values differ'' else err
        | None \<Rightarrow> err)"

definition checkLogs :: "nat \<Rightarrow> 'c ApplyMsg \<Rightarrow> 'c config \<Rightarrow> 'c config \<times> string \<times> bool" where
  "checkLogs i m cfg =
     (let v = am_Command m;
          idx = am_CommandIndex m;
          err_msg = disagreement idx v (hc_logs cfg) '''';
          prevok = ((hc_logs cfg ! i) (idx - 1) \<noteq> None);
          cfg' = cfg\<lparr>hc_logs := (hc_logs cfg)[i := (hc_logs cfg ! i)(idx \<mapsto> v)],
                     hc_maxIndex := (if idx > hc_maxIndex cfg then idx else hc_maxIndex cfg)\<rparr>
      in (cfg', err_msg, prevok))"

definition out_of_order :: "nat \<Rightarrow> int \<Rightarrow> string" where
  "out_of_order i idx = ''server '' @ Itoa (int i) @ '' apply out of order '' @ Itoa idx"

text \<open>The body of \<open>applier\<close> for one message. The assignment after \<open>log.Fatalf\<close> is never reached.\<close>

definition applier_step :: "nat \<Rightarrow> 'c ApplyMsg \<Rightarrow> 'c config \<Rightarrow> 'c config go" where
  "applier_step i m cfg =
     (if am_CommandValid m = False then Inr cfg
      else
        let (cfg', err_msg, prevok) = checkLogs i m cfg;
            err_msg' = (if am_CommandIndex m > 1 \<and> prevok = False
                        then out_of_order i (am_CommandIndex m) else err_msg)
        in if err_msg' \<noteq> '''' then Inl (Fatal (''apply error: '' @ err_msg')) else Inr cfg')"

definition SnapShotInterval :: int where "SnapShotInterval = 10"

text \<open>
  The body of \<open>applierSnap\<close>: \<open>lastAp\<close> is its local \<open>lastApplied\<close>, \<open>enc\<close> and \<open>dec\<close> are gob for a
  command, and the last component of the result is the snapshot it asks its peer to take.
  \<open>CondInstallSnapshot\<close> does not touch its receiver, so a nil peer answers true as well.
\<close>

definition applierSnap_step ::
  "('c option \<Rightarrow> byte list) \<Rightarrow> (byte list \<Rightarrow> 'c option option) \<Rightarrow> nat \<Rightarrow> 'c ApplyMsg \<Rightarrow>
   int \<times> 'c config \<Rightarrow> ((int \<times> 'c config) \<times> (int \<times> byte list) option) go" where
  "applierSnap_step enc dec i m s =
     (case s of (lastAp, cfg) \<Rightarrow>
      if am_SnapshotValid m
      then if (case hc_rafts cfg ! i of
                 None \<Rightarrow> True
               | Some rf \<Rightarrow> CondInstallSnapshot (am_SnapshotTerm m) (am_SnapshotIndex m) (am_Snapshot m) rf)
           then (case dec (am_Snapshot m) of
                   None \<Rightarrow> Inl (Fatal ''decode error'')
                 | Some v \<Rightarrow>
                     Inr ((am_SnapshotIndex m,
                           cfg\<lparr>hc_logs := (hc_logs cfg)[i := [am_SnapshotIndex m \<mapsto> v]]\<rparr>), None))
           else Inr ((lastAp, cfg), None)
      else if am_CommandValid m \<and> am_CommandIndex m > lastAp
      then
        let (cfg', err_msg, prevok) = checkLogs i m cfg;
            err_msg' = (if am_CommandIndex m > 1 \<and> prevok = False
                        then out_of_order i (am_CommandIndex m) else err_msg)
        in if err_msg' \<noteq> '''' then Inl (Fatal (''apply error: '' @ err_msg'))
           else Inr ((am_CommandIndex m, cfg'),
                     if (am_CommandIndex m + 1) mod SnapShotInterval = 0
                     then Some (am_CommandIndex m, enc (am_Command m)) else None)
      else Inr ((lastAp, cfg), None))"

text \<open>The loop of \<open>nCommitted\<close> over the servers.\<close>

fun committed_loop ::
  "int \<Rightarrow> (string \<times> (int \<rightharpoonup> 'c option)) list \<Rightarrow> int \<times> 'c option \<Rightarrow> (int \<times> 'c option) go" where
  "committed_loop idx [] (cnt, cmd) = Inr (cnt, cmd)"
| "committed_loop idx ((err, l) # rest) (cnt, cmd) =
     (if err \<noteq> '''' then Inl (Fatal err)
      else case l idx of
             Some cmd1 \<Rightarrow>
               if cnt > 0 \<and> cmd \<noteq> cmd1 then Inl (Fatal ''committed values do not match'')
               else committed_loop idx rest (cnt + 1, cmd1)
           | None \<Rightarrow> committed_loop idx rest (cnt, cmd))"

definition nCommitted :: "int \<Rightarrow> 'c config \<Rightarrow> (int \<times> 'c option) go" where
  "nCommitted idx cfg = committed_loop idx (zip (hc_applyErr cfg) (hc_logs cfg)) (0, None)"

section \<open>Questions to the peers\<close>

definition peer_state :: "'c config \<Rightarrow> nat \<Rightarrow> (int \<times> bool) go" where
  "peer_state cfg i =
     (case hc_rafts cfg ! i of None \<Rightarrow> Inl NilDereference | Some rf \<Rightarrow> Inr (GetState rf))"

text \<open>The leaders by term, in the order of the servers.\<close>

definition leaders_of :: "'c config \<Rightarrow> (int \<rightharpoonup> nat list) go" where
  "leaders_of cfg =
     go_fold (\<lambda>i m.
        if hc_connected cfg ! i
        then go_bind (peer_state cfg i) (\<lambda>(t, leader).
               if leader then Inr (m(t \<mapsto> (case m t of Some is \<Rightarrow> is | None \<Rightarrow> []) @ [i])) else Inr m)
        else Inr m) [0..<hc_n cfg] Map.empty"

text \<open>One iteration of \<open>checkOneLeader\<close>: the leader of the last term that has one.\<close>

definition one_leader :: "'c config \<Rightarrow> nat option go" where
  "one_leader cfg =
     go_bind (leaders_of cfg) (\<lambda>m.
       let terms = filter (\<lambda>t. m t \<noteq> None) (remdups (map (\<lambda>i. case hc_rafts cfg ! i of
                     Some rf \<Rightarrow> currentTerm rf | None \<Rightarrow> 0) [0..<hc_n cfg]))
       in if list_ex (\<lambda>t. length (the (m t)) > 1) terms then Inl (Fatal ''term has more than one leader'')
          else let lastTermWithLeader = foldl (\<lambda>a t. if t > a then t else a) (- 1) terms
               in if terms \<noteq> []
                  then (case m lastTermWithLeader of
                          Some (i # _) \<Rightarrow> Inr (Some i)
                        | _ \<Rightarrow> Inl IndexOutOfRange)
                  else Inr None)"

text \<open>\<open>cfgs\<close> are the states at the ten polls.\<close>

fun checkOneLeader :: "'c config list \<Rightarrow> nat go" where
  "checkOneLeader [] = Inl (Fatal ''expected one leader, got none'')"
| "checkOneLeader (cfg # cfgs) =
     go_bind (one_leader cfg) (\<lambda>r. case r of Some i \<Rightarrow> Inr i | None \<Rightarrow> checkOneLeader cfgs)"

definition checkTerms :: "'c config \<Rightarrow> int go" where
  "checkTerms cfg =
     go_fold (\<lambda>i t.
        if hc_connected cfg ! i
        then go_bind (peer_state cfg i) (\<lambda>(xterm, _).
               if t = - 1 then Inr xterm
               else if t \<noteq> xterm then Inl (Fatal ''servers disagree on term'') else Inr t)
        else Inr t) [0..<hc_n cfg] (- 1)"

definition checkNoLeader :: "'c config \<Rightarrow> unit go" where
  "checkNoLeader cfg =
     go_fold (\<lambda>i u.
        if hc_connected cfg ! i
        then go_bind (peer_state cfg i) (\<lambda>(_, is_leader).
               if is_leader then Inl (Fatal ''expected no leader'') else Inr u)
        else Inr u) [0..<hc_n cfg] ()"

text \<open>
  \<open>wait\<close>: \<open>polls\<close> are the states of its (at most thirty) iterations, each before and after the
  sleep, and \<open>final\<close> the state at the end; \<open>Inl\<close> in the result is the \<open>-1\<close> of a term that moved on.
\<close>

definition moved_on :: "int \<Rightarrow> 'c config \<Rightarrow> bool go" where
  "moved_on startTerm cfg =
     go_fold (\<lambda>i b. if b then Inr True else go_bind (peer_state cfg i) (\<lambda>(t, _). Inr (t > startTerm)))
       [0..<length (hc_rafts cfg)] False"

fun wait_polls :: "int \<Rightarrow> int \<Rightarrow> int \<Rightarrow> ('c config \<times> 'c config) list \<Rightarrow> bool go" where
  "wait_polls idx n startTerm [] = Inr False"
| "wait_polls idx n startTerm ((before, after) # polls) =
     go_bind (nCommitted idx before) (\<lambda>(nd, _).
       if nd \<ge> n then Inr False
       else go_bind (if startTerm > - 1 then moved_on startTerm after else Inr False) (\<lambda>b.
              if b then Inr True else wait_polls idx n startTerm polls))"

definition cfg_wait ::
  "int \<Rightarrow> int \<Rightarrow> int \<Rightarrow> ('c config \<times> 'c config) list \<Rightarrow> 'c config \<Rightarrow> (unit + 'c option) go" where
  "cfg_wait idx n startTerm polls final =
     go_bind (wait_polls idx n startTerm polls) (\<lambda>gone.
       if gone then Inr (Inl ())
       else go_bind (nCommitted idx final) (\<lambda>(nd, cmd).
              if nd < n then Inl (Fatal ''too few decided'') else Inr (Inr cmd)))"

text \<open>The submission loop of \<open>one\<close>: \<open>k\<close> servers are left to try.\<close>

fun submit :: "nat \<Rightarrow> 'c \<Rightarrow> nat \<Rightarrow> 'c config \<Rightarrow> 'c config \<times> nat \<times> int" where
  "submit 0 cmd starts cfg = (cfg, starts, - 1)"
| "submit (Suc k) cmd starts cfg =
     (let s = (starts + 1) mod hc_n cfg
      in case (if hc_connected cfg ! s then hc_rafts cfg ! s else None) of
           Some rf \<Rightarrow>
             (case Start cmd rf of (rf', index1, _, ok) \<Rightarrow>
                let cfg' = cfg\<lparr>hc_rafts := (hc_rafts cfg)[s := Some rf']\<rparr>
                in if ok then (cfg', s, index1) else submit k cmd s cfg')
         | None \<Rightarrow> submit k cmd s cfg)"

fun agreed :: "'c \<Rightarrow> int \<Rightarrow> int \<Rightarrow> 'c config list \<Rightarrow> bool go" where
  "agreed cmd expectedServers idx [] = Inr False"
| "agreed cmd expectedServers idx (cfg # polls) =
     go_bind (nCommitted idx cfg) (\<lambda>(nd, cmd1).
       if nd > 0 \<and> nd \<ge> expectedServers \<and> cmd1 = Some cmd then Inr True
       else agreed cmd expectedServers idx polls)"

text \<open>
  \<open>one\<close>: a round for each submission that starts within ten seconds, with the state it starts in
  and the states at the polls of the two seconds after it.
\<close>

fun cfg_one :: "'c \<Rightarrow> int \<Rightarrow> bool \<Rightarrow> nat \<Rightarrow> ('c config \<times> 'c config list) list \<Rightarrow> int go" where
  "cfg_one cmd expectedServers again starts [] = Inl (Fatal ''failed to reach agreement'')"
| "cfg_one cmd expectedServers again starts ((cfg, polls) # rounds) =
     (case submit (hc_n cfg) cmd starts cfg of (_, s, idx) \<Rightarrow>
        if idx \<noteq> - 1
        then go_bind (agreed cmd expectedServers idx polls) (\<lambda>b.
               if b then Inr idx
               else if again = False then Inl (Fatal ''failed to reach agreement'')
               else cfg_one cmd expectedServers again s rounds)
        else cfg_one cmd expectedServers again s rounds)"

section \<open>Counters\<close>

definition rpcCount :: "(nat \<Rightarrow> ('s, 'v) Server) \<Rightarrow> nat \<Rightarrow> 'c config \<Rightarrow> int go" where
  "rpcCount store server cfg = Network_GetCount store server (hc_net cfg)"

definition rpcTotal :: "'c config \<Rightarrow> int" where
  "rpcTotal cfg = GetTotalCount (hc_net cfg)"

definition bytesTotal :: "'c config \<Rightarrow> int" where
  "bytesTotal cfg = GetTotalBytes (hc_net cfg)"

definition checkTimeout :: "int \<Rightarrow> bool \<Rightarrow> 'c config \<Rightarrow> unit go" where
  "checkTimeout now failed cfg =
     (if \<not> failed \<and> now - hc_start cfg > 120 * 1000000000
      then Inl (Fatal ''test took longer than 120 seconds'') else Inr ())"

definition cfg_cleanup :: "int \<Rightarrow> bool \<Rightarrow> 'c config \<Rightarrow> 'c config go" where
  "cfg_cleanup now failed cfg =
     (let cfg' = cfg\<lparr>hc_rafts := map (map_option Kill) (hc_rafts cfg), hc_net := Cleanup (hc_net cfg)\<rparr>
      in go_bind (checkTimeout now failed cfg') (\<lambda>_. Inr cfg'))"

definition cfg_begin :: "int \<Rightarrow> 'c config \<Rightarrow> 'c config" where
  "cfg_begin now cfg =
     cfg\<lparr>hc_t0 := now, hc_rpcs0 := rpcTotal cfg, hc_bytes0 := bytesTotal cfg, hc_cmds0 := 0,
         hc_maxIndex0 := hc_maxIndex cfg\<rparr>"

text \<open>The numbers \<open>end\<close> prints: peers, calls, bytes and agreements.\<close>

definition cfg_end :: "int \<Rightarrow> bool \<Rightarrow> 'c config \<Rightarrow> (nat \<times> int \<times> int \<times> int) option go" where
  "cfg_end now failed cfg =
     go_bind (checkTimeout now failed cfg) (\<lambda>_.
       Inr (if failed = False
            then Some (hc_n cfg, rpcTotal cfg - hc_rpcs0 cfg, bytesTotal cfg - hc_bytes0 cfg,
                       hc_maxIndex cfg - hc_maxIndex0 cfg)
            else None))"

definition LogSize :: "'c config \<Rightarrow> nat go" where
  "LogSize cfg =
     go_fold (\<lambda>i logsize.
        case saved_now cfg i of
          None \<Rightarrow> Inl NilDereference
        | Some ps \<Rightarrow> Inr (if RaftStateSize ps > logsize then RaftStateSize ps else logsize))
       [0..<hc_n cfg] 0"

section \<open>What the appliers accept\<close>

definition logs_agree :: "'c config \<Rightarrow> bool" where
  "logs_agree cfg \<longleftrightarrow> (\<forall>k. \<forall>l \<in> set (hc_logs cfg). \<forall>l' \<in> set (hc_logs cfg). \<forall>u v.
     l k = Some u \<longrightarrow> l' k = Some v \<longrightarrow> u = v)"

lemma disagreement_iff:
  "disagreement idx v ls err = '''' \<longleftrightarrow> err = '''' \<and> (\<forall>l \<in> set ls. \<forall>old. l idx = Some old \<longrightarrow> old = v)"
  by (induction ls arbitrary: err) (auto split: option.splits)

lemma applier_step_Inr:
  "applier_step i m cfg = Inr cfg' \<longleftrightarrow>
     (if am_CommandValid m
      then (\<forall>l \<in> set (hc_logs cfg). \<forall>old. l (am_CommandIndex m) = Some old \<longrightarrow> old = am_Command m) \<and>
           (am_CommandIndex m > 1 \<longrightarrow> (hc_logs cfg ! i) (am_CommandIndex m - 1) \<noteq> None) \<and>
           cfg' = fst (checkLogs i m cfg)
      else cfg' = cfg)"
  by (auto simp: applier_step_def checkLogs_def Let_def disagreement_iff out_of_order_def)

lemma applier_step_frame:
  "applier_step i m cfg = Inr cfg' \<Longrightarrow>
   length (hc_logs cfg') = length (hc_logs cfg) \<and> hc_applyErr cfg' = hc_applyErr cfg"
  by (auto simp: applier_step_Inr checkLogs_def Let_def split: if_splits)

lemma committed_loop_count:
  assumes "\<forall>(err, l) \<in> set xs. err = ''''"
    and "\<forall>l \<in> snd ` set xs. \<forall>v. l idx = Some v \<longrightarrow> v = c" and "cnt > 0 \<longrightarrow> cmd = c" and "cnt \<ge> 0"
  shows "\<exists>cmd'. committed_loop idx xs (cnt, cmd) =
    Inr (cnt + int (length (filter (\<lambda>l. l idx \<noteq> None) (map snd xs))), cmd') \<and>
    (cnt + int (length (filter (\<lambda>l. l idx \<noteq> None) (map snd xs))) > 0 \<longrightarrow> cmd' = c)"
  using assms
proof (induction xs arbitrary: cnt cmd)
  case (Cons x xs)
  obtain err l where x: "x = (err, l)" by (cases x)
  show ?case
  proof (cases "l idx")
    case None
    then show ?thesis using Cons.IH [of cnt cmd] Cons.prems x by simp
  next
    case (Some v)
    then have "v = c" using Cons.prems(2) x by simp
    moreover have "cnt = 0 \<or> cmd = c" using Cons.prems(3,4) by linarith
    ultimately show ?thesis using Cons.IH [of "cnt + 1" c] Cons.prems x Some by (simp add: ac_simps)
  qed
qed simp

lemma nCommitted_agree:
  assumes "logs_agree cfg" and "\<forall>e \<in> set (hc_applyErr cfg). e = ''''" and "length (hc_applyErr cfg) = length (hc_logs cfg)"
  shows "\<exists>cmd. nCommitted idx cfg = Inr (int (length (filter (\<lambda>l. l idx \<noteq> None) (hc_logs cfg))), cmd) \<and>
    (\<forall>l \<in> set (hc_logs cfg). \<forall>v. l idx = Some v \<longrightarrow> v = cmd)"
proof -
  obtain c where c: "\<forall>l \<in> set (hc_logs cfg). \<forall>v. l idx = Some v \<longrightarrow> v = c"
    using assms(1) unfolding logs_agree_def by metis
  have "\<forall>(err, l) \<in> set (zip (hc_applyErr cfg) (hc_logs cfg)). err = ''''"
    using assms(2) by (auto dest: set_zip_leftD)
  moreover have "map snd (zip (hc_applyErr cfg) (hc_logs cfg)) = hc_logs cfg" using assms(3) by simp
  moreover have "\<forall>l \<in> snd ` set (zip (hc_applyErr cfg) (hc_logs cfg)). \<forall>v. l idx = Some v \<longrightarrow> v = c"
    using c by (auto dest: set_zip_rightD)
  ultimately obtain cmd where r: "nCommitted idx cfg = Inr (int (length (filter (\<lambda>l. l idx \<noteq> None) (hc_logs cfg))), cmd)"
    "length (filter (\<lambda>l. l idx \<noteq> None) (hc_logs cfg)) > 0 \<longrightarrow> cmd = c"
    using committed_loop_count [of "zip (hc_applyErr cfg) (hc_logs cfg)" idx c 0 None]
    by (auto simp: nCommitted_def)
  have "v = cmd" if "l \<in> set (hc_logs cfg)" "l idx = Some v" for l v
  proof -
    have "filter (\<lambda>l. l idx \<noteq> None) (hc_logs cfg) \<noteq> []" using that by (auto simp: filter_empty_conv)
    then show ?thesis using r(2) c that by simp
  qed
  then show ?thesis using r(1) by blast
qed

section \<open>Runs of the appliers\<close>

text \<open>
  \<open>delivered msgs i k v\<close>: server \<open>i\<close> applied command \<open>v\<close> at index \<open>k\<close>. A run is \<^emph>\<open>consistent\<close> when no two
  servers apply different commands at an index, and \<^emph>\<open>ordered\<close> when each server applies an index
  above 1 only after the one before it.
\<close>

definition delivered :: "(nat \<times> 'c ApplyMsg) list \<Rightarrow> nat \<Rightarrow> int \<Rightarrow> 'c option \<Rightarrow> bool" where
  "delivered msgs i k v \<longleftrightarrow>
     (\<exists>m. (i, m) \<in> set msgs \<and> am_CommandValid m \<and> am_CommandIndex m = k \<and> am_Command m = v)"

definition consistent_run :: "(nat \<times> 'c ApplyMsg) list \<Rightarrow> bool" where
  "consistent_run msgs \<longleftrightarrow> (\<forall>i j k v w. delivered msgs i k v \<longrightarrow> delivered msgs j k w \<longrightarrow> v = w)"

fun ordered_run :: "(nat \<times> 'c ApplyMsg) list \<Rightarrow> (nat \<times> 'c ApplyMsg) list \<Rightarrow> bool" where
  "ordered_run before [] \<longleftrightarrow> True"
| "ordered_run before ((i, m) # msgs) \<longleftrightarrow>
     (am_CommandValid m \<longrightarrow> am_CommandIndex m > 1 \<longrightarrow> (\<exists>v. delivered before i (am_CommandIndex m - 1) v)) \<and>
     ordered_run (before @ [(i, m)]) msgs"

abbreviation appliers :: "(nat \<times> 'c ApplyMsg) list \<Rightarrow> 'c config \<Rightarrow> 'c config go" where
  "appliers msgs cfg \<equiv> go_fold (\<lambda>(i, m). applier_step i m) msgs cfg"

lemma delivered_snoc:
  "delivered (msgs @ [(i, m)]) j k v \<longleftrightarrow> delivered msgs j k v \<or>
     j = i \<and> am_CommandValid m \<and> am_CommandIndex m = k \<and> am_Command m = v"
  by (auto simp: delivered_def)

lemma ordered_run_snoc:
  "ordered_run before (msgs @ [(i, m)]) \<longleftrightarrow> ordered_run before msgs \<and>
     (am_CommandValid m \<longrightarrow> am_CommandIndex m > 1 \<longrightarrow> (\<exists>v. delivered (before @ msgs) i (am_CommandIndex m - 1) v))"
  by (induction before msgs rule: ordered_run.induct) auto

lemma consistent_run_snoc:
  "consistent_run (msgs @ [(i, m)]) \<longleftrightarrow> consistent_run msgs \<and>
     (am_CommandValid m \<longrightarrow> (\<forall>j v. delivered msgs j (am_CommandIndex m) v \<longrightarrow> v = am_Command m))"
  unfolding consistent_run_def delivered_snoc by blast

definition logs_are :: "(nat \<times> 'c ApplyMsg) list \<Rightarrow> 'c config \<Rightarrow> bool" where
  "logs_are msgs cfg \<longleftrightarrow> (\<forall>i < length (hc_logs cfg). \<forall>k v. (hc_logs cfg ! i) k = Some v \<longleftrightarrow> delivered msgs i k v)"

lemma applier_step_iff:
  assumes "logs_are msgs cfg" and "i < length (hc_logs cfg)" and "\<forall>j k v. delivered msgs j k v \<longrightarrow> j < length (hc_logs cfg)"
    and "consistent_run msgs"
  shows "(\<exists>cfg'. applier_step i m cfg = Inr cfg') \<longleftrightarrow> consistent_run (msgs @ [(i, m)]) \<and>
      (am_CommandValid m \<longrightarrow> am_CommandIndex m > 1 \<longrightarrow> (\<exists>v. delivered msgs i (am_CommandIndex m - 1) v))"
    and "applier_step i m cfg = Inr cfg' \<Longrightarrow> logs_are (msgs @ [(i, m)]) cfg'"
proof -
  have at: "(hc_logs cfg ! j) k = Some v \<longleftrightarrow> delivered msgs j k v" if "j < length (hc_logs cfg)" for j k v
    using assms(1) that by (simp add: logs_are_def)
  have all: "(\<forall>l \<in> set (hc_logs cfg). \<forall>old. l k = Some old \<longrightarrow> old = v) \<longleftrightarrow> (\<forall>j w. delivered msgs j k w \<longrightarrow> w = v)" for k v
    using at assms(3) unfolding all_set_conv_all_nth by metis
  show "(\<exists>cfg'. applier_step i m cfg = Inr cfg') \<longleftrightarrow> consistent_run (msgs @ [(i, m)]) \<and>
      (am_CommandValid m \<longrightarrow> am_CommandIndex m > 1 \<longrightarrow> (\<exists>v. delivered msgs i (am_CommandIndex m - 1) v))"
    unfolding applier_step_Inr consistent_run_snoc all using assms(2,4) at by (cases "am_CommandValid m") auto
  assume s: "applier_step i m cfg = Inr cfg'"
  show "logs_are (msgs @ [(i, m)]) cfg'"
  proof (cases "am_CommandValid m")
    case True
    then have logs: "hc_logs cfg' = (hc_logs cfg)[i := (hc_logs cfg ! i)(am_CommandIndex m \<mapsto> am_Command m)]"
      and same: "\<forall>j w. delivered msgs j (am_CommandIndex m) w \<longrightarrow> w = am_Command m"
      using s unfolding applier_step_Inr all by (auto simp: checkLogs_def Let_def)
    show ?thesis
      unfolding logs_are_def delivered_snoc logs using at same True assms(2) by (auto simp: nth_list_update)
  next
    case False
    then show ?thesis using s assms(1) by (simp add: applier_step_Inr logs_are_def delivered_snoc)
  qed
qed

lemma appliers_iff:
  assumes "\<And>i m. (i, m) \<in> set msgs \<Longrightarrow> i < length (hc_logs cfg)" and "\<forall>l \<in> set (hc_logs cfg). l = Map.empty"
  shows "((\<exists>cfg'. appliers msgs cfg = Inr cfg') \<longleftrightarrow> consistent_run msgs \<and> ordered_run [] msgs) \<and>
    (\<forall>cfg'. appliers msgs cfg = Inr cfg' \<longrightarrow> logs_are msgs cfg' \<and>
       length (hc_logs cfg') = length (hc_logs cfg) \<and> hc_applyErr cfg' = hc_applyErr cfg)"
  using assms(1)
proof (induction msgs rule: rev_induct)
  case Nil
  have "hc_logs cfg ! i = Map.empty" if "i < length (hc_logs cfg)" for i using assms(2) that by simp
  then show ?case by (auto simp: consistent_run_def delivered_def logs_are_def)
next
  case (snoc x msgs)
  obtain i m where x: "x = (i, m)" by (cases x)
  have i: "i < length (hc_logs cfg)" using snoc.prems [of i m] x by simp
  have dl: "j < length (hc_logs cfg)" if "delivered msgs j k v" for j k v
    using that snoc.prems by (auto simp: delivered_def)
  have IH: "(\<exists>cfg'. appliers msgs cfg = Inr cfg') \<longleftrightarrow> consistent_run msgs \<and> ordered_run [] msgs"
    "appliers msgs cfg = Inr c \<Longrightarrow> logs_are msgs c \<and> length (hc_logs c) = length (hc_logs cfg) \<and> hc_applyErr c = hc_applyErr cfg" for c
    using snoc.IH snoc.prems by auto
  have run: "appliers (msgs @ [x]) cfg = Inr c \<longleftrightarrow> (\<exists>c1. appliers msgs cfg = Inr c1 \<and> applier_step i m c1 = Inr c)" for c
    by (simp add: x go_fold_append go_bind_Inr_iff)
  show ?case
  proof (cases "\<exists>c1. appliers msgs cfg = Inr c1")
    case False
    have "\<not> (\<exists>c. appliers (msgs @ [x]) cfg = Inr c)" unfolding run using False by blast
    moreover have "\<not> (consistent_run (msgs @ [x]) \<and> ordered_run [] (msgs @ [x]))"
      using IH(1) False unfolding x consistent_run_snoc ordered_run_snoc by blast
    ultimately show ?thesis by blast
  next
    case True
    then obtain c1 where c1: "appliers msgs cfg = Inr c1" by blast
    note l1 = IH(2) [OF c1]
    have cons: "consistent_run msgs" "ordered_run [] msgs" using IH(1) c1 by auto
    have st: "logs_are msgs c1" "i < length (hc_logs c1)" "\<forall>j k v. delivered msgs j k v \<longrightarrow> j < length (hc_logs c1)"
      using l1 i dl by auto
    have "(\<exists>c. appliers (msgs @ [x]) cfg = Inr c) \<longleftrightarrow> (\<exists>c. applier_step i m c1 = Inr c)"
      by (simp add: run c1)
    also have "\<dots> \<longleftrightarrow> consistent_run (msgs @ [x]) \<and> ordered_run [] (msgs @ [x])"
      unfolding applier_step_iff(1) [OF st cons(1)] x ordered_run_snoc using cons(2) by simp
    finally have "(\<exists>c. appliers (msgs @ [x]) cfg = Inr c) \<longleftrightarrow> consistent_run (msgs @ [x]) \<and> ordered_run [] (msgs @ [x])" .
    moreover have "logs_are (msgs @ [x]) c \<and> length (hc_logs c) = length (hc_logs cfg) \<and> hc_applyErr c = hc_applyErr cfg"
      if "appliers (msgs @ [x]) cfg = Inr c" for c
    proof -
      have s: "applier_step i m c1 = Inr c" using that c1 by (simp add: run)
      show ?thesis using applier_step_iff(2) [OF st cons(1) s] applier_step_frame [OF s] l1 x by simp
    qed
    ultimately show ?thesis by blast
  qed
qed

section \<open>Finding the leader\<close>

definition leads :: "'c config \<Rightarrow> nat \<Rightarrow> bool" where
  "leads cfg i \<longleftrightarrow> i < hc_n cfg \<and> hc_connected cfg ! i \<and> (\<exists>rf. hc_rafts cfg ! i = Some rf \<and> snd (GetState rf))"

definition term_of :: "'c config \<Rightarrow> nat \<Rightarrow> int" where
  "term_of cfg i = (case hc_rafts cfg ! i of Some rf \<Rightarrow> currentTerm rf | None \<Rightarrow> 0)"

definition leaders_in :: "'c config \<Rightarrow> nat \<Rightarrow> int \<Rightarrow> nat list" where
  "leaders_in cfg k t = filter (\<lambda>i. leads cfg i \<and> term_of cfg i = t) [0..<k]"

lemma leaders_of_eq:
  assumes "\<forall>i < hc_n cfg. hc_connected cfg ! i \<longrightarrow> hc_rafts cfg ! i \<noteq> None"
  shows "leaders_of cfg = Inr (\<lambda>t. if leaders_in cfg (hc_n cfg) t = [] then None else Some (leaders_in cfg (hc_n cfg) t))"
proof -
  let ?f = "\<lambda>i m. if hc_connected cfg ! i
        then go_bind (peer_state cfg i) (\<lambda>(t, leader).
               if leader then Inr (m(t \<mapsto> (case m t of Some is \<Rightarrow> is | None \<Rightarrow> []) @ [i])) else Inr m)
        else Inr m"
  have "go_fold ?f [0..<k] Map.empty = Inr (\<lambda>t. if leaders_in cfg k t = [] then None else Some (leaders_in cfg k t))"
    if "k \<le> hc_n cfg" for k
    using that
  proof (induction k)
    case 0
    then show ?case by (simp add: leaders_in_def)
  next
    case (Suc k)
    let ?m = "\<lambda>k t. if leaders_in cfg k t = [] then None else Some (leaders_in cfg k t)"
    have k: "k < hc_n cfg" using Suc.prems by simp
    have "?f k (?m k) = Inr (?m (Suc k))"
    proof (cases "leads cfg k")
      case True
      then obtain rf where rf: "hc_connected cfg ! k" "hc_rafts cfg ! k = Some rf" "snd (GetState rf)"
        by (auto simp: leads_def)
      have "leaders_in cfg (Suc k) t = leaders_in cfg k t @ (if t = currentTerm rf then [k] else [])" for t
        using True rf(2) by (auto simp: leaders_in_def term_of_def)
      then show ?thesis using rf by (auto simp: peer_state_def GetState_def fun_eq_iff split: prod.splits)
    next
      case False
      then have "leaders_in cfg (Suc k) t = leaders_in cfg k t" for t by (simp add: leaders_in_def)
      then show ?thesis using False assms k
        by (cases "hc_rafts cfg ! k") (auto simp: peer_state_def leads_def GetState_def)
    qed
    then show ?case using Suc by (simp add: go_fold_append)
  qed
  then show ?thesis by (simp add: leaders_of_def)
qed

lemma foldl_max_mem:
  "foldl (\<lambda>a t. if t > a then t else a) z ts \<in> insert z (set ts) \<and>
   (\<forall>t \<in> insert z (set ts). t \<le> foldl (\<lambda>a t. if t > a then t else a) (z :: int) ts)"
  by (induction ts arbitrary: z) (simp, fastforce)

lemma set_leaders_in: "set (leaders_in cfg (hc_n cfg) t) = {i. leads cfg i \<and> term_of cfg i = t}"
  by (auto simp: leaders_in_def leads_def)

lemma leaders_in_several:
  "length (leaders_in cfg n t) > 1 \<longleftrightarrow> (\<exists>i \<in> set (leaders_in cfg n t). \<exists>j \<in> set (leaders_in cfg n t). i \<noteq> j)"
proof -
  have "distinct (leaders_in cfg n t)" by (simp add: leaders_in_def)
  then have "length (leaders_in cfg n t) = card (set (leaders_in cfg n t))" by (simp add: distinct_card)
  then show ?thesis using card_le_Suc0_iff_eq [of "set (leaders_in cfg n t)"] by (auto simp: not_less [symmetric])
qed

lemma if_flip: "(if A then x else if \<not> B then y else z) = (if A then x else if B then z else y)"
  by simp

text \<open>The terms of the connected leaders, as \<open>checkOneLeader\<close> finds them in its map.\<close>

lemma one_leader_eq:
  assumes "\<forall>i < hc_n cfg. hc_connected cfg ! i \<longrightarrow> hc_rafts cfg ! i \<noteq> None"
  obtains terms where "set terms = term_of cfg ` {i. leads cfg i}"
    and "one_leader cfg =
      (if \<exists>t \<in> set terms. length (leaders_in cfg (hc_n cfg) t) > 1 then Inl (Fatal ''term has more than one leader'')
       else if terms = [] then Inr None
       else case leaders_in cfg (hc_n cfg) (foldl (\<lambda>a t. if t > a then t else a) (- 1) terms) of
              [] \<Rightarrow> Inl IndexOutOfRange | i # _ \<Rightarrow> Inr (Some i))"
proof -
  let ?L = "leaders_in cfg (hc_n cfg)"
  let ?terms = "filter (\<lambda>t. ?L t \<noteq> []) (remdups (map (term_of cfg) [0..<hc_n cfg]))"
  have s: "set ?terms = term_of cfg ` {i. leads cfg i}"
  proof -
    have "?L t \<noteq> [] \<longleftrightarrow> t \<in> term_of cfg ` {i. leads cfg i}" for t
      unfolding set_empty [symmetric] set_leaders_in by auto
    then show ?thesis by (auto simp: leads_def)
  qed
  have "one_leader cfg =
      (if \<exists>t \<in> set ?terms. length (?L t) > 1 then Inl (Fatal ''term has more than one leader'')
       else if ?terms = [] then Inr None
       else case ?L (foldl (\<lambda>a t. if t > a then t else a) (- 1) ?terms) of
              [] \<Rightarrow> Inl IndexOutOfRange | i # _ \<Rightarrow> Inr (Some i))"
  proof -
    define m where "m = (\<lambda>t. if ?L t = [] then None else Some (?L t))"
    have m: "leaders_of cfg = Inr m" using leaders_of_eq [OF assms] by (simp add: m_def)
    have nonempty: "m t \<noteq> None \<longleftrightarrow> ?L t \<noteq> []" for t by (simp add: m_def)
    have several: "list_ex (\<lambda>t. length (the (m t)) > 1) ?terms \<longleftrightarrow> (\<exists>t \<in> set ?terms. length (?L t) > 1)"
      by (auto simp: list_ex_iff m_def)
    have found: "(case m t of Some (i # _) \<Rightarrow> Inr (Some i) | _ \<Rightarrow> Inl IndexOutOfRange) =
      (case ?L t of [] \<Rightarrow> Inl IndexOutOfRange | i # _ \<Rightarrow> Inr (Some i))" for t
      by (simp add: m_def split: list.split)
    show ?thesis
      unfolding one_leader_def m go_bind.simps nonempty term_of_def [symmetric] Let_def several found
      by (rule if_flip)
  qed
  then show thesis using that s by blast
qed

section \<open>Properties\<close>

text \<open>
  Finding the leader. With every connected peer running, an iteration of \<open>checkOneLeader\<close> finds nobody
  exactly when no connected peer leads, fails exactly when two of them lead in the same term, and
  otherwise returns the connected leader whose term is above that of every other one.
\<close>

theorem one_leader_correct:
  assumes "\<forall>i < hc_n cfg. hc_connected cfg ! i \<longrightarrow> hc_rafts cfg ! i \<noteq> None"
    and "\<forall>i. leads cfg i \<longrightarrow> term_of cfg i \<ge> 0"
  shows "(one_leader cfg = Inr None \<longleftrightarrow> (\<forall>i. \<not> leads cfg i)) \<and>
    ((\<exists>e. one_leader cfg = Inl e) \<longleftrightarrow>
       (\<exists>i j. i \<noteq> j \<and> leads cfg i \<and> leads cfg j \<and> term_of cfg i = term_of cfg j)) \<and>
    (\<forall>i. one_leader cfg = Inr (Some i) \<longrightarrow>
       leads cfg i \<and> (\<forall>j. leads cfg j \<longrightarrow> j \<noteq> i \<longrightarrow> term_of cfg j < term_of cfg i))"
proof -
  let ?L = "leaders_in cfg (hc_n cfg)"
  obtain terms where ts: "set terms = term_of cfg ` {i. leads cfg i}"
    and eq: "one_leader cfg =
      (if \<exists>t \<in> set terms. length (?L t) > 1 then Inl (Fatal ''term has more than one leader'')
       else if terms = [] then Inr None
       else case ?L (foldl (\<lambda>a t. if t > a then t else a) (- 1) terms) of
              [] \<Rightarrow> Inl IndexOutOfRange | i # _ \<Rightarrow> Inr (Some i))"
    using assms(1) by (rule one_leader_eq)
  let ?t = "foldl (\<lambda>a t. if t > a then t else a) (- 1) terms"
  have several: "(\<exists>t \<in> set terms. length (?L t) > 1) \<longleftrightarrow>
      (\<exists>i j. i \<noteq> j \<and> leads cfg i \<and> leads cfg j \<and> term_of cfg i = term_of cfg j)" (is "?two \<longleftrightarrow> _")
    unfolding leaders_in_several set_leaders_in ts Bex_def mem_Collect_eq
    by (metis imageI mem_Collect_eq)
  have none: "terms = [] \<longleftrightarrow> (\<forall>i. \<not> leads cfg i)" unfolding set_empty [symmetric] ts by auto
  show ?thesis
  proof (cases "?two \<or> terms = []")
    case True
    then consider "?two" | "\<not> ?two" "terms = []" by blast
    then show ?thesis
    proof cases
      case 1
      then obtain i where "leads cfg i" using several by blast
      moreover have "one_leader cfg = Inl (Fatal ''term has more than one leader'')" unfolding eq using 1 by (rule if_P)
      ultimately show ?thesis using 1 several by (metis Inl_not_Inr)
    next
      case 2
      then have "one_leader cfg = Inr None" unfolding eq by simp
      then show ?thesis using 2 several none by simp
    qed
  next
    case False
    have "\<forall>t \<in> set terms. t \<ge> 0" using assms(2) ts by auto
    then have top: "?t \<in> set terms" "\<forall>t \<in> set terms. t \<le> ?t"
      using foldl_max_mem [of "- 1" terms] False by (force simp: neq_Nil_conv)+
    then have "set (?L ?t) \<noteq> {}" unfolding set_leaders_in ts by auto
    then obtain i rest where i: "?L ?t = i # rest" by (cases "?L ?t") auto
    have li: "leads cfg i" "term_of cfg i = ?t" using set_leaders_in [of cfg ?t] i by auto
    have "term_of cfg j < term_of cfg i" if "leads cfg j" "j \<noteq> i" for j
    proof -
      have "term_of cfg j \<le> ?t" using top(2) ts that(1) by auto
      moreover have "term_of cfg j \<noteq> term_of cfg i" using False several that li(1) by blast
      ultimately show ?thesis using li(2) by simp
    qed
    moreover have "one_leader cfg = Inr (Some i)"
      unfolding eq using False i by (simp only: if_False de_Morgan_disj list.case)
    moreover have "\<not> (\<exists>i j. i \<noteq> j \<and> leads cfg i \<and> leads cfg j \<and> term_of cfg i = term_of cfg j)"
      using False several by blast
    ultimately show ?thesis using li(1) by auto
  qed
qed

definition leader_sample :: "int config" where
  "leader_sample = (blank_config 2 False 0)\<lparr>hc_connected := [True, False],
     hc_rafts := [Some ((Make 2 0 MakePersister 0 0)\<lparr>leaderId := 0, currentTerm := 3\<rparr>), None]\<rparr>"

theorem one_leader_correct_witness: "\<exists>i. one_leader leader_sample = Inr (Some i) \<and> leads leader_sample i"
proof -
  have f: "hc_n leader_sample = 2" "hc_connected leader_sample = [True, False]"
    "hc_rafts leader_sample = [Some ((Make 2 0 MakePersister 0 0)\<lparr>leaderId := 0, currentTerm := 3\<rparr>), None]"
    by (simp_all add: leader_sample_def blank_config_def Let_def setunreliable_def)
  have ld: "leads leader_sample i \<longleftrightarrow> i = 0" for i
    by (cases i) (auto simp: leads_def f GetState_def Make_fields)
  have "\<forall>i < hc_n leader_sample. hc_connected leader_sample ! i \<longrightarrow> hc_rafts leader_sample ! i \<noteq> None"
    by (auto simp: f numeral_2_eq_2 less_Suc_eq)
  moreover have "\<forall>i. leads leader_sample i \<longrightarrow> term_of leader_sample i \<ge> 0"
    by (simp add: ld term_of_def f)
  ultimately have r: "one_leader leader_sample \<noteq> Inr None" "\<nexists>e. one_leader leader_sample = Inl e"
    "\<forall>i. one_leader leader_sample = Inr (Some i) \<longrightarrow> leads leader_sample i"
    using one_leader_correct [of leader_sample] ld by auto
  then show ?thesis by (metis (no_types) not_None_eq sum.exhaust)
qed

text \<open>
  C26. The tester neither misses nor invents a disagreement. Started on empty logs, the appliers accept a
  sequence of deliveries if and only if no two servers apply different commands at the same index
  and every server applies its indexes without a gap; and then \<open>nCommitted\<close> does not fail and reports
  how many servers applied an index and the command they applied there.
\<close>

theorem appliers_decide_agreement:
  fixes msgs :: "(nat \<times> 'c ApplyMsg) list"
  assumes "fst ` set msgs \<subseteq> {..<n}"
  shows "((\<exists>cfg. appliers msgs (blank_config n unreliable now) = Inr cfg) \<longleftrightarrow> consistent_run msgs \<and> ordered_run [] msgs) \<and>
    (\<forall>cfg. appliers msgs (blank_config n unreliable now) = Inr cfg \<longrightarrow>
       (\<exists>cmd. nCommitted k cfg = Inr (int (card {i. \<exists>v. delivered msgs i k v}), cmd) \<and>
              (\<forall>i v. delivered msgs i k v \<longrightarrow> v = cmd)))"
proof -
  let ?cfg0 = "blank_config n unreliable now :: 'c config"
  have logs0: "length (hc_logs ?cfg0) = n" "\<forall>l \<in> set (hc_logs ?cfg0). l = Map.empty" "hc_applyErr ?cfg0 = replicate n ''''"
    by (simp_all add: blank_config_def Let_def setunreliable_def)
  have ok: "((\<exists>cfg. appliers msgs ?cfg0 = Inr cfg) \<longleftrightarrow> consistent_run msgs \<and> ordered_run [] msgs) \<and>
    (\<forall>cfg. appliers msgs ?cfg0 = Inr cfg \<longrightarrow> logs_are msgs cfg \<and> length (hc_logs cfg) = n \<and> hc_applyErr cfg = replicate n '''')"
    using appliers_iff [of msgs ?cfg0] assms logs0 by fastforce
  moreover have "\<exists>cmd. nCommitted k cfg = Inr (int (card {i. \<exists>v. delivered msgs i k v}), cmd) \<and>
              (\<forall>i v. delivered msgs i k v \<longrightarrow> v = cmd)" if "appliers msgs ?cfg0 = Inr cfg" for cfg
  proof -
    have l: "logs_are msgs cfg" "length (hc_logs cfg) = n" "hc_applyErr cfg = replicate n ''''" and cons: "consistent_run msgs"
      using ok that by auto
    have at: "(hc_logs cfg ! i) k = Some v \<longleftrightarrow> delivered msgs i k v" if "i < n" for i k v
      using l(1,2) that by (simp add: logs_are_def)
    have rng: "i < n" if "delivered msgs i k v" for i k v using that assms by (force simp: delivered_def)
    have "logs_agree cfg"
      using cons at unfolding logs_agree_def consistent_run_def by (auto simp: in_set_conv_nth l(2))
    then obtain cmd where n: "nCommitted k cfg = Inr (int (length (filter (\<lambda>l. l k \<noteq> None) (hc_logs cfg))), cmd)"
      "\<forall>l \<in> set (hc_logs cfg). \<forall>v. l k = Some v \<longrightarrow> v = cmd"
      using nCommitted_agree [of cfg k] l(2,3) by auto
    have "(hc_logs cfg ! i) k \<noteq> None \<longleftrightarrow> (\<exists>v. delivered msgs i k v)" if "i < n" for i
      using at [OF that, of k] by (cases "(hc_logs cfg ! i) k") auto
    then have "{i. i < length (hc_logs cfg) \<and> (hc_logs cfg ! i) k \<noteq> None} = {i. \<exists>v. delivered msgs i k v}"
      unfolding l(2) using rng by blast
    then have "length (filter (\<lambda>l. l k \<noteq> None) (hc_logs cfg)) = card {i. \<exists>v. delivered msgs i k v}"
      by (simp add: length_filter_conv_card)
    moreover have "v = cmd" if "delivered msgs i k v" for i v
    proof -
      have "hc_logs cfg ! i \<in> set (hc_logs cfg)" using rng [OF that] l(2) by simp
      then show ?thesis using n(2) at [OF rng [OF that]] that by blast
    qed
    ultimately show ?thesis using n(1) by auto
  qed
  ultimately show ?thesis by blast
qed

definition sample_msg :: "int \<Rightarrow> int \<Rightarrow> int ApplyMsg" where
  "sample_msg k v = \<lparr>am_CommandValid = True, am_Command = Some v, am_CommandIndex = k, am_SnapshotValid = False,
     am_Snapshot = [], am_SnapshotTerm = 0, am_SnapshotIndex = 0\<rparr>"

definition good_run :: "(nat \<times> int ApplyMsg) list" where
  "good_run = [(0, sample_msg 1 7), (1, sample_msg 1 7), (1, sample_msg 2 8)]"

definition bad_run :: "(nat \<times> int ApplyMsg) list" where
  "bad_run = [(0, sample_msg 1 7), (1, sample_msg 1 9)]"

theorem appliers_decide_agreement_witness:
  "(\<exists>cfg. appliers good_run (blank_config 2 False 0) = Inr cfg) \<and>
   \<not> (\<exists>cfg. appliers bad_run (blank_config 2 False 0) = Inr cfg)"
proof
  have "fst ` set good_run \<subseteq> {..<2}" by (auto simp: good_run_def)
  note good = conjunct1 [OF appliers_decide_agreement [OF this, of False 0]]
  have "consistent_run good_run" "ordered_run [] good_run"
    by (auto simp: good_run_def consistent_run_def delivered_def sample_msg_def)
  then show "\<exists>cfg. appliers good_run (blank_config 2 False 0) = Inr cfg" using good by blast
  have "fst ` set bad_run \<subseteq> {..<2}" by (auto simp: bad_run_def)
  note bad = conjunct1 [OF appliers_decide_agreement [OF this, of False 0]]
  have "delivered bad_run 0 1 (Some 7)" "delivered bad_run 1 1 (Some 9)"
    by (auto simp: bad_run_def delivered_def sample_msg_def)
  then have "\<not> consistent_run bad_run" unfolding consistent_run_def by fastforce
  then show "\<not> (\<exists>cfg. appliers bad_run (blank_config 2 False 0) = Inr cfg)" using bad by blast
qed

end
