(* ===== verification/Raft_Harness_Inv.thy ===== *)
theory Raft_Harness_Inv
  imports Raft_Harness
begin

text \<open>
  What the Raft tester guarantees about its own network: whatever sequence of connects,
  disconnects, crashes and restarts a test performs, a message gets through exactly between
  connected peers, and an instance that was crashed can no longer send.
\<close>

section \<open>The state of the links\<close>

definition up :: "'c config \<Rightarrow> nat \<Rightarrow> bool" where
  "up cfg i \<longleftrightarrow> i < hc_n cfg \<and> hc_connected cfg ! i"

definition sizes_ok :: "'c config \<Rightarrow> bool" where
  "sizes_ok cfg \<longleftrightarrow> length (hc_connected cfg) = hc_n cfg \<and> length (hc_endnames cfg) = hc_n cfg \<and>
     length (hc_rafts cfg) = hc_n cfg \<and> length (hc_saved cfg) = hc_n cfg \<and>
     (\<forall>i < hc_n cfg. \<forall>row. hc_endnames cfg ! i = Some row \<longrightarrow> length row = hc_n cfg)"

definition enabled_ok :: "'c config \<Rightarrow> bool" where
  "enabled_ok cfg \<longleftrightarrow> (\<forall>e. nw_enabled (hc_net cfg) e \<longleftrightarrow>
     (\<exists>i j. end_at (hc_endnames cfg) i j = Inr e \<and> up cfg i \<and> up cfg j))"

definition routes_ok :: "'c config \<Rightarrow> bool" where
  "routes_ok cfg \<longleftrightarrow>
     (\<forall>i j e. end_at (hc_endnames cfg) i j = Inr e \<longrightarrow> nw_connections (hc_net cfg) e = Some j) \<and>
     (\<forall>i < hc_n cfg. nw_servers (hc_net cfg) i = None \<longleftrightarrow> hc_rafts cfg ! i = None)"

definition link_inv :: "'c config \<Rightarrow> bool" where
  "link_inv cfg \<longleftrightarrow> sizes_ok cfg \<and> table_ok (hc_endnames cfg) (nw_ends (hc_net cfg)) \<and>
     enabled_ok cfg \<and> routes_ok cfg"

lemma end_at_range:
  "sizes_ok cfg \<Longrightarrow> end_at (hc_endnames cfg) i j = Inr e \<Longrightarrow> i < hc_n cfg \<and> j < hc_n cfg"
  by (auto simp: end_at_def sizes_ok_def go_nth_Inr_iff split: if_splits option.splits)

lemma end_at_row: "end_at es i j = Inr e \<Longrightarrow> es ! i \<noteq> None"
  by (auto simp: end_at_def split: if_splits option.splits)

text \<open>Connecting and disconnecting only switch ends on and off.\<close>

lemma cfg_connect_Inr:
  assumes "cfg_connect i cfg = Inr cfg'"
  obtains net2 ls where "i < length (hc_connected cfg)" and "set_links (hc_endnames cfg) True ls (hc_net cfg) = Inr net2"
    and "cfg' = cfg\<lparr>hc_connected := (hc_connected cfg)[i := True], hc_net := net2\<rparr>"
    and "set ls = {i} \<times> {j. up cfg' j} \<union> {j. up cfg' j} \<times> {i}"
proof -
  let ?up = "filter (\<lambda>j. (hc_connected cfg)[i := True] ! j) [0..<hc_n cfg]"
  let ?ls = "map (\<lambda>j. (i, j)) ?up @ map (\<lambda>j. (j, i)) ?up"
  obtain net2 where n: "i < length (hc_connected cfg)" "set_links (hc_endnames cfg) True ?ls (hc_net cfg) = Inr net2"
    "cfg' = cfg\<lparr>hc_connected := (hc_connected cfg)[i := True], hc_net := net2\<rparr>"
    using assms by (auto simp: cfg_connect_def Let_def go_bind_Inr_iff set_links_append [symmetric] split: if_splits)
  moreover have "set ?ls = {i} \<times> {j. up cfg' j} \<union> {j. up cfg' j} \<times> {i}"
    unfolding n(3) up_def by auto
  ultimately show thesis by (rule that)
qed

lemma cfg_disconnect_Inr:
  assumes "cfg_disconnect i cfg = Inr cfg'"
  obtains net2 ls where "i < length (hc_connected cfg)" and "set_links (hc_endnames cfg) False ls (hc_net cfg) = Inr net2"
    and "cfg' = cfg\<lparr>hc_connected := (hc_connected cfg)[i := False], hc_net := net2\<rparr>"
    and "set ls = {(a, b). (a = i \<and> b < hc_n cfg \<or> b = i \<and> a < hc_n cfg) \<and> hc_endnames cfg ! a \<noteq> None}"
proof -
  let ?ls = "map (\<lambda>j. (i, j)) (filter (\<lambda>j. hc_endnames cfg ! i \<noteq> None) [0..<hc_n cfg]) @
    map (\<lambda>j. (j, i)) (filter (\<lambda>j. hc_endnames cfg ! j \<noteq> None) [0..<hc_n cfg])"
  obtain net2 where n: "i < length (hc_connected cfg)" "set_links (hc_endnames cfg) False ?ls (hc_net cfg) = Inr net2"
    "cfg' = cfg\<lparr>hc_connected := (hc_connected cfg)[i := False], hc_net := net2\<rparr>"
    using assms by (auto simp: cfg_disconnect_def Let_def go_bind_Inr_iff set_links_append [symmetric] split: if_splits)
  show thesis by (rule that [OF n]) auto
qed

lemma set_links_frame:
  assumes "set_links es b ls net = Inr net'"
  shows "nw_ends net' = nw_ends net" and "nw_connections net' = nw_connections net" and "nw_servers net' = nw_servers net"
    and "nw_enabled net' e = (if e \<in> link_ends es (set ls) then b else nw_enabled net e)"
  using assms by (auto simp: set_links_Inr)

lemma cfg_connect_inv:
  assumes "cfg_connect i cfg = Inr cfg'" and "link_inv cfg"
  shows "link_inv cfg'"
proof -
  obtain net2 ls where c: "i < length (hc_connected cfg)" "set_links (hc_endnames cfg) True ls (hc_net cfg) = Inr net2"
    "cfg' = cfg\<lparr>hc_connected := (hc_connected cfg)[i := True], hc_net := net2\<rparr>"
    "set ls = {i} \<times> {j. up cfg' j} \<union> {j. up cfg' j} \<times> {i}"
    using assms(1) by (rule cfg_connect_Inr)
  have inv: "sizes_ok cfg" "enabled_ok cfg" "routes_ok cfg" "table_ok (hc_endnames cfg) (nw_ends (hc_net cfg))"
    using assms(2) by (auto simp: link_inv_def)
  note net = set_links_frame [OF c(2)]
  have up': "up cfg' a \<longleftrightarrow> up cfg a \<or> a = i" for a
    using c(1,3) inv(1) by (auto simp: up_def sizes_ok_def nth_list_update)
  have "nw_enabled net2 e \<longleftrightarrow> (\<exists>a b. end_at (hc_endnames cfg) a b = Inr e \<and> up cfg' a \<and> up cfg' b)" for e
    using inv(2) unfolding net(4) c(4) up' enabled_ok_def link_ends_def by auto
  then have "enabled_ok cfg'" using c(3) by (simp add: enabled_ok_def)
  then show ?thesis using inv net c(3) by (auto simp: link_inv_def sizes_ok_def routes_ok_def)
qed

lemma cfg_disconnect_inv:
  assumes "cfg_disconnect i cfg = Inr cfg'" and "link_inv cfg"
  shows "link_inv cfg'"
proof -
  obtain net2 ls where c: "i < length (hc_connected cfg)" "set_links (hc_endnames cfg) False ls (hc_net cfg) = Inr net2"
    "cfg' = cfg\<lparr>hc_connected := (hc_connected cfg)[i := False], hc_net := net2\<rparr>"
    "set ls = {(a, b). (a = i \<and> b < hc_n cfg \<or> b = i \<and> a < hc_n cfg) \<and> hc_endnames cfg ! a \<noteq> None}"
    using assms(1) by (rule cfg_disconnect_Inr)
  have inv: "sizes_ok cfg" "enabled_ok cfg" "routes_ok cfg" "table_ok (hc_endnames cfg) (nw_ends (hc_net cfg))"
    using assms(2) by (auto simp: link_inv_def)
  note net = set_links_frame [OF c(2)]
  have up': "up cfg' a \<longleftrightarrow> up cfg a \<and> a \<noteq> i" for a
    using c(1,3) inv(1) by (auto simp: up_def sizes_ok_def nth_list_update)
  have ls: "e \<in> link_ends (hc_endnames cfg) (set ls) \<longleftrightarrow> a = i \<or> b = i" if "end_at (hc_endnames cfg) a b = Inr e" for a b e
    unfolding link_ends_iff [OF inv(4) that] c(4) using end_at_range [OF inv(1) that] end_at_row [OF that] by auto
  have "nw_enabled net2 e \<longleftrightarrow> (\<exists>a b. end_at (hc_endnames cfg) a b = Inr e \<and> up cfg' a \<and> up cfg' b)" for e
    using inv(2) ls unfolding net(4) up' enabled_ok_def by metis
  then have "enabled_ok cfg'" using c(3) by (simp add: enabled_ok_def)
  then show ?thesis using inv net c(3) by (auto simp: link_inv_def sizes_ok_def routes_ok_def)
qed

section \<open>Crashing and restarting\<close>

lemma saved_now_frame [simp]:
  "saved_now (cfg\<lparr>hc_net := x\<rparr>) i = saved_now cfg i" "saved_now (cfg\<lparr>hc_connected := y\<rparr>) i = saved_now cfg i"
  "saved_now (cfg\<lparr>hc_endnames := z\<rparr>) i = saved_now cfg i"
  by (simp_all add: saved_now_def split: option.split)

lemma copy_id: "map_option Copy x = x"
  by (cases x) (simp_all add: Copy_def clone_bytes_def)

lemma resave_id: "map_option (\<lambda>ps. SaveStateAndSnapshot (ReadRaftState ps) (ReadSnapshot ps) MakePersister) x = x"
  by (cases x) (simp_all add: SaveStateAndSnapshot_def ReadRaftState_def ReadSnapshot_def clone_bytes_def
      MakePersister_def)

lemma crash1_Inr:
  assumes "crash1 i cfg = Inr cfg'"
  obtains cfg1 saved' where "cfg_disconnect i cfg = Inr cfg1"
    and "cfg' = cfg1\<lparr>hc_net := DeleteServer i (hc_net cfg1), hc_rafts := (hc_rafts cfg1)[i := None],
      hc_saved := (hc_saved cfg1)[i := saved']\<rparr>"
    and "saved' = saved_now cfg i"
proof -
  obtain cfg1 where d: "cfg_disconnect i cfg = Inr cfg1"
    using assms by (auto simp: crash1_def go_bind_Inr_iff)
  have sv: "saved_now cfg1 i = saved_now cfg i"
    by (rule cfg_disconnect_Inr [OF d]) simp
  have "cfg' = cfg1\<lparr>hc_net := DeleteServer i (hc_net cfg1), hc_rafts := (hc_rafts cfg1)[i := None],
      hc_saved := (hc_saved cfg1)[i := saved_now cfg i]\<rparr>"
    using assms d by (simp add: crash1_def Let_def sv copy_id resave_id)
  then show thesis using that d by blast
qed

lemma crash1_inv:
  assumes "crash1 i cfg = Inr cfg'" and "link_inv cfg"
  shows "link_inv cfg'" and "\<not> up cfg' i" and "hc_n cfg' = hc_n cfg" and "i < hc_n cfg" and "hc_rafts cfg' ! i = None"
proof -
  obtain cfg1 where d: "cfg_disconnect i cfg = Inr cfg1"
    and c: "cfg' = cfg1\<lparr>hc_net := DeleteServer i (hc_net cfg1), hc_rafts := (hc_rafts cfg1)[i := None],
      hc_saved := (hc_saved cfg1)[i := saved_now cfg i]\<rparr>"
    using assms(1) by (metis crash1_Inr)
  have inv: "link_inv cfg1" using d assms(2) by (rule cfg_disconnect_inv)
  obtain net2 ls where f: "i < length (hc_connected cfg)"
    "cfg1 = cfg\<lparr>hc_connected := (hc_connected cfg)[i := False], hc_net := net2\<rparr>"
    using d by (rule cfg_disconnect_Inr)
  have up': "up cfg' = up cfg1" by (simp add: c up_def fun_eq_iff)
  show "hc_n cfg' = hc_n cfg" using c f(2) by simp
  show "i < hc_n cfg" using f(1) assms(2) by (simp add: link_inv_def sizes_ok_def)
  then show "hc_rafts cfg' ! i = None" using c inv \<open>hc_n cfg' = hc_n cfg\<close>
    by (simp add: link_inv_def sizes_ok_def)
  show "\<not> up cfg' i" unfolding up' using f by (simp add: up_def)
  show "link_inv cfg'" using inv unfolding link_inv_def enabled_ok_def up'
    by (auto simp: c sizes_ok_def routes_ok_def DeleteServer_def nth_list_update)
qed

lemma start1_Inr:
  assumes "start1 names srv now rnd i cfg = Inr cfg'"
  obtains cfg1 net1 ps where "crash1 i cfg = Inr cfg1"
    and "make_ends (map names [0..<hc_n cfg1]) id (hc_n cfg1) (hc_net cfg1) = Inr net1"
    and "cfg' = cfg1\<lparr>hc_endnames := (hc_endnames cfg1)[i := Some (map names [0..<hc_n cfg1])],
      hc_saved := (hc_saved cfg1)[i := Some ps],
      hc_rafts := (hc_rafts cfg1)[i := Some (Make (hc_n cfg1) (int i) ps now rnd)], hc_net := AddServer i srv net1\<rparr>"
    and "ps = (case saved_now cfg1 i of Some p \<Rightarrow> Copy p | None \<Rightarrow> MakePersister)"
  using assms by (auto simp: start1_def Let_def go_bind_Inr_iff)

lemma Make_identity: "me (Make n self ps now rnd) = self \<and> \<not> killed (Make n self ps now rnd)"
  by (simp add: killed_def Make_def Let_def readPersist_def updateElectionTimeout_def split: option.splits prod.splits)

lemma start1_recovers:
  assumes "start1 names srv now rnd i cfg = Inr cfg'" and "link_inv cfg" and "hc_rafts cfg ! i = Some rf"
  shows "hc_rafts cfg' ! i = Some (Make (hc_n cfg) (int i) (Copy (rf_persister rf)) now rnd)"
proof -
  obtain cfg1 net1 ps where cr: "crash1 i cfg = Inr cfg1"
    and c: "cfg' = cfg1\<lparr>hc_endnames := (hc_endnames cfg1)[i := Some (map names [0..<hc_n cfg1])],
      hc_saved := (hc_saved cfg1)[i := Some ps],
      hc_rafts := (hc_rafts cfg1)[i := Some (Make (hc_n cfg1) (int i) ps now rnd)], hc_net := AddServer i srv net1\<rparr>"
    and ps: "ps = (case saved_now cfg1 i of Some p \<Rightarrow> Copy p | None \<Rightarrow> MakePersister)"
    using assms(1) by (rule start1_Inr)
  note cr1 = crash1_inv [OF cr assms(2)]
  have len: "i < length (hc_rafts cfg1)" "i < length (hc_saved cfg1)"
    using cr1(1,3,4) by (simp_all add: link_inv_def sizes_ok_def)
  have "hc_saved cfg1 ! i = saved_now cfg i"
    using len(2) by (rule_tac crash1_Inr [OF cr]) simp
  then have "saved_now cfg1 i = Some (rf_persister rf)"
    using cr1(5) assms(3) by (simp add: saved_now_def)
  then show ?thesis using len ps cr1(3) by (simp add: c)
qed

lemma start1_inv:
  assumes "start1 names srv now rnd i cfg = Inr cfg'" and "link_inv cfg"
  shows "link_inv cfg'"
proof -
  obtain cfg1 net1 ps where cr: "crash1 i cfg = Inr cfg1"
    and mk: "make_ends (map names [0..<hc_n cfg1]) id (hc_n cfg1) (hc_net cfg1) = Inr net1"
    and c: "cfg' = cfg1\<lparr>hc_endnames := (hc_endnames cfg1)[i := Some (map names [0..<hc_n cfg1])],
      hc_saved := (hc_saved cfg1)[i := Some ps],
      hc_rafts := (hc_rafts cfg1)[i := Some (Make (hc_n cfg1) (int i) ps now rnd)], hc_net := AddServer i srv net1\<rparr>"
    using assms(1) by (rule start1_Inr)
  note cr1 = crash1_inv [OF cr assms(2)]
  let ?row = "map names [0..<hc_n cfg1]" and ?es = "hc_endnames cfg1"
  have inv: "sizes_ok cfg1" "enabled_ok cfg1" "routes_ok cfg1" "table_ok ?es (nw_ends (hc_net cfg1))"
    using cr1(1) by (auto simp: link_inv_def)
  have i: "i < length ?es" using inv(1) cr1(3,4) by (simp add: sizes_ok_def)
  have net: "distinct ?row" "set ?row \<inter> nw_ends (hc_net cfg1) = {}" "nw_ends net1 = nw_ends (hc_net cfg1) \<union> set ?row"
    "nw_enabled net1 e \<longleftrightarrow> e \<notin> set ?row \<and> nw_enabled (hc_net cfg1) e"
    "nw_servers net1 = nw_servers (hc_net cfg1)" "j < hc_n cfg1 \<Longrightarrow> nw_connections net1 (names j) = Some j"
    "e \<notin> set ?row \<Longrightarrow> nw_connections net1 e = nw_connections (hc_net cfg1) e" for e j
    using make_ends_Inr [OF mk] by auto
  have old: "e \<notin> set ?row" if "end_at ?es a b = Inr e" for a b e
    using table_ok_ends [OF inv(4) that] net(2) by blast
  have row: "e \<in> set ?row" "b < hc_n cfg1 \<and> e = names b" if "go_nth ?row (int b) = Inr e" for b e
    using that by (auto simp: go_nth_Inr_iff)
  have up': "up cfg' = up cfg1" by (simp add: c up_def fun_eq_iff)
  have at: "end_at (hc_endnames cfg') a b = (if a = i then go_nth ?row (int b) else end_at ?es a b)" for a b
    using i by (simp add: c end_at_update)
  have "nw_enabled net1 e \<longleftrightarrow> (\<exists>a b. end_at (hc_endnames cfg') a b = Inr e \<and> up cfg1 a \<and> up cfg1 b)" for e
    using inv(2) cr1(2) old unfolding enabled_ok_def net(4) at by metis
  then have "enabled_ok cfg'" unfolding enabled_ok_def up' by (simp add: c AddServer_def)
  moreover have "table_ok (hc_endnames cfg') (nw_ends (hc_net cfg'))"
    using table_ok_update [OF inv(4) i net(1,2)] net(3) by (simp add: c AddServer_def)
  moreover have "sizes_ok cfg'"
    using inv(1) i by (auto simp: c sizes_ok_def nth_list_update split: if_splits)
  moreover have "nw_connections net1 e = Some b" if "end_at (hc_endnames cfg') a b = Inr e" for a b e
  proof (cases "a = i")
    case True
    then show ?thesis using that row(2) [of b e] net(6) by (simp add: at)
  next
    case False
    then have e: "end_at ?es a b = Inr e" using that by (simp add: at)
    then show ?thesis using net(7) [OF old [OF e]] inv(3) by (simp add: routes_ok_def)
  qed
  then have "routes_ok cfg'"
    using inv(1,3) net(5) unfolding routes_ok_def by (simp add: c AddServer_def nth_list_update sizes_ok_def)
  ultimately show ?thesis by (simp add: link_inv_def)
qed

section \<open>Runs of the tester\<close>

text \<open>
  What a test, the appliers and the peers do, in any order. \<open>hs_peer\<close> is any change a running peer
  makes to itself, and \<open>hs_traffic\<close> counts the requests and bytes that pass the network.
\<close>

definition harness_init :: "'c config \<Rightarrow> bool" where
  "harness_init cfg \<longleftrightarrow> (\<exists>n unreliable now env. make_config n unreliable now env = Inr cfg)"

inductive harness_step :: "'c config \<Rightarrow> 'c config \<Rightarrow> bool" where
  hs_connect: "cfg_connect i cfg = Inr cfg' \<Longrightarrow> harness_step cfg cfg'"
| hs_disconnect: "cfg_disconnect i cfg = Inr cfg' \<Longrightarrow> harness_step cfg cfg'"
| hs_crash: "crash1 i cfg = Inr cfg' \<Longrightarrow> harness_step cfg cfg'"
| hs_start: "start1 names srv now rnd i cfg = Inr cfg' \<Longrightarrow> harness_step cfg cfg'"
| hs_unreliable: "harness_step cfg (setunreliable unrel cfg)"
| hs_reordering: "harness_step cfg (setlongreordering longrel cfg)"
| hs_apply: "applier_step i m cfg = Inr cfg' \<Longrightarrow> harness_step cfg cfg'"
| hs_apply_snap: "applierSnap_step enc dec i m (lastAp, cfg) = Inr ((lastAp', cfg'), snap) \<Longrightarrow> harness_step cfg cfg'"
| hs_begin: "harness_step cfg (cfg_begin now cfg)"
| hs_peer: "hc_rafts cfg ! i = Some rf \<Longrightarrow> harness_step cfg (cfg\<lparr>hc_rafts := (hc_rafts cfg)[i := Some rf']\<rparr>)"
| hs_traffic: "harness_step cfg (cfg\<lparr>hc_net := (hc_net cfg)\<lparr>nw_count := c, nw_bytes := b\<rparr>\<rparr>)"

lemma link_inv_frame:
  assumes "link_inv cfg" and "hc_n cfg' = hc_n cfg" and "hc_connected cfg' = hc_connected cfg"
    and "hc_endnames cfg' = hc_endnames cfg" and "hc_saved cfg' = hc_saved cfg"
    and "map (\<lambda>r. r = None) (hc_rafts cfg') = map (\<lambda>r. r = None) (hc_rafts cfg)"
    and "nw_ends (hc_net cfg') = nw_ends (hc_net cfg)" and "nw_enabled (hc_net cfg') = nw_enabled (hc_net cfg)"
    and "nw_connections (hc_net cfg') = nw_connections (hc_net cfg)" and "nw_servers (hc_net cfg') = nw_servers (hc_net cfg)"
  shows "link_inv cfg'"
proof -
  have "length (hc_rafts cfg') = length (hc_rafts cfg)" using arg_cong [OF assms(6), of length] by simp
  moreover have "hc_rafts cfg' ! i = None \<longleftrightarrow> hc_rafts cfg ! i = None" if "i < length (hc_rafts cfg)" for i
    using arg_cong [OF assms(6), of "\<lambda>l. l ! i"] calculation that by simp
  ultimately show ?thesis
    using assms(1-5,7-10) unfolding link_inv_def sizes_ok_def enabled_ok_def routes_ok_def up_def by simp
qed

lemma make_config_inv:
  assumes "make_config n unreliable now env = Inr cfg"
  shows "link_inv cfg"
proof -
  let ?start = "\<lambda>i c. case env i of (names, srv, t, rnd) \<Rightarrow>
    start1 names srv t rnd i (c\<lparr>hc_logs := (hc_logs c)[i := Map.empty]\<rparr>)"
  let ?cfg0 = "blank_config n unreliable now"
  obtain cfg1 where c: "go_fold ?start [0..<n] ?cfg0 = Inr cfg1" "go_fold cfg_connect [0..<n] cfg1 = Inr cfg"
    using assms unfolding make_config_def go_bind_Inr_iff by blast
  have "link_inv ?cfg0"
    by (simp add: blank_config_def link_inv_def sizes_ok_def enabled_ok_def routes_ok_def table_ok_def end_at_def
        setunreliable_def MakeNetwork_def Reliable_def LongDelays_def)
  then have "link_inv cfg1"
  proof (rule go_fold_invariant [OF c(1)])
    fix i s t assume st: "?start i s = Inr t" and inv: "link_inv s"
    obtain names srv tm rnd where e: "env i = (names, srv, tm, rnd)" by (cases "env i")
    have "link_inv (s\<lparr>hc_logs := (hc_logs s)[i := Map.empty]\<rparr>)" by (rule link_inv_frame [OF inv]) simp_all
    moreover have "start1 names srv tm rnd i (s\<lparr>hc_logs := (hc_logs s)[i := Map.empty]\<rparr>) = Inr t" using st e by simp
    ultimately show "link_inv t" using start1_inv by blast
  qed
  then show ?thesis by (rule go_fold_invariant [OF c(2)]) (rule cfg_connect_inv)
qed

lemma checkLogs_frame: "fst (checkLogs i m cfg) = cfg\<lparr>hc_logs := hc_logs (fst (checkLogs i m cfg)),
    hc_maxIndex := hc_maxIndex (fst (checkLogs i m cfg))\<rparr>"
  by (simp add: checkLogs_def Let_def)

lemma applier_step_only_logs:
  assumes "applier_step i m cfg = Inr cfg'"
  obtains l k where "cfg' = cfg\<lparr>hc_logs := l, hc_maxIndex := k\<rparr>"
proof (cases "am_CommandValid m")
  case True
  then show thesis using assms that checkLogs_frame [of i m cfg] by (simp add: applier_step_Inr)
next
  case False
  then show thesis using assms that [of "hc_maxIndex cfg" "hc_logs cfg"] by (simp add: applier_step_Inr)
qed

lemma applierSnap_step_only_logs:
  assumes "applierSnap_step enc dec i m (lastAp, cfg) = Inr ((lastAp', cfg'), snap)"
  obtains l k where "cfg' = cfg\<lparr>hc_logs := l, hc_maxIndex := k\<rparr>"
proof -
  have "cfg' = cfg \<or> (\<exists>l. cfg' = cfg\<lparr>hc_logs := l\<rparr>) \<or> cfg' = fst (checkLogs i m cfg)"
    using assms by (auto simp: applierSnap_step_def Let_def split: if_splits option.splits prod.splits)
  then have "\<exists>l k. cfg' = cfg\<lparr>hc_logs := l, hc_maxIndex := k\<rparr>"
  proof (elim disjE exE)
    assume "cfg' = cfg"
    then have "cfg' = cfg\<lparr>hc_logs := hc_logs cfg, hc_maxIndex := hc_maxIndex cfg\<rparr>" by simp
    then show ?thesis by blast
  next
    fix l assume "cfg' = cfg\<lparr>hc_logs := l\<rparr>"
    then have "cfg' = cfg\<lparr>hc_logs := l, hc_maxIndex := hc_maxIndex cfg\<rparr>" by simp
    then show ?thesis by blast
  qed (use checkLogs_frame [of i m cfg] in metis)
  then show thesis using that by blast
qed

lemma harness_step_inv:
  assumes "harness_step cfg cfg'" and "link_inv cfg"
  shows "link_inv cfg'"
  using assms
proof (cases rule: harness_step.cases)
  case (hs_apply i m)
  then show ?thesis
    using assms(2) by (elim applier_step_only_logs) (auto intro: link_inv_frame)
next
  case (hs_apply_snap enc dec i m lastAp lastAp' snap)
  then show ?thesis
    using assms(2) by (elim applierSnap_step_only_logs) (auto intro: link_inv_frame)
next
  case (hs_peer i rf rf')
  have "map (\<lambda>r. r = None) ((hc_rafts cfg)[i := Some rf']) = map (\<lambda>r. r = None) (hc_rafts cfg)"
    by (cases "i < length (hc_rafts cfg)") (auto simp: map_update list_update_same_conv list_update_beyond hs_peer(2))
  then show ?thesis unfolding hs_peer(1) by (intro link_inv_frame [OF assms(2)]) simp_all
qed (use assms(2) in \<open>auto intro: cfg_connect_inv cfg_disconnect_inv crash1_inv(1) start1_inv link_inv_frame
  simp: setunreliable_def setlongreordering_def cfg_begin_def Reliable_def LongReordering_def\<close>)

interpretation harness: inductive_invariant harness_init harness_step link_inv
  by unfold_locales (auto simp: harness_init_def dest: make_config_inv harness_step_inv)

text \<open>An end that is no longer in the table never comes back, since new ends have new names.\<close>

definition retired :: "string \<Rightarrow> 'c config \<Rightarrow> bool" where
  "retired e cfg \<longleftrightarrow> link_inv cfg \<and> e \<in> nw_ends (hc_net cfg) \<and> (\<forall>i j. end_at (hc_endnames cfg) i j \<noteq> Inr e)"

lemma retired_disabled: "retired e cfg \<Longrightarrow> \<not> nw_enabled (hc_net cfg) e"
  by (auto simp: retired_def link_inv_def enabled_ok_def)

lemma crash1_frame:
  assumes "crash1 i cfg = Inr cfg'"
  shows "hc_endnames cfg' = hc_endnames cfg" and "nw_ends (hc_net cfg') = nw_ends (hc_net cfg)"
    and "hc_n cfg' = hc_n cfg" and "i < length (hc_connected cfg)"
proof -
  obtain cfg1 where d: "cfg_disconnect i cfg = Inr cfg1"
    and c: "cfg' = cfg1\<lparr>hc_net := DeleteServer i (hc_net cfg1), hc_rafts := (hc_rafts cfg1)[i := None],
      hc_saved := (hc_saved cfg1)[i := saved_now cfg i]\<rparr>"
    using assms(1) by (metis crash1_Inr)
  obtain net2 ls where f: "i < length (hc_connected cfg)" "set_links (hc_endnames cfg) False ls (hc_net cfg) = Inr net2"
    "cfg1 = cfg\<lparr>hc_connected := (hc_connected cfg)[i := False], hc_net := net2\<rparr>"
    using d by (rule cfg_disconnect_Inr)
  show "hc_endnames cfg' = hc_endnames cfg" "nw_ends (hc_net cfg') = nw_ends (hc_net cfg)"
    "hc_n cfg' = hc_n cfg" "i < length (hc_connected cfg)"
    using f set_links_frame(1) [OF f(2)] by (simp_all add: c DeleteServer_def)
qed

lemma start1_table:
  assumes "start1 names srv now rnd i cfg = Inr cfg'" and "link_inv cfg"
  shows "nw_ends (hc_net cfg) \<subseteq> nw_ends (hc_net cfg')"
    and "end_at (hc_endnames cfg') a b = Inr e \<Longrightarrow> e \<in> nw_ends (hc_net cfg) \<Longrightarrow>
      a \<noteq> i \<and> end_at (hc_endnames cfg) a b = Inr e"
proof -
  obtain cfg1 net1 ps where cr: "crash1 i cfg = Inr cfg1"
    and mk: "make_ends (map names [0..<hc_n cfg1]) id (hc_n cfg1) (hc_net cfg1) = Inr net1"
    and c: "cfg' = cfg1\<lparr>hc_endnames := (hc_endnames cfg1)[i := Some (map names [0..<hc_n cfg1])],
      hc_saved := (hc_saved cfg1)[i := Some ps],
      hc_rafts := (hc_rafts cfg1)[i := Some (Make (hc_n cfg1) (int i) ps now rnd)], hc_net := AddServer i srv net1\<rparr>"
    using assms(1) by (rule start1_Inr)
  note fr = crash1_frame [OF cr]
  have ends: "nw_ends net1 = nw_ends (hc_net cfg) \<union> set (map names [0..<hc_n cfg1])"
    "set (map names [0..<hc_n cfg1]) \<inter> nw_ends (hc_net cfg) = {}"
    using make_ends_Inr [OF mk] fr(2) by auto
  then show "nw_ends (hc_net cfg) \<subseteq> nw_ends (hc_net cfg')" by (auto simp: c AddServer_def)
  have i: "i < length (hc_endnames cfg)" using fr(4) assms(2) by (simp add: link_inv_def sizes_ok_def)
  show "a \<noteq> i \<and> end_at (hc_endnames cfg) a b = Inr e"
    if "end_at (hc_endnames cfg') a b = Inr e" "e \<in> nw_ends (hc_net cfg)"
    using that ends(2) i go_nth_set [of "map names [0..<hc_n cfg1]" "int b" e]
    by (auto simp: c fr(1) end_at_update simp del: set_map split: if_splits)
qed

lemma retired_step:
  assumes "harness_step cfg cfg'" and "retired e cfg"
  shows "retired e cfg'"
proof -
  have inv: "link_inv cfg'" using assms by (auto simp: retired_def intro: harness_step_inv)
  have r: "link_inv cfg" "e \<in> nw_ends (hc_net cfg)" "end_at (hc_endnames cfg) a b \<noteq> Inr e" for a b
    using assms(2) by (auto simp: retired_def)
  from assms(1) have "e \<in> nw_ends (hc_net cfg') \<and> (\<forall>a b. end_at (hc_endnames cfg') a b \<noteq> Inr e)"
  proof (cases rule: harness_step.cases)
    case (hs_connect i)
    then show ?thesis using r by (elim cfg_connect_Inr) (simp add: set_links_frame)
  next
    case (hs_disconnect i)
    then show ?thesis using r by (elim cfg_disconnect_Inr) (simp add: set_links_frame)
  next
    case (hs_crash i)
    then show ?thesis using r crash1_frame [OF hs_crash] by simp
  next
    case (hs_start names srv now rnd i)
    then show ?thesis using r start1_table [OF hs_start r(1)] by blast
  next
    case (hs_apply i m)
    then show ?thesis using r by (elim applier_step_only_logs) simp
  next
    case (hs_apply_snap enc dec i m lastAp lastAp' snap)
    then show ?thesis using r by (elim applierSnap_step_only_logs) simp
  qed (use r in \<open>auto simp: setunreliable_def setlongreordering_def cfg_begin_def Reliable_def LongReordering_def\<close>)
  then show ?thesis using inv by (simp add: retired_def)
qed

interpretation retired_end: inductive_invariant "retired e" harness_step "retired e"
  by unfold_locales (auto dest: retired_step)

lemma retired_forever:
  "retired e cfg \<Longrightarrow> harness_step\<^sup>*\<^sup>* cfg cfg' \<Longrightarrow> \<not> nw_enabled (hc_net cfg') e"
  using retired_end.invar_rtranclp retired_disabled by blast

section \<open>Properties\<close>

text \<open>
  C27. Links of the tester. After any sequence of the tester's operations, interleaved with deliveries
  and changes of the peers, an end of the network leads to a live server exactly when it is the
  current end of one connected peer to another connected peer that is running; it then leads to
  that peer and to no other.
\<close>

theorem harness_links:
  fixes cfg :: "'c config"
  assumes "reaches harness_init harness_step cfg"
  shows "(\<exists>srv rel reo. readEndnameInfo e (hc_net cfg) = (True, Some j, Some srv, rel, reo)) \<longleftrightarrow>
    (\<exists>i. end_at (hc_endnames cfg) i j = Inr e \<and> up cfg i \<and> up cfg j \<and> hc_rafts cfg ! j \<noteq> None)"
proof -
  have inv: "sizes_ok cfg" "enabled_ok cfg" "routes_ok cfg" "table_ok (hc_endnames cfg) (nw_ends (hc_net cfg))"
    using harness.invar_reaches [OF assms] by (auto simp: link_inv_def)
  have "(\<exists>srv rel reo. readEndnameInfo e (hc_net cfg) = (True, Some j, Some srv, rel, reo)) \<longleftrightarrow>
    nw_enabled (hc_net cfg) e \<and> nw_connections (hc_net cfg) e = Some j \<and> nw_servers (hc_net cfg) j \<noteq> None"
    by (auto simp: readEndnameInfo_def Let_def)
  also have "\<dots> \<longleftrightarrow> (\<exists>i. end_at (hc_endnames cfg) i j = Inr e \<and> up cfg i \<and> up cfg j \<and> hc_rafts cfg ! j \<noteq> None)"
    using inv(2,3) unfolding enabled_ok_def routes_ok_def
    by (metis option.inject end_at_range [OF inv(1)])
  finally show ?thesis .
qed

text \<open>
  C28. A crashed instance stays silent. After peer \<open>i\<close> is restarted, none of the ends that its earlier
  instance could send on is ever enabled again, whatever the test does next; and the new instance
  starts with the persisted state of the old one.
\<close>

theorem restart_isolates:
  fixes cfg :: "'c config"
  assumes "reaches harness_init harness_step cfg" and "start1 names srv now rnd i cfg = Inr cfg1"
    and "harness_step\<^sup>*\<^sup>* cfg1 cfg2" and "end_at (hc_endnames cfg) i j = Inr e"
    and "hc_rafts cfg ! i = Some rf" and "synced rf"
  shows "\<not> nw_enabled (hc_net cfg2) e \<and>
    (\<exists>rf'. hc_rafts cfg1 ! i = Some rf' \<and> hard_state rf' = hard_state rf \<and> me rf' = int i \<and> \<not> killed rf')"
proof -
  have inv: "link_inv cfg" using harness.invar_reaches [OF assms(1)] .
  then have tb: "table_ok (hc_endnames cfg) (nw_ends (hc_net cfg))" by (simp add: link_inv_def)
  have e: "e \<in> nw_ends (hc_net cfg)" by (rule table_ok_ends [OF tb assms(4)])
  have "end_at (hc_endnames cfg1) a b \<noteq> Inr e" for a b
    using start1_table(2) [OF assms(2) inv _ e] table_ok_inj [OF tb assms(4)] by blast
  then have "retired e cfg1"
    using e start1_table(1) [OF assms(2) inv] start1_inv [OF assms(2) inv] by (auto simp: retired_def)
  then have "\<not> nw_enabled (hc_net cfg2) e" using assms(3) by (rule retired_forever)
  moreover have "hc_rafts cfg1 ! i = Some (Make (hc_n cfg) (int i) (Copy (rf_persister rf)) now rnd)"
    by (rule start1_recovers [OF assms(2) inv assms(5)])
  ultimately show ?thesis using assms(6) by (simp add: Make_hard_state synced_def durable_Copy Make_identity)
qed

definition sample_names :: "nat \<Rightarrow> nat \<Rightarrow> string" where
  "sample_names k j = replicate k CHR ''e'' @ replicate j CHR ''n''"

definition sample_env :: "nat \<Rightarrow> (nat \<Rightarrow> string) \<times> nat \<times> int \<times> int" where
  "sample_env i = (sample_names i, i, 0, 0)"

lemmas harness_eval = make_config_def blank_config_def start1_def crash1_def cfg_disconnect_def cfg_connect_def Let_def
  numeral_2_eq_2 sample_env_def make_ends_def make_end_def set_links_def set_link_def end_at_def go_nth_def
  sample_names_def MakeEnd_def Connect_def MakeNetwork_def setunreliable_def Reliable_def LongDelays_def
  AddServer_def DeleteServer_def Enable_def saved_now_def

lemma make_config_reaches: "make_config n unreliable now env = Inr cfg \<Longrightarrow> reaches harness_init harness_step cfg"
  by (rule reaches_init) (auto simp: harness_init_def)

lemma sample_make_config:
  "\<exists>cfg cfg1 :: int config. make_config 2 False 0 sample_env = Inr cfg \<and> hc_n cfg = 2 \<and>
     end_at (hc_endnames cfg) 0 1 = Inr ''n'' \<and> hc_connected cfg = [True, True] \<and>
     hc_rafts cfg ! 0 = Some (Make 2 0 MakePersister 0 0) \<and> hc_rafts cfg ! 1 \<noteq> None \<and>
     start1 (sample_names 2) 2 1 0 0 cfg = Inr cfg1"
  by (simp add: harness_eval)

lemma first_Make_synced: "synced (Make n self MakePersister now rnd)"
  by (rule Make_synced) (simp add: durable_def)

theorem harness_links_witness:
  "\<exists>cfg :: int config. reaches harness_init harness_step cfg \<and>
     (\<exists>srv rel reo. readEndnameInfo ''n'' (hc_net cfg) = (True, Some 1, Some srv, rel, reo))"
proof -
  obtain cfg :: "int config" where c: "make_config 2 False 0 sample_env = Inr cfg" "hc_n cfg = 2"
    "end_at (hc_endnames cfg) 0 1 = Inr ''n''" "hc_connected cfg = [True, True]" "hc_rafts cfg ! 1 \<noteq> None"
    using sample_make_config by blast
  have "reaches harness_init harness_step cfg" by (rule make_config_reaches [OF c(1)])
  moreover have "up cfg 0" "up cfg 1" using c(2,4) by (simp_all add: up_def)
  ultimately show ?thesis using harness_links [of cfg "''n''" 1] c(3,5) by blast
qed

theorem restart_isolates_witness:
  "\<exists>cfg cfg1 :: int config. start1 (sample_names 2) 2 1 0 0 cfg = Inr cfg1 \<and> nw_enabled (hc_net cfg) ''n'' \<and>
     \<not> nw_enabled (hc_net cfg1) ''n''"
proof -
  obtain cfg cfg1 :: "int config" where c: "make_config 2 False 0 sample_env = Inr cfg" "hc_n cfg = 2"
    "end_at (hc_endnames cfg) 0 1 = Inr ''n''" "hc_connected cfg = [True, True]"
    "hc_rafts cfg ! 0 = Some (Make 2 0 MakePersister 0 0)" "start1 (sample_names 2) 2 1 0 0 cfg = Inr cfg1"
    using sample_make_config by blast
  have r: "reaches harness_init harness_step cfg" by (rule make_config_reaches [OF c(1)])
  have "up cfg 0" "up cfg 1" using c(2,4) by (simp_all add: up_def)
  then have "nw_enabled (hc_net cfg) ''n''"
    using harness.invar_reaches [OF r] c(3) unfolding link_inv_def enabled_ok_def by blast
  moreover have "\<not> nw_enabled (hc_net cfg1) ''n''"
    using restart_isolates [OF r c(6) rtranclp.rtrancl_refl c(3,5) first_Make_synced] by blast
  ultimately show ?thesis using c(6) by blast
qed

end
