(* ===== verification/Porc_Links.thy ===== *)
theory Porc_Links
  imports Lab_Prelude
begin

text \<open>
  The doubly linked list of the linearizability checker (\<open>src/porcupine/checker.go\<close>): history
  entries, list nodes in a store, \<open>insertBefore\<close>, \<open>length\<close>, \<open>makeLinkedEntries\<close>, \<open>lift\<close> and
  \<open>unlift\<close>.

  A pointer is an optional address; \<open>nil\<close> is \<open>None\<close> and a field access through it panics. The
  node that \<open>makeLinkedEntries\<close> allocates for \<open>entries[i]\<close> has address \<open>i\<close>, which is as good a
  fresh name as any. Values are \<open>interface{}\<close> in the code and a type parameter here.

  The theorems: \<open>unlift\<close> undoes \<open>lift\<close> on the whole store, both keep the list structure, and
  \<open>makeLinkedEntries\<close> builds the list of the history with every call linked to its return.
\<close>

section \<open>Data\<close>

record 'v hentry =
  e_kind :: bool
  e_value :: 'v
  e_id :: int
  e_time :: int
  e_clientId :: int

text \<open>Kinds: a call is \<open>False\<close>, a return is \<open>True\<close>.\<close>

definition callEntry :: bool where "callEntry = False"
definition returnEntry :: bool where "returnEntry = True"

lemmas entry_kinds = callEntry_def returnEntry_def

record 'v lnode =
  n_value :: 'v
  n_match :: "nat option"
  n_id :: int
  n_next :: "nat option"
  n_prev :: "nat option"

type_synonym 'v store = "nat \<Rightarrow> 'v lnode"

fun deref :: "nat option \<Rightarrow> nat go" where
  "deref None = Inl NilDereference"
| "deref (Some a) = Inr a"

definition set_next :: "nat \<Rightarrow> nat option \<Rightarrow> 'v store \<Rightarrow> 'v store" where
  "set_next a p h = h(a := (h a)\<lparr>n_next := p\<rparr>)"

definition set_prev :: "nat \<Rightarrow> nat option \<Rightarrow> 'v store \<Rightarrow> 'v store" where
  "set_prev a p h = h(a := (h a)\<lparr>n_prev := p\<rparr>)"

section \<open>Operations\<close>

definition insertBefore :: "nat \<Rightarrow> nat option \<Rightarrow> 'v store \<Rightarrow> 'v store" where
  "insertBefore n mark h =
     (case mark of
        None \<Rightarrow> h
      | Some mk \<Rightarrow>
          let beforeMark = n_prev (h mk);
              h1 = set_prev mk (Some n) h;
              h2 = set_next n (Some mk) h1
          in case beforeMark of
               None \<Rightarrow> h2
             | Some b \<Rightarrow> set_next b (Some n) (set_prev n (Some b) h2))"

partial_function (option) list_length :: "'v store \<Rightarrow> nat option \<Rightarrow> nat \<Rightarrow> nat option" where
  "list_length h n l =
     (case n of None \<Rightarrow> Some l | Some a \<Rightarrow> list_length h (n_next (h a)) (l + 1))"

text \<open>One iteration of \<open>makeLinkedEntries\<close>, for \<open>entries[i]\<close>, and the loop from the end.\<close>

definition link_entry ::
  "'v hentry list \<Rightarrow> nat \<Rightarrow> 'v store \<times> nat option \<times> (int \<Rightarrow> nat option) \<Rightarrow>
   'v store \<times> nat option \<times> (int \<Rightarrow> nat option)" where
  "link_entry es i st =
     (case st of (h, root, match) \<Rightarrow>
        let elem = es ! i
        in if e_kind elem = returnEntry
           then let h1 = h(i := \<lparr>n_value = e_value elem, n_match = None, n_id = e_id elem,
                               n_next = None, n_prev = None\<rparr>);
                    match1 = match(e_id elem \<mapsto> i)
                in (insertBefore i root h1, Some i, match1)
           else let h1 = h(i := \<lparr>n_value = e_value elem, n_match = match (e_id elem),
                               n_id = e_id elem, n_next = None, n_prev = None\<rparr>)
                in (insertBefore i root h1, Some i, match))"

fun link_entries ::
  "'v hentry list \<Rightarrow> nat \<Rightarrow> 'v store \<times> nat option \<times> (int \<Rightarrow> nat option) \<Rightarrow>
   'v store \<times> nat option \<times> (int \<Rightarrow> nat option)" where
  "link_entries es 0 st = st"
| "link_entries es (Suc i) st = link_entries es i (link_entry es i st)"

definition makeLinkedEntries :: "'v hentry list \<Rightarrow> 'v store \<Rightarrow> 'v store \<times> nat option" where
  "makeLinkedEntries es h =
     (case link_entries es (length es) (h, None, \<lambda>_. None) of (h', root, match) \<Rightarrow> (h', root))"

definition lift :: "nat \<Rightarrow> 'v store \<Rightarrow> 'v store go" where
  "lift e h =
     go_bind (deref (n_prev (h e))) (\<lambda>p.
     let h1 = set_next p (n_next (h e)) h in
     go_bind (deref (n_next (h1 e))) (\<lambda>q.
     let h2 = set_prev q (n_prev (h1 e)) h1 in
     go_bind (deref (n_match (h2 e))) (\<lambda>mt.
     go_bind (deref (n_prev (h2 mt))) (\<lambda>mp.
     let h3 = set_next mp (n_next (h2 mt)) h2 in
     Inr (case n_next (h3 mt) of
            None \<Rightarrow> h3
          | Some mq \<Rightarrow> set_prev mq (n_prev (h3 mt)) h3)))))"

definition unlift :: "nat \<Rightarrow> 'v store \<Rightarrow> 'v store go" where
  "unlift e h =
     go_bind (deref (n_match (h e))) (\<lambda>mt.
     go_bind (deref (n_prev (h mt))) (\<lambda>mp.
     let h1 = set_next mp (Some mt) h;
         h2 = (case n_next (h1 mt) of None \<Rightarrow> h1 | Some mq \<Rightarrow> set_prev mq (Some mt) h1) in
     go_bind (deref (n_prev (h2 e))) (\<lambda>p.
     let h3 = set_next p (Some e) h2 in
     go_bind (deref (n_next (h3 e))) (\<lambda>q. Inr (set_prev q (Some e) h3)))))"

section \<open>Lists in the store\<close>

text \<open>Consecutive elements point at each other, and the last one has no successor.\<close>

fun adj :: "'v store \<Rightarrow> nat list \<Rightarrow> bool" where
  "adj h (x # y # zs) \<longleftrightarrow> n_next (h x) = Some y \<and> n_prev (h y) = Some x \<and> adj h (y # zs)"
| "adj h _ \<longleftrightarrow> True"

definition dll :: "'v store \<Rightarrow> nat list \<Rightarrow> bool" where
  "dll h xs \<longleftrightarrow> xs \<noteq> [] \<and> distinct xs \<and> adj h xs \<and> n_next (h (last xs)) = None"

lemma adj_append:
  "as \<noteq> [] \<Longrightarrow> bs \<noteq> [] \<Longrightarrow> adj h (as @ bs) \<longleftrightarrow>
     adj h as \<and> adj h bs \<and> n_next (h (last as)) = Some (hd bs) \<and> n_prev (h (hd bs)) = Some (last as)"
proof (induction as)
  case (Cons a as)
  then show ?case by (cases as; cases bs) auto
qed simp

lemma adj_cong:
  assumes "\<And>y. y \<in> set (butlast xs) \<Longrightarrow> n_next (h' y) = n_next (h y)"
    and "\<And>y. y \<in> set (tl xs) \<Longrightarrow> n_prev (h' y) = n_prev (h y)"
  shows "adj h' xs \<longleftrightarrow> adj h xs"
  using assms by (induction h xs rule: adj.induct) auto

text \<open>Taking one node out of the list and putting it back.\<close>

definition unlink :: "nat \<Rightarrow> 'v store \<Rightarrow> 'v store" where
  "unlink x h =
     (let h1 = set_next (the (n_prev (h x))) (n_next (h x)) h
      in case n_next (h x) of None \<Rightarrow> h1 | Some q \<Rightarrow> set_prev q (n_prev (h x)) h1)"

definition relink :: "nat \<Rightarrow> 'v store \<Rightarrow> 'v store" where
  "relink x h =
     (let h1 = set_next (the (n_prev (h x))) (Some x) h
      in case n_next (h x) of None \<Rightarrow> h1 | Some q \<Rightarrow> set_prev q (Some x) h1)"

lemma set_fields [simp]:
  "n_next (set_next a p h b) = (if b = a then p else n_next (h b))"
  "n_prev (set_next a p h b) = n_prev (h b)"
  "n_prev (set_prev a p h b) = (if b = a then p else n_prev (h b))"
  "n_next (set_prev a p h b) = n_next (h b)"
  "n_value (set_next a p h b) = n_value (h b)" "n_value (set_prev a p h b) = n_value (h b)"
  "n_match (set_next a p h b) = n_match (h b)" "n_match (set_prev a p h b) = n_match (h b)"
  "n_id (set_next a p h b) = n_id (h b)" "n_id (set_prev a p h b) = n_id (h b)"
  by (simp_all add: set_next_def set_prev_def)

lemma store_eqI:
  fixes h h' :: "'v store"
  assumes "\<And>a. n_next (h a) = n_next (h' a)" and "\<And>a. n_prev (h a) = n_prev (h' a)"
    and "\<And>a. n_match (h a) = n_match (h' a)" and "\<And>a. n_value (h a) = n_value (h' a)"
    and "\<And>a. n_id (h a) = n_id (h' a)"
  shows "h = h'"
  by (intro ext lnode.equality) (simp_all add: assms)

text \<open>Where a node stands in its list.\<close>

lemma dll_neighbours:
  assumes "dll h (as @ x # bs)" and "as \<noteq> []"
  shows "n_prev (h x) = Some (last as)"
    and "n_next (h x) = (if bs = [] then None else Some (hd bs))"
    and "n_next (h (last as)) = Some x"
    and "bs \<noteq> [] \<Longrightarrow> n_prev (h (hd bs)) = Some x"
proof -
  have a: "adj h (as @ x # bs)" and l: "n_next (h (last (as @ x # bs))) = None"
    using assms(1) by (auto simp: dll_def)
  show "n_prev (h x) = Some (last as)" "n_next (h (last as)) = Some x"
    using a assms(2) by (auto simp: adj_append)
  have "adj h (x # bs)" using a assms(2) by (auto simp: adj_append)
  then show "n_next (h x) = (if bs = [] then None else Some (hd bs))"
    and "bs \<noteq> [] \<Longrightarrow> n_prev (h (hd bs)) = Some x"
    using l by (cases bs; simp)+
qed

lemma unlink_eq:
  assumes "dll h (as @ x # bs)" and "as \<noteq> []"
  shows "unlink x h =
    (if bs = [] then set_next (last as) None h
     else set_prev (hd bs) (Some (last as)) (set_next (last as) (Some (hd bs)) h))"
  using dll_neighbours [OF assms] by (simp add: unlink_def Let_def)

lemma dll_unlink:
  assumes "dll h (as @ x # bs)" and "as \<noteq> []"
  shows "dll (unlink x h) (as @ bs)"
proof -
  have d: "distinct (as @ x # bs)" and a: "adj h as" "adj h (x # bs)"
    and l: "n_next (h (last (x # bs))) = None"
    using assms by (auto simp: dll_def adj_append)
  have bs: "adj h bs" using a(2) by (cases bs) auto
  have la: "last as \<notin> set (butlast as)" "last as \<notin> set bs"
    using d assms(2) by (cases as rule: rev_cases; simp)+
  have lb: "bs \<noteq> [] \<Longrightarrow> last bs \<noteq> last as" using la(2) by (metis last_in_set)
  have hb: "bs \<noteq> [] \<Longrightarrow> hd bs \<notin> set (tl bs) \<and> hd bs \<notin> set as"
    using d by (cases bs) auto
  have "adj (unlink x h) as"
    unfolding unlink_eq [OF assms]
    using la hb a(1) assms(2)
    by (subst adj_cong [where h = h]) (auto dest: in_set_butlastD list.set_sel(2))
  moreover have "adj (unlink x h) bs"
    unfolding unlink_eq [OF assms]
    using la hb bs by (subst adj_cong [where h = h]) (auto dest: in_set_butlastD)
  moreover have "n_next (unlink x h (last (as @ bs))) = None"
    unfolding unlink_eq [OF assms] using l lb by (cases "bs = []") auto
  moreover have "bs \<noteq> [] \<Longrightarrow> n_next (unlink x h (last as)) = Some (hd bs) \<and>
      n_prev (unlink x h (hd bs)) = Some (last as)"
    unfolding unlink_eq [OF assms] by simp
  ultimately show ?thesis
    using d assms(2) by (cases "bs = []") (auto simp: dll_def adj_append)
qed

lemma relink_unlink:
  assumes "dll h (as @ x # bs)" and "as \<noteq> []"
  shows "relink x (unlink x h) = h"
proof -
  have d: "distinct (as @ x # bs)" using assms(1) by (simp add: dll_def)
  then have x: "last as \<noteq> x" "bs \<noteq> [] \<Longrightarrow> hd bs \<noteq> x"
    using assms(2) by (auto simp: hd_in_set)
  note n = dll_neighbours [OF assms]
  show ?thesis
    unfolding unlink_eq [OF assms]
    by (rule store_eqI) (use n x in \<open>auto simp: relink_def Let_def\<close>)
qed

lemma unlink_data [simp]:
  "n_match (unlink x h a) = n_match (h a)" "n_value (unlink x h a) = n_value (h a)"
  "n_id (unlink x h a) = n_id (h a)"
  by (auto simp: unlink_def Let_def split: option.splits)

lemma unlink_own:
  assumes "dll h (as @ x # bs)" and "as \<noteq> []"
  shows "n_next (unlink x h x) = n_next (h x)" "n_prev (unlink x h x) = n_prev (h x)"
proof -
  have "distinct (as @ x # bs)" using assms(1) by (simp add: dll_def)
  then have "last as \<noteq> x" "bs \<noteq> [] \<Longrightarrow> hd bs \<noteq> x"
    using assms(2) by (auto simp: hd_in_set)
  then show "n_next (unlink x h x) = n_next (h x)" "n_prev (unlink x h x) = n_prev (h x)"
    unfolding unlink_eq [OF assms] by auto
qed

lemma lift_run:
  assumes "n_prev (h e) = Some p" "n_next (h e) = Some q" "n_match (h e) = Some mt"
    and "set_prev q (Some p) (set_next p (Some q) h) = h2" and "p \<noteq> e"
    and "n_prev (h2 mt) = Some mp" and "mp \<noteq> mt"
  shows "lift e h = Inr (case n_next (h2 mt) of
      None \<Rightarrow> set_next mp None h2
    | Some mq \<Rightarrow> set_prev mq (Some mp) (set_next mp (Some mq) h2))"
proof -
  have m: "n_match (h2 e) = Some mt" using assms(3,4) by auto
  have e: "e \<noteq> p" "mt \<noteq> mp" using assms(5,7) by auto
  have "lift e h = go_bind (deref (n_match (h2 e))) (\<lambda>mt. go_bind (deref (n_prev (h2 mt))) (\<lambda>mp.
      let h3 = set_next mp (n_next (h2 mt)) h2 in
      Inr (case n_next (h3 mt) of None \<Rightarrow> h3 | Some mq \<Rightarrow> set_prev mq (n_prev (h3 mt)) h3)))"
    by (simp only: lift_def assms(1,2) deref.simps go_bind.simps Let_def set_fields(1,2) e if_False
        assms(4))
  then show ?thesis
    using m e assms(6) by (simp add: Let_def split: option.split)
qed

text \<open>\<open>lift\<close> takes out a call and then its return; \<open>unlift\<close> puts back the return and then the
  call.\<close>

lemma lift_eq:
  assumes "dll h (as @ e # bs @ m # cs)" and "as \<noteq> []" and "n_match (h e) = Some m"
  shows "lift e h = Inr (unlink m (unlink e h))"
proof -
  let ?h = "unlink e h"
  have d: "dll ?h ((as @ bs) @ m # cs)" using dll_unlink [OF assms(1,2)] by simp
  have ne: "as @ bs \<noteq> []" using assms(2) by simp
  have "distinct (as @ e # bs @ m # cs)" using assms(1) by (simp add: dll_def)
  then have em: "last as \<noteq> e" "hd (bs @ m # cs) \<noteq> e"
    using assms(2) by (auto simp: hd_append)
  have lm: "last (as @ bs) \<noteq> m"
    using ne d last_in_set [OF ne] by (auto simp: dll_def)
  note n = dll_neighbours [OF assms(1,2)] and n' = dll_neighbours [OF d ne]
  have h2: "set_prev (hd (bs @ m # cs)) (Some (last as))
      (set_next (last as) (Some (hd (bs @ m # cs))) h) = ?h"
    using unlink_eq [OF assms(1,2)] by simp
  show ?thesis
    using lift_run [OF n(1) _ assms(3) h2 em(1) n'(1) lm] n(2) n'(2)
    by (simp add: unlink_eq [OF d ne])
qed

lemma unlift_eq:
  assumes "dll h (as @ e # bs @ m # cs)" and "as \<noteq> []" and "n_match (h e) = Some m"
  shows "unlift e (unlink m (unlink e h)) = Inr h"
proof -
  let ?h = "unlink e h"
  have d: "dll ?h ((as @ bs) @ m # cs)" using dll_unlink [OF assms(1,2)] by simp
  have ne: "as @ bs \<noteq> []" using assms(2) by simp
  note n = dll_neighbours [OF assms(1,2)] and n' = dll_neighbours [OF d ne]
  note o = unlink_own [OF assms(1,2)] and o' = unlink_own [OF d ne]
  have "distinct (as @ e # bs @ m # cs)" using assms(1) by (simp add: dll_def)
  then have "last (as @ bs) \<noteq> m"
    using last_in_set [OF ne] by auto
  then have h2: "(case n_next (set_next (last (as @ bs)) (Some m) (unlink m ?h) m) of
        None \<Rightarrow> set_next (last (as @ bs)) (Some m) (unlink m ?h)
      | Some mq \<Rightarrow> set_prev mq (Some m) (set_next (last (as @ bs)) (Some m) (unlink m ?h))) = ?h"
    using relink_unlink [OF d ne] o' n'(1) by (simp add: relink_def Let_def)
  have "relink e ?h = h" using relink_unlink [OF assms(1,2)] .
  moreover have "last as \<noteq> e" using \<open>distinct (as @ e # bs @ m # cs)\<close> assms(2) by auto
  ultimately have "set_prev (hd (bs @ m # cs)) (Some e) (set_next (last as) (Some e) ?h) = h"
    using n(1,2) o by (simp add: relink_def Let_def)
  then show ?thesis
    using assms(3) n(1,2) n'(1) o o' h2 \<open>last as \<noteq> e\<close>
    by (simp add: unlift_def Let_def)
qed

section \<open>Building the list\<close>

text \<open>A complete history: every operation has one call and one later return, and the
  operations are numbered from 0.\<close>

definition is_call :: "'v hentry \<Rightarrow> bool" where
  "is_call e \<longleftrightarrow> e_kind e = callEntry"

definition wf_history :: "'v hentry list \<Rightarrow> bool" where
  "wf_history es \<longleftrightarrow>
     distinct (map (\<lambda>e. (e_kind e, e_id e)) es) \<and>
     (\<forall>e \<in> set es. 0 \<le> e_id e \<and> e_id e < int (length es div 2)) \<and>
     (\<forall>a < length es. is_call (es ! a) \<longrightarrow>
        (\<exists>b < length es. a < b \<and> \<not> is_call (es ! b) \<and> e_id (es ! b) = e_id (es ! a))) \<and>
     (\<forall>b < length es. \<not> is_call (es ! b) \<longrightarrow>
        (\<exists>a < b. is_call (es ! a) \<and> e_id (es ! a) = e_id (es ! b)))"

lemma wf_history_unique:
  assumes "wf_history es" and "a < length es" and "b < length es"
    and "is_call (es ! a) = is_call (es ! b)" and "e_id (es ! a) = e_id (es ! b)"
  shows "a = b"
proof -
  have "map (\<lambda>e. (e_kind e, e_id e)) es ! a = map (\<lambda>e. (e_kind e, e_id e)) es ! b"
    using assms(2-5) by (auto simp: is_call_def callEntry_def)
  then show ?thesis
    using assms(1-3) by (simp add: wf_history_def nth_eq_iff_index_eq del: nth_map)
qed

text \<open>The state of \<open>makeLinkedEntries\<close> when the entries from \<open>i\<close> on are linked.\<close>

definition linked_from ::
  "'v hentry list \<Rightarrow> nat \<Rightarrow> 'v store \<times> nat option \<times> (int \<Rightarrow> nat option) \<Rightarrow> bool" where
  "linked_from es i st \<longleftrightarrow>
     (case st of (h, root, match) \<Rightarrow>
        (if i = length es then root = None
         else root = Some i \<and> dll h [i..<length es] \<and> n_prev (h i) = None) \<and>
        (\<forall>a \<in> {i..<length es}. n_value (h a) = e_value (es ! a) \<and> n_id (h a) = e_id (es ! a)) \<and>
        (\<forall>a \<in> {i..<length es}. \<not> is_call (es ! a) \<longrightarrow>
           n_match (h a) = None \<and> match (e_id (es ! a)) = Some a) \<and>
        (\<forall>a \<in> {i..<length es}. \<forall>b \<in> {i..<length es}.
           is_call (es ! a) \<and> \<not> is_call (es ! b) \<and> a < b \<and> e_id (es ! a) = e_id (es ! b) \<longrightarrow>
           n_match (h a) = Some b))"

lemma insertBefore_data [simp]:
  "n_value (insertBefore n mark h a) = n_value (h a)" "n_id (insertBefore n mark h a) = n_id (h a)"
  "n_match (insertBefore n mark h a) = n_match (h a)"
  by (auto simp: insertBefore_def Let_def split: option.splits)

lemma insertBefore_front:
  assumes "dll h [Suc i..<n]" and "n_prev (h (Suc i)) = None" and "Suc i < n"
  shows "dll (insertBefore i (Some (Suc i)) h) [i..<n]"
    and "n_prev (insertBefore i (Some (Suc i)) h i) = n_prev (h i)"
proof -
  let ?h = "insertBefore i (Some (Suc i)) h"
  have h: "?h = set_next i (Some (Suc i)) (set_prev (Suc i) (Some i) h)"
    using assms(2) by (simp add: insertBefore_def)
  have u: "[i..<n] = i # Suc i # [Suc (Suc i)..<n]" "[Suc i..<n] = Suc i # [Suc (Suc i)..<n]"
    using assms(3) by (simp_all add: upt_conv_Cons)
  have "adj ?h [Suc i..<n] \<longleftrightarrow> adj h [Suc i..<n]"
    unfolding h
  proof (rule adj_cong)
    fix y assume "y \<in> set (butlast [Suc i..<n])"
    then have "y \<noteq> i" by (auto dest!: in_set_butlastD)
    then show "n_next (set_next i (Some (Suc i)) (set_prev (Suc i) (Some i) h) y) = n_next (h y)"
      by simp
  qed (auto simp: u(2))
  then show "dll ?h [i..<n]"
    using assms(1) unfolding dll_def u by (auto simp: h)
  show "n_prev (?h i) = n_prev (h i)" by (simp add: h)
qed

lemma dll_cong: "(\<And>y. y \<in> set xs \<Longrightarrow> h' y = h y) \<Longrightarrow> dll h' xs = dll h xs"
proof (cases "xs = []")
  case False
  assume eq: "\<And>y. y \<in> set xs \<Longrightarrow> h' y = h y"
  have "adj h' xs = adj h xs"
    using eq False by (intro adj_cong) (auto dest: in_set_butlastD list.set_sel(2))
  then show ?thesis using eq False by (simp add: dll_def)
qed (simp add: dll_def)

lemma link_entry_step:
  assumes wf: "wf_history es" and i: "i < length es" and inv: "linked_from es (Suc i) st"
  shows "linked_from es i (link_entry es i st)"
proof -
  obtain h root match where st: "st = (h, root, match)" by (cases st)
  define nd where "nd = \<lparr>n_value = e_value (es ! i),
    n_match = (if is_call (es ! i) then match (e_id (es ! i)) else None), n_id = e_id (es ! i),
    n_next = None, n_prev = None\<rparr>"
  define h1 where "h1 = h(i := nd)"
  define match1 where
    "match1 = (if is_call (es ! i) then match else match(e_id (es ! i) \<mapsto> i))"
  have le: "link_entry es i st = (insertBefore i root h1, Some i, match1)"
    by (simp add: link_entry_def st Let_def h1_def nd_def match1_def is_call_def entry_kinds)
  have list: "dll (insertBefore i root h1) [i..<length es] \<and> n_prev (insertBefore i root h1 i) = None"
  proof (cases "Suc i = length es")
    case True
    then have "root = None" using inv by (simp add: linked_from_def st)
    with True show ?thesis
      by (simp add: insertBefore_def dll_def h1_def nd_def flip: True)
  next
    case False
    then have "root = Some (Suc i)" "dll h [Suc i..<length es]" "n_prev (h (Suc i)) = None"
      using inv i by (auto simp: linked_from_def st split: if_splits)
    moreover have "dll h1 [Suc i..<length es] = dll h [Suc i..<length es]"
      by (rule dll_cong) (simp add: h1_def)
    ultimately show ?thesis
      using insertBefore_front [of h1 i "length es"] False i by (simp add: h1_def nd_def)
  qed
  have uniq: "e_id (es ! a) \<noteq> e_id (es ! i)"
    if "a \<in> {Suc i..<length es}" "is_call (es ! a) = is_call (es ! i)" for a
    using wf_history_unique [OF wf, of a i] that i by auto
  have split: "a \<in> {i..<length es} \<longleftrightarrow> a = i \<or> a \<in> {Suc i..<length es}" for a
    using i by auto
  have old: "n_value (h a) = e_value (es ! a)" "n_id (h a) = e_id (es ! a)"
    "\<not> is_call (es ! a) \<Longrightarrow> n_match (h a) = None \<and> match (e_id (es ! a)) = Some a"
    "b \<in> {Suc i..<length es} \<Longrightarrow> is_call (es ! a) \<Longrightarrow> \<not> is_call (es ! b) \<Longrightarrow> a < b \<Longrightarrow>
       e_id (es ! a) = e_id (es ! b) \<Longrightarrow> n_match (h a) = Some b"
    if "a \<in> {Suc i..<length es}" for a b
    using inv that unfolding linked_from_def st by blast+
  have data: "n_value (h1 a) = e_value (es ! a) \<and> n_id (h1 a) = e_id (es ! a)"
    if "a \<in> {i..<length es}" for a
    using old(1,2) that split by (auto simp: h1_def nd_def)
  have ret: "n_match (h1 a) = None \<and> match1 (e_id (es ! a)) = Some a"
    if "a \<in> {i..<length es}" "\<not> is_call (es ! a)" for a
    using old(3) [of a] uniq [of a] that split [of a]
    by (cases "a = i") (auto simp: h1_def nd_def match1_def)
  have mt: "n_match (h1 a) = Some b"
    if "a \<in> {i..<length es}" "b \<in> {i..<length es}" "is_call (es ! a)" "\<not> is_call (es ! b)"
      "a < b" "e_id (es ! a) = e_id (es ! b)" for a b
    using old(3) [of b] old(4) [of a b] that split [of a] split [of b]
    by (auto simp: h1_def nd_def)
  show ?thesis
    unfolding le linked_from_def using list data ret mt i by auto
qed

lemma link_entries_linked:
  "wf_history es \<Longrightarrow> i \<le> length es \<Longrightarrow> linked_from es i st \<Longrightarrow>
   linked_from es 0 (link_entries es i st)"
proof (induction i arbitrary: st)
  case (Suc i)
  then show ?case using link_entry_step [of es i st] by simp
qed simp

lemma makeLinkedEntries_linked:
  assumes "wf_history es" and "es \<noteq> []"
  obtains h' where "makeLinkedEntries es h = (h', Some 0)" and "dll h' [0..<length es]"
    and "n_prev (h' 0) = None"
    and "\<And>a. a < length es \<Longrightarrow> n_value (h' a) = e_value (es ! a) \<and> n_id (h' a) = e_id (es ! a)"
    and "\<And>a. a < length es \<Longrightarrow> \<not> is_call (es ! a) \<Longrightarrow> n_match (h' a) = None"
    and "\<And>a b. a < b \<Longrightarrow> b < length es \<Longrightarrow> is_call (es ! a) \<Longrightarrow> \<not> is_call (es ! b) \<Longrightarrow>
      e_id (es ! a) = e_id (es ! b) \<Longrightarrow> n_match (h' a) = Some b"
proof -
  obtain h' root match where r: "link_entries es (length es) (h, None, \<lambda>_. None) = (h', root, match)"
    by (metis prod_cases3)
  have "linked_from es 0 (h', root, match)"
    using link_entries_linked [OF assms(1), of "length es" "(h, None, \<lambda>_. None)"]
    by (simp add: r) (simp add: linked_from_def)
  then show thesis
    using assms(2) r by (intro that [of h']) (auto simp: linked_from_def makeLinkedEntries_def)
qed

lemma list_length_dll: "dll h xs \<Longrightarrow> list_length h (Some (hd xs)) l = Some (l + length xs)"
proof (induction xs arbitrary: l)
  case (Cons x xs)
  then show ?case
    by (cases xs) (auto simp: dll_def list_length.simps [of h "Some x"] list_length.simps [of h None])
qed (simp add: dll_def)

end
