(* ===== verification/Porc_Bitset.thy ===== *)
theory Porc_Bitset
  imports Lab_Prelude
begin

text \<open>
  The bit set of the linearizability checker (\<open>src/porcupine/bitset.go\<close>): 64-bit chunks,
  position \<open>p\<close> in chunk \<open>p / 64\<close>. Methods with a receiver that is changed in place return
  the new slice; an index outside the chunks panics. \<open>bits_of\<close> is the set a bit set stands
  for, and the locale \<open>set_table\<close> is what the checker relies on.
\<close>

unbundle bit_operations_syntax

type_synonym bitset = "64 word list"

section \<open>Operations\<close>

definition newBitset :: "nat \<Rightarrow> bitset" where
  "newBitset bs =
     (let extra = (if bs mod 64 \<noteq> 0 then 1 else 0); chunks = bs div 64 + extra
      in replicate chunks 0)"

definition bitset_clone :: "bitset \<Rightarrow> bitset" where
  "bitset_clone b = map (\<lambda>v. v) b"

definition bitsetIndex :: "nat \<Rightarrow> nat \<times> nat" where
  "bitsetIndex pos = (pos div 64, pos mod 64)"

definition bitset_set :: "bitset \<Rightarrow> nat \<Rightarrow> bitset go" where
  "bitset_set b pos =
     (let (major, minor) = bitsetIndex pos
      in go_bind (go_nth b (int major)) (\<lambda>v. go_set b (int major) (v OR push_bit minor 1)))"

definition bitset_clear :: "bitset \<Rightarrow> nat \<Rightarrow> bitset go" where
  "bitset_clear b pos =
     (let (major, minor) = bitsetIndex pos
      in go_bind (go_nth b (int major)) (\<lambda>v. go_set b (int major) (v AND NOT (push_bit minor 1))))"

definition bitset_get :: "bitset \<Rightarrow> nat \<Rightarrow> bool go" where
  "bitset_get b pos =
     (let (major, minor) = bitsetIndex pos
      in go_bind (go_nth b (int major)) (\<lambda>v. Inr (v AND push_bit minor 1 \<noteq> 0)))"

text \<open>\<open>bits.OnesCount64\<close>.\<close>

definition OnesCount64 :: "64 word \<Rightarrow> nat" where
  "OnesCount64 v = length (filter (bit v) [0..<64])"

fun bitset_popcnt :: "bitset \<Rightarrow> nat" where
  "bitset_popcnt [] = 0"
| "bitset_popcnt (v # vs) = OnesCount64 v + bitset_popcnt vs"

definition bitset_hash :: "bitset \<Rightarrow> 64 word" where
  "bitset_hash b = fold (\<lambda>v h. h XOR v) b (of_nat (bitset_popcnt b))"

fun chunks_equal :: "bitset \<Rightarrow> bitset \<Rightarrow> bool" where
  "chunks_equal (v # vs) (w # ws) = (if v \<noteq> w then False else chunks_equal vs ws)"
| "chunks_equal _ _ = True"

definition bitset_equals :: "bitset \<Rightarrow> bitset \<Rightarrow> bool" where
  "bitset_equals b b2 = (if length b \<noteq> length b2 then False else chunks_equal b b2)"

section \<open>The set a bit set stands for\<close>

definition bits_of :: "bitset \<Rightarrow> nat set" where
  "bits_of b = {p. p < 64 * length b \<and> bit (b ! (p div 64)) (p mod 64)}"

lemma chunk_lt [simp]: "p < 64 * n \<Longrightarrow> p div 64 < (n :: nat)"
  by (simp add: less_mult_imp_div_less mult.commute)

lemma chunk_ge: "\<not> p < 64 * n \<Longrightarrow> n \<le> p div (64 :: nat)"
  by (simp add: less_eq_div_iff_mult_less_eq mult.commute)

lemma single_bit: "m < 64 \<Longrightarrow> bit (2 ^ m :: 64 word) k \<longleftrightarrow> k = m"
  by (auto simp: bit_simps)

lemma and_single_bit: "m < 64 \<Longrightarrow> (v :: 64 word) AND 2 ^ m \<noteq> 0 \<longleftrightarrow> bit v m"
proof -
  assume m: "m < 64"
  have "bit (v AND 2 ^ m) k \<longleftrightarrow> bit v m \<and> k = m" for k
    using m by (auto simp: bit_and_iff single_bit)
  then show ?thesis by (metis bit_eq_iff bit_0_eq bot_apply bot_bool_def)
qed

lemma bitset_clone [simp]: "bitset_clone b = b"
  by (simp add: bitset_clone_def)

lemma bits_of_newBitset: "bits_of (newBitset n) = {}"
  by (auto simp: bits_of_def newBitset_def Let_def)

lemma length_newBitset: "n \<le> 64 * length (newBitset n)"
  by (simp add: newBitset_def Let_def) presburger

lemma bitset_set_in:
  assumes "p < 64 * length b"
  obtains b' where "bitset_set b p = Inr b'" and "length b' = length b"
    and "bits_of b' = insert p (bits_of b)"
proof
  let ?b' = "b[p div 64 := b ! (p div 64) OR push_bit (p mod 64) 1]"
  show "bitset_set b p = Inr ?b'"
    using assms by (simp add: bitset_set_def bitsetIndex_def go_nth_in go_set_def)
  have split: "q = p \<longleftrightarrow> q div 64 = p div 64 \<and> q mod 64 = p mod 64" for q :: nat
    by (metis div_mult_mod_eq)
  show "bits_of ?b' = insert p (bits_of b)"
    using assms
    by (auto simp: bits_of_def nth_list_update bit_or_iff single_bit split split: if_splits)
qed simp

lemma bitset_clear_in:
  assumes "p < 64 * length b"
  obtains b' where "bitset_clear b p = Inr b'" and "length b' = length b"
    and "bits_of b' = bits_of b - {p}"
proof
  let ?b' = "b[p div 64 := b ! (p div 64) AND NOT (push_bit (p mod 64) 1)]"
  show "bitset_clear b p = Inr ?b'"
    using assms by (simp add: bitset_clear_def bitsetIndex_def go_nth_in go_set_def)
  have split: "q = p \<longleftrightarrow> q div 64 = p div 64 \<and> q mod 64 = p mod 64" for q :: nat
    by (metis div_mult_mod_eq)
  show "bits_of ?b' = bits_of b - {p}"
    using assms
    by (auto simp: bits_of_def nth_list_update bit_and_iff bit_not_iff single_bit split
        split: if_splits)
qed simp

lemma bitset_get_in: "p < 64 * length b \<Longrightarrow> bitset_get b p = Inr (p \<in> bits_of b)"
  by (simp add: bitset_get_def bitsetIndex_def go_nth_in bits_of_def and_single_bit)

lemma bitset_out:
  assumes "\<not> p < 64 * length b"
  shows "bitset_set b p = Inl IndexOutOfRange" "bitset_clear b p = Inl IndexOutOfRange"
    "bitset_get b p = Inl IndexOutOfRange"
proof -
  have "go_nth b (int (p div 64)) = Inl IndexOutOfRange"
    using chunk_ge [OF assms] by (intro go_nth_out) auto
  then show "bitset_set b p = Inl IndexOutOfRange" "bitset_clear b p = Inl IndexOutOfRange"
    "bitset_get b p = Inl IndexOutOfRange"
    by (simp_all add: bitset_set_def bitset_clear_def bitset_get_def bitsetIndex_def)
qed

lemma chunks_equal_iff: "length b = length b2 \<Longrightarrow> chunks_equal b b2 \<longleftrightarrow> b = b2"
  by (induction b b2 rule: chunks_equal.induct) auto

lemma bitset_equals_iff: "bitset_equals b b2 \<longleftrightarrow> b = b2"
  using chunks_equal_iff by (auto simp: bitset_equals_def)

lemma bits_of_inject:
  assumes "length b = length b2" and "bits_of b = bits_of b2"
  shows "b = b2"
proof (rule nth_equalityI)
  fix i assume i: "i < length b"
  have "bit (b ! i) k \<longleftrightarrow> bit (b2 ! i) k" if "k < 64" for k
  proof -
    have "64 * i + k \<in> bits_of b \<longleftrightarrow> 64 * i + k \<in> bits_of b2" using assms(2) by simp
    then show ?thesis using i that assms(1) by (simp add: bits_of_def)
  qed
  then show "b ! i = b2 ! i" by (intro bit_word_eqI) simp
qed (fact assms)

lemma OnesCount64_card: "OnesCount64 v = card {k. k < 64 \<and> bit v k}"
  by (auto simp: OnesCount64_def length_filter_conv_card intro!: arg_cong [where f = card])

lemma bits_of_Cons: "bits_of (v # vs) = {k. k < 64 \<and> bit v k} \<union> (+) 64 ` bits_of vs"
proof (intro set_eqI)
  fix p
  show "p \<in> bits_of (v # vs) \<longleftrightarrow> p \<in> {k. k < 64 \<and> bit v k} \<union> (+) 64 ` bits_of vs"
  proof (cases "p < 64")
    case True
    then show ?thesis by (auto simp: bits_of_def)
  next
    case False
    then obtain q where "p = 64 + q" by (metis le_Suc_ex not_less)
    moreover have "(64 + q) div 64 = Suc (q div 64)" by simp
    ultimately show ?thesis by (auto simp: bits_of_def simp del: div_add_self1)
  qed
qed

lemma finite_bits_of [simp]: "finite (bits_of b)"
  by (simp add: bits_of_def)

lemma bitset_popcnt_card: "bitset_popcnt b = card (bits_of b)"
proof (induction b)
  case (Cons v vs)
  have "card (bits_of (v # vs)) = card {k. k < 64 \<and> bit v k} + card ((+) 64 ` bits_of vs)"
    unfolding bits_of_Cons by (rule card_Un_disjoint) auto
  then show ?case using Cons by (simp add: OnesCount64_card card_image)
qed (simp add: bits_of_def)

section \<open>The interface\<close>

text \<open>A table of positions below a bound that supports marking and unmarking.\<close>

locale set_table =
  fixes new_table :: "nat \<Rightarrow> 't" and mark :: "'t \<Rightarrow> nat \<Rightarrow> 't go" and unmark :: "'t \<Rightarrow> nat \<Rightarrow> 't go"
    and marks :: "'t \<Rightarrow> nat set" and cap :: "'t \<Rightarrow> nat"
  assumes marks_new: "marks (new_table n) = {}" and cap_new: "n \<le> cap (new_table n)"
    and mark_in: "p < cap t \<Longrightarrow>
      \<exists>t'. mark t p = Inr t' \<and> cap t' = cap t \<and> marks t' = insert p (marks t)"
    and unmark_in: "p < cap t \<Longrightarrow>
      \<exists>t'. unmark t p = Inr t' \<and> cap t' = cap t \<and> marks t' = marks t - {p}"
    and marks_determine: "cap t = cap t' \<Longrightarrow> marks t = marks t' \<Longrightarrow> t = t'"
begin

text \<open>Unmarking a position that was just marked gives the table back.\<close>

lemma unmark_mark:
  assumes "p < cap t" and "p \<notin> marks t"
  shows "\<exists>t'. mark t p = Inr t' \<and> unmark t' p = Inr t"
proof -
  obtain t' where t': "mark t p = Inr t'" "cap t' = cap t" "marks t' = insert p (marks t)"
    using mark_in [OF assms(1)] by blast
  then obtain t'' where t'': "unmark t' p = Inr t''" "cap t'' = cap t" "marks t'' = marks t"
    using unmark_in [of p t'] assms by auto
  then have "t'' = t" using marks_determine by blast
  with t' t'' show ?thesis by blast
qed

end

interpretation bs: set_table newBitset bitset_set bitset_clear bits_of "\<lambda>b. 64 * length b"
proof unfold_locales
  fix n show "bits_of (newBitset n) = {}" by (rule bits_of_newBitset)
  show "n \<le> 64 * length (newBitset n)" by (rule length_newBitset)
next
  fix p and t :: bitset assume "p < 64 * length t"
  then show "\<exists>t'. bitset_set t p = Inr t' \<and> 64 * length t' = 64 * length t \<and>
      bits_of t' = insert p (bits_of t)"
    and "\<exists>t'. bitset_clear t p = Inr t' \<and> 64 * length t' = 64 * length t \<and>
      bits_of t' = bits_of t - {p}"
    by (auto elim: bitset_set_in bitset_clear_in)
qed (auto intro: bits_of_inject)

section \<open>Properties\<close>

text \<open>
  C19. The bit set is a set. Below its capacity, \<open>set\<close> and \<open>clear\<close> insert and remove exactly
  the given position and \<open>get\<close> tests membership; \<open>popcnt\<close> is the cardinality; two bit sets of
  the same length are \<open>equals\<close> exactly when they stand for the same set.
\<close>

theorem bitset_refines_set:
  assumes "p < 64 * length b" and "length b2 = length b"
  shows "(\<exists>b'. bitset_set b p = Inr b' \<and> bits_of b' = insert p (bits_of b)) \<and>
    (\<exists>b'. bitset_clear b p = Inr b' \<and> bits_of b' = bits_of b - {p}) \<and>
    bitset_get b p = Inr (p \<in> bits_of b) \<and> bitset_popcnt b = card (bits_of b) \<and>
    (bitset_equals b b2 \<longleftrightarrow> bits_of b = bits_of b2)"
  using bs.mark_in [OF assms(1)] bs.unmark_in [OF assms(1)] bitset_get_in [OF assms(1)]
    bitset_popcnt_card [of b] bitset_equals_iff [of b b2] bs.marks_determine [of b b2] assms(2)
  by auto

theorem bitset_refines_set_witness:
  "\<exists>b'. bitset_set (newBitset 100) 70 = Inr b' \<and> bits_of b' = {70}"
proof -
  have "70 < 64 * length (newBitset 100)" by (simp add: newBitset_def)
  from bitset_refines_set [OF this refl] show ?thesis by (auto simp: bits_of_newBitset)
qed

end
