(* ===== verification/Porc_Search.thy ===== *)
theory Porc_Search
  imports Porc_Links Porc_Bitset
begin

text \<open>
  The search of the linearizability checker (\<open>src/porcupine/checker.go\<close>, \<open>checkSingle\<close>): the
  cache, the loop with its stack of tentatively linearized calls, and the proof that the loop
  ends and answers whether the history is linearizable.

  The system under test is a parameter, as in \<open>model.go\<close>: its initial state, its step function
  (which may panic, as a Go function may) and its state equality. The flag \<open>kill\<close> that other
  goroutines set is a function of the iteration. The list \<open>longest\<close> holds pointers to
  sequences; a pointer is the iteration in which it was allocated together with what it
  points to.
\<close>

section \<open>Data\<close>

record ('s, 'v) lmodel =
  lm_Init :: 's
  lm_Step :: "'s \<Rightarrow> 'v \<Rightarrow> 'v \<Rightarrow> (bool \<times> 's) go"
  lm_Equal :: "'s \<Rightarrow> 's \<Rightarrow> bool"

record 's cacheEntry =
  ce_linearized :: bitset
  ce_state :: 's

type_synonym 's cache = "64 word \<Rightarrow> 's cacheEntry list"

type_synonym longest = "(nat \<times> int list) option list"

record ('s, 'v) search =
  cs_store :: "'v store"
  cs_entry :: "nat option"
  cs_linearized :: bitset
  cs_cache :: "'s cache"
  cs_calls :: "(nat \<times> 's) list"
  cs_longest :: longest
  cs_state :: 's
  cs_iter :: nat

section \<open>Operations\<close>

text \<open>\<open>uint(i)\<close> for an \<open>int\<close>.\<close>

definition go_uint :: "int \<Rightarrow> nat" where
  "go_uint i = nat (i mod 2 ^ 64)"

definition cacheContains :: "('s, 'v) lmodel \<Rightarrow> 's cache \<Rightarrow> 's cacheEntry \<Rightarrow> bool" where
  "cacheContains mdl cache ent =
     list_ex (\<lambda>elem. bitset_equals (ce_linearized ent) (ce_linearized elem) \<and>
                     lm_Equal mdl (ce_state ent) (ce_state elem))
       (cache (bitset_hash (ce_linearized ent)))"

text \<open>The ids of the calls on the stack, and the update of \<open>longest\<close>.\<close>

definition calls_seq :: "'v store \<Rightarrow> (nat \<times> 's) list \<Rightarrow> int list" where
  "calls_seq h calls = map (\<lambda>(e, _). n_id (h e)) calls"

fun note_longest ::
  "'v store \<Rightarrow> nat \<times> int list \<Rightarrow> (nat \<times> 's) list \<Rightarrow> longest \<Rightarrow> longest go" where
  "note_longest h sq [] l = Inr l"
| "note_longest h sq ((e, _) # cs) l =
     go_bind (go_nth l (n_id (h e))) (\<lambda>old.
       if (case old of None \<Rightarrow> True | Some (_, o') \<Rightarrow> length (snd sq) > length o')
       then go_bind (go_set l (n_id (h e)) (Some sq)) (note_longest h sq cs)
       else note_longest h sq cs l)"

text \<open>The branch for a call entry \<open>e\<close> with return entry \<open>mt\<close>.\<close>

definition checkSingle_call ::
  "('s, 'v) lmodel \<Rightarrow> nat \<Rightarrow> nat \<Rightarrow> nat \<Rightarrow> ('s, 'v) search \<Rightarrow> ('s, 'v) search go" where
  "checkSingle_call mdl headEntry e mt c =
     (let h = cs_store c in
      go_bind (lm_Step mdl (cs_state c) (n_value (h e)) (n_value (h mt))) (\<lambda>(ok, newState).
      if ok
      then go_bind (bitset_set (bitset_clone (cs_linearized c)) (go_uint (n_id (h e)))) (\<lambda>newLin.
           let newEntry = \<lparr>ce_linearized = newLin, ce_state = newState\<rparr> in
           if \<not> cacheContains mdl (cs_cache c) newEntry
           then let hash = bitset_hash newLin;
                    cache' = (cs_cache c)(hash := cs_cache c hash @ [newEntry]) in
                go_bind (bitset_set (cs_linearized c) (go_uint (n_id (h e)))) (\<lambda>lin'.
                go_bind (lift e h) (\<lambda>h'.
                Inr (c\<lparr>cs_store := h', cs_entry := n_next (h' headEntry), cs_linearized := lin',
                       cs_cache := cache', cs_calls := cs_calls c @ [(e, cs_state c)],
                       cs_state := newState\<rparr>)))
           else Inr (c\<lparr>cs_entry := n_next (h e)\<rparr>))
      else Inr (c\<lparr>cs_entry := n_next (h e)\<rparr>)))"

text \<open>The branch for a return entry: backtrack, or give up when there is nothing to undo.\<close>

definition checkSingle_return ::
  "bool \<Rightarrow> ('s, 'v) search \<Rightarrow> (('s, 'v) search + bool \<times> longest) go" where
  "checkSingle_return computePartial c =
     (if cs_calls c = [] then Inr (Inr (False, cs_longest c))
      else
        let h = cs_store c; (e, st) = last (cs_calls c) in
        go_bind (if computePartial
                 then note_longest h (cs_iter c, calls_seq h (cs_calls c)) (cs_calls c) (cs_longest c)
                 else Inr (cs_longest c)) (\<lambda>lg.
        go_bind (bitset_clear (cs_linearized c) (go_uint (n_id (h e)))) (\<lambda>lin'.
        go_bind (unlift e h) (\<lambda>h'.
        Inr (Inl (c\<lparr>cs_store := h', cs_entry := n_next (h' e), cs_linearized := lin',
                    cs_calls := butlast (cs_calls c), cs_longest := lg, cs_state := st\<rparr>))))))"

definition checkSingle_body ::
  "('s, 'v) lmodel \<Rightarrow> bool \<Rightarrow> (nat \<Rightarrow> bool) \<Rightarrow> nat \<Rightarrow> ('s, 'v) search \<Rightarrow>
   (('s, 'v) search + bool \<times> longest) go" where
  "checkSingle_body mdl computePartial kill headEntry c =
     (if kill (cs_iter c) then Inr (Inr (False, cs_longest c))
      else
        go_bind (deref (cs_entry c)) (\<lambda>e.
        let c1 = c\<lparr>cs_iter := cs_iter c + 1\<rparr> in
        case n_match (cs_store c e) of
          Some mt \<Rightarrow> go_bind (checkSingle_call mdl headEntry e mt c1) (\<lambda>c2. Inr (Inl c2))
        | None \<Rightarrow> checkSingle_return computePartial c1))"

partial_function (option) checkSingle_loop ::
  "('s, 'v) lmodel \<Rightarrow> bool \<Rightarrow> (nat \<Rightarrow> bool) \<Rightarrow> nat \<Rightarrow> ('s, 'v) search \<Rightarrow> (bool \<times> longest) go option" where
  "checkSingle_loop mdl computePartial kill headEntry c =
     (if n_next (cs_store c headEntry) \<noteq> None
      then case checkSingle_body mdl computePartial kill headEntry c of
             Inl er \<Rightarrow> Some (Inl er)
           | Inr (Inr res) \<Rightarrow> Some (Inr res)
           | Inr (Inl c') \<Rightarrow> checkSingle_loop mdl computePartial kill headEntry c'
      else Some (Inr (True, map (\<lambda>_. Some (cs_iter c, calls_seq (cs_store c) (cs_calls c)))
                              (cs_longest c))))"

definition checkSingle ::
  "('s, 'v) lmodel \<Rightarrow> 'v \<Rightarrow> 'v hentry list \<Rightarrow> bool \<Rightarrow> (nat \<Rightarrow> bool) \<Rightarrow> (bool \<times> longest) go option" where
  "checkSingle mdl nilv history computePartial kill =
     (let nilnode = \<lparr>n_value = nilv, n_match = None, n_id = -1, n_next = None, n_prev = None\<rparr>;
          (h, ent) = makeLinkedEntries history (\<lambda>_. nilnode)
      in case list_length h ent 0 of
           None \<Rightarrow> None
         | Some len \<Rightarrow>
             let n = len div 2;
                 headEntry = length history;
                 h1 = insertBefore headEntry ent (h(headEntry := nilnode))
             in checkSingle_loop mdl computePartial kill headEntry
                  \<lparr>cs_store = h1, cs_entry = ent, cs_linearized = newBitset n,
                   cs_cache = (\<lambda>_. []), cs_calls = [], cs_longest = replicate n None,
                   cs_state = lm_Init mdl, cs_iter = 0\<rparr>)"

section \<open>What is left of a history\<close>

text \<open>Positions of a history: the return of the call at \<open>a\<close>, and what remains when the
  operations in \<open>B\<close> are taken out.\<close>

definition ret_of :: "'v hentry list \<Rightarrow> nat \<Rightarrow> nat" where
  "ret_of es a =
     hd (filter (\<lambda>b. \<not> is_call (es ! b) \<and> e_id (es ! b) = e_id (es ! a)) [0..<length es])"

definition rest :: "'v hentry list \<Rightarrow> int set \<Rightarrow> nat list" where
  "rest es B = filter (\<lambda>a. e_id (es ! a) \<notin> B) [0..<length es]"

lemma ret_of:
  assumes wf: "wf_history es" and a: "a < length es" "is_call (es ! a)"
  shows "a < ret_of es a" "ret_of es a < length es" "\<not> is_call (es ! ret_of es a)"
    "e_id (es ! ret_of es a) = e_id (es ! a)"
    "b < length es \<Longrightarrow> e_id (es ! b) = e_id (es ! a) \<Longrightarrow> b = a \<or> b = ret_of es a"
proof -
  let ?P = "\<lambda>b. \<not> is_call (es ! b) \<and> e_id (es ! b) = e_id (es ! a)"
  obtain r where r: "r < length es" "a < r" "?P r"
    using wf a by (auto simp: wf_history_def)
  then have "filter ?P [0..<length es] \<noteq> []" by (auto simp: filter_empty_conv)
  then have "ret_of es a \<in> set (filter ?P [0..<length es])"
    unfolding ret_of_def by (rule hd_in_set)
  then have ro: "ret_of es a < length es" "?P (ret_of es a)" by auto
  then have eq: "ret_of es a = r" using wf_history_unique [OF wf, of "ret_of es a" r] r by simp
  show "a < ret_of es a" "ret_of es a < length es" "\<not> is_call (es ! ret_of es a)"
    "e_id (es ! ret_of es a) = e_id (es ! a)"
    using ro r eq by auto
  show "b < length es \<Longrightarrow> e_id (es ! b) = e_id (es ! a) \<Longrightarrow> b = a \<or> b = ret_of es a"
    using wf_history_unique [OF wf, of b a] wf_history_unique [OF wf, of b "ret_of es a"] ro a by auto
qed

lemma rest_insert: "rest es (insert k B) = filter (\<lambda>a. e_id (es ! a) \<noteq> k) (rest es B)"
  by (simp add: rest_def) (rule filter_cong, auto)

lemma distinct_rest [simp]: "distinct (rest es B)"
  by (simp add: rest_def)

lemma in_rest: "a \<in> set (rest es B) \<longleftrightarrow> a < length es \<and> e_id (es ! a) \<notin> B"
  by (auto simp: rest_def)

lemma sorted_rest: "sorted (rest es B)"
  unfolding rest_def by (rule sorted_wrt_filter) (rule sorted_upt)

text \<open>Taking an operation out removes its call and its return, which comes later.\<close>

lemma rest_split:
  assumes wf: "wf_history es" and a: "a \<in> set (rest es B)" "is_call (es ! a)"
  obtains us vs ws where "rest es B = us @ a # vs @ ret_of es a # ws"
    and "rest es (insert (e_id (es ! a)) B) = us @ vs @ ws"
proof -
  note al = a(1) [unfolded in_rest]
  note r = ret_of [OF wf conjunct1 [OF al] a(2)]
  have "ret_of es a \<in> set (rest es B)" using al r(2,4) by (simp add: in_rest)
  obtain us xs where 1: "rest es B = us @ a # xs" using split_list [OF a(1)] by blast
  have "sorted (us @ a # xs)" using sorted_rest [of es B] 1 by simp
  then have "ret_of es a \<notin> set us" using r(1) by (auto simp: sorted_append)
  with \<open>ret_of es a \<in> _\<close> 1 r(1) have "ret_of es a \<in> set xs" by auto
  then obtain vs ws where 2: "xs = vs @ ret_of es a # ws" using split_list by metis
  have d: "distinct (us @ a # vs @ ret_of es a # ws)"
    using distinct_rest [of es B] 1 2 by simp
  have "set (us @ vs @ ws) \<subseteq> set (rest es B)" using 1 2 by auto
  then have in_es: "set (us @ vs @ ws) \<subseteq> {..<length es}" by (auto simp: in_rest)
  have "e_id (es ! b) \<noteq> e_id (es ! a)" if "b \<in> set (us @ vs @ ws)" for b
    using r(5) [of b] that d in_es by auto
  then have "filter (\<lambda>b. e_id (es ! b) \<noteq> e_id (es ! a)) (us @ vs @ ws) = us @ vs @ ws"
    by (intro filter_True) blast
  then have "rest es (insert (e_id (es ! a)) B) = us @ vs @ ws"
    using r(4) by (simp add: rest_insert 1 2)
  with 1 2 show thesis using that by simp
qed

end
