(* ===== verification/Porc_Correct.thy ===== *)
theory Porc_Correct
  imports Porc_Search
begin

text \<open>
  Correctness of \<open>checkSingle\<close> (\<open>src/porcupine/checker.go\<close>): on a complete history the search
  ends, does not panic, and answers whether the operations can be put into an order that
  respects real time and that the model allows.

  First the answer is related to \<open>completable\<close>, which says the same thing step by step (pick an
  operation whose call comes before every remaining return); then \<open>completable\<close> is related to
  orders of operations.
\<close>

section \<open>Completing a partial linearization\<close>

abbreviation call_prefix :: "'v hentry list \<Rightarrow> nat list \<Rightarrow> nat list" where
  "call_prefix es \<equiv> takeWhile (\<lambda>a. is_call (es ! a))"

definition op_step :: "('s, 'v) lmodel \<Rightarrow> 'v hentry list \<Rightarrow> 's \<Rightarrow> nat \<Rightarrow> (bool \<times> 's) go" where
  "op_step mdl es s a = lm_Step mdl s (e_value (es ! a)) (e_value (es ! ret_of es a))"

inductive completable :: "('s, 'v) lmodel \<Rightarrow> 'v hentry list \<Rightarrow> int set \<Rightarrow> 's \<Rightarrow> bool"
  for mdl es where
  complete: "rest es B = [] \<Longrightarrow> completable mdl es B s"
| pick: "a \<in> set (call_prefix es (rest es B)) \<Longrightarrow> op_step mdl es s a = Inr (True, s') \<Longrightarrow>
     completable mdl es (insert (e_id (es ! a)) B) s' \<Longrightarrow> completable mdl es B s"

inductive_cases completableE: "completable mdl es B s"

text \<open>What is asked of the model: its step function does not panic on the operations of the
  history, and its equality only identifies equal states.\<close>

definition model_ok :: "('s, 'v) lmodel \<Rightarrow> 'v hentry list \<Rightarrow> bool" where
  "model_ok mdl es \<longleftrightarrow>
     (\<forall>s. \<forall>a < length es. is_call (es ! a) \<longrightarrow> (\<exists>r. op_step mdl es s a = Inr r)) \<and>
     (\<forall>s t. lm_Equal mdl s t \<longrightarrow> s = t)"

section \<open>The store during the search\<close>

definition good_store :: "'v hentry list \<Rightarrow> 'v store \<Rightarrow> int set \<Rightarrow> bool" where
  "good_store es h B \<longleftrightarrow>
     dll h (length es # rest es B) \<and>
     (\<forall>a < length es. n_value (h a) = e_value (es ! a) \<and> n_id (h a) = e_id (es ! a) \<and>
        n_match (h a) = (if is_call (es ! a) then Some (ret_of es a) else None))"

lemma good_store_next:
  assumes "good_store es h B" and "rest es B = us @ x # vs"
  shows "n_next (h x) = (if vs = [] then None else Some (hd vs))"
  using dll_neighbours(2) [of h "length es # us" x vs] assms by (simp add: good_store_def)

lemma good_store_head:
  assumes "good_store es h B"
  shows "n_next (h (length es)) = (if rest es B = [] then None else Some (hd (rest es B)))"
  using assms by (cases "rest es B") (auto simp: good_store_def dll_def)

lemma good_store_lift:
  assumes wf: "wf_history es" and g: "good_store es h B"
    and a: "a \<in> set (rest es B)" "is_call (es ! a)"
  obtains h' where "lift a h = Inr h'" and "unlift a h' = Inr h"
    and "good_store es h' (insert (e_id (es ! a)) B)"
proof -
  obtain us vs ws where r: "rest es B = us @ a # vs @ ret_of es a # ws"
    "rest es (insert (e_id (es ! a)) B) = us @ vs @ ws"
    using rest_split [OF wf a] by blast
  have al: "a < length es" using a(1) by (simp add: in_rest)
  let ?m = "ret_of es a" and ?as = "length es # us"
  have d: "dll h (?as @ a # vs @ ?m # ws)" and m: "n_match (h a) = Some ?m"
    using g r(1) al a(2) by (simp_all add: good_store_def)
  let ?h = "unlink ?m (unlink a h)"
  have "dll ?h ((?as @ vs) @ ws)"
    by (rule dll_unlink) (use dll_unlink [OF d] in auto)
  then have "good_store es ?h (insert (e_id (es ! a)) B)"
    using g r(2) by (simp add: good_store_def)
  then show thesis
    using that lift_eq [OF d _ m] unlift_eq [OF d _ m] by simp
qed

section \<open>The invariant of the search\<close>

definition ids :: "'v hentry list \<Rightarrow> int set" where
  "ids es = e_id ` set es"

text \<open>An entry of the cache that is known to lead nowhere, and the cache: everything in it
  leads nowhere or belongs to the current path.\<close>

definition dead_entry :: "('s, 'v) lmodel \<Rightarrow> 'v hentry list \<Rightarrow> 's cacheEntry \<Rightarrow> bool" where
  "dead_entry mdl es ent \<longleftrightarrow>
     (\<exists>B \<subseteq> ids es. bits_of (ce_linearized ent) = nat ` B \<and> \<not> completable mdl es B (ce_state ent))"

definition path_entry :: "'v hentry list \<Rightarrow> int set \<Rightarrow> 's cacheEntry \<Rightarrow> bool" where
  "path_entry es B ent \<longleftrightarrow> (\<exists>B' \<subseteq> B. bits_of (ce_linearized ent) = nat ` B')"

definition cache_ok :: "('s, 'v) lmodel \<Rightarrow> 'v hentry list \<Rightarrow> int set \<Rightarrow> 's cache \<Rightarrow> bool" where
  "cache_ok mdl es B C \<longleftrightarrow>
     (\<forall>k. \<forall>ent \<in> set (C k). path_entry es B ent \<or> dead_entry mdl es ent)"

definition cache_grows :: "('s, 'v) lmodel \<Rightarrow> 'v hentry list \<Rightarrow> 's cache \<Rightarrow> 's cache \<Rightarrow> bool" where
  "cache_grows mdl es C C' \<longleftrightarrow>
     (\<forall>k. \<forall>ent \<in> set (C' k). ent \<in> set (C k) \<or> dead_entry mdl es ent)"

lemma path_entry_mono: "path_entry es B ent \<Longrightarrow> B \<subseteq> B' \<Longrightarrow> path_entry es B' ent"
  unfolding path_entry_def by blast

lemma cache_grows_refl [simp]: "cache_grows mdl es C C"
  by (simp add: cache_grows_def)

lemma cache_grows_trans:
  "cache_grows mdl es C C' \<Longrightarrow> cache_grows mdl es C' C'' \<Longrightarrow> cache_grows mdl es C C''"
  unfolding cache_grows_def by blast

lemma cache_ok_grows: "cache_ok mdl es B C \<Longrightarrow> cache_grows mdl es C C' \<Longrightarrow> cache_ok mdl es B C'"
  unfolding cache_ok_def cache_grows_def by blast

definition search_ok ::
  "('s, 'v) lmodel \<Rightarrow> 'v hentry list \<Rightarrow> int set \<Rightarrow> ('s, 'v) search \<Rightarrow> bool" where
  "search_ok mdl es B c \<longleftrightarrow>
     B \<subseteq> ids es \<and> good_store es (cs_store c) B \<and> bits_of (cs_linearized c) = nat ` B \<and>
     length es div 2 \<le> 64 * length (cs_linearized c) \<and>
     length (cs_longest c) = length es div 2 \<and>
     (\<forall>p \<in> set (cs_calls c). fst p < length es) \<and> length es < 2 ^ 64 \<and>
     cache_ok mdl es B (cs_cache c)"

lemma ids_range: "wf_history es \<Longrightarrow> k \<in> ids es \<Longrightarrow> 0 \<le> k \<and> k < int (length es div 2)"
  by (auto simp: ids_def wf_history_def)

lemma id_in_ids: "a < length es \<Longrightarrow> e_id (es ! a) \<in> ids es"
  by (simp add: ids_def)

lemma nat_image_inject:
  assumes "wf_history es" and "A \<subseteq> ids es" and "B \<subseteq> ids es" and "nat ` A = nat ` B"
  shows "A = B"
proof -
  have "inj_on nat (ids es)"
    using ids_range [OF assms(1)] by (auto simp: inj_on_def) (metis eq_nat_nat_iff)
  then show ?thesis using assms(2-4) by (simp add: inj_on_image_eq_iff)
qed

lemma go_uint_id:
  assumes "wf_history es" and "length es < 2 ^ 64" and "k \<in> ids es"
  shows "go_uint k = nat k"
proof -
  have "0 \<le> k" "k < 2 ^ 64" using ids_range [OF assms(1,3)] assms(2) by auto
  then show ?thesis by (simp add: go_uint_def)
qed

lemma note_longest_ok:
  "\<forall>p \<in> set cs. 0 \<le> n_id (h (fst p)) \<and> n_id (h (fst p)) < int (length l) \<Longrightarrow>
   \<exists>l'. note_longest h sq cs l = Inr l' \<and> length l' = length l"
proof (induction cs arbitrary: l)
  case (Cons p cs)
  obtain e st where p: "p = (e, st)" by force
  have nth: "go_nth l (n_id (h e)) = Inr (l ! nat (n_id (h e)))"
    and set: "go_set l (n_id (h e)) (Some sq) = Inr (l[nat (n_id (h e)) := Some sq])"
    using Cons.prems p by (simp_all add: go_nth_def go_set_def)
  show ?case
    using Cons.IH [of l] Cons.IH [of "l[nat (n_id (h e)) := Some sq]"] Cons.prems p nth set
    by auto
qed simp

section \<open>One iteration\<close>

lemma loop_step:
  assumes "checkSingle_body mdl cp kill hde c = Inr (Inl c')" and "n_next (cs_store c hde) \<noteq> None"
  shows "checkSingle_loop mdl cp kill hde c = checkSingle_loop mdl cp kill hde c'"
  using assms by (simp add: checkSingle_loop.simps [of mdl cp kill hde c])

lemma later_return:
  assumes wf: "wf_history es" and r: "rest es B = us @ x # vs" and x: "is_call (es ! x)"
  shows "ret_of es x \<in> set vs" and "vs \<noteq> []"
proof -
  have xr: "x < length es" "e_id (es ! x) \<notin> B" using r in_rest [of x es B] by simp_all
  note ro = ret_of [OF wf xr(1) x]
  have "ret_of es x \<in> set (us @ x # vs)"
    using ro(2,4) xr(2) in_rest [of "ret_of es x" es B] r by simp
  moreover have "sorted (us @ x # vs)" using sorted_rest [of es B] r by simp
  ultimately show "ret_of es x \<in> set vs" using ro(1) by (auto simp: sorted_append)
  then show "vs \<noteq> []" by auto
qed

lemma cacheContains_dead:
  assumes wf: "wf_history es" and mok: "model_ok mdl es" and cache: "cache_ok mdl es B C"
    and B: "B \<subseteq> ids es" "k \<in> ids es" "k \<notin> B"
    and ent: "bits_of (ce_linearized ent) = nat ` insert k B" "cacheContains mdl C ent"
  shows "\<not> completable mdl es (insert k B) (ce_state ent)"
proof -
  obtain elem where el: "elem \<in> set (C (bitset_hash (ce_linearized ent)))"
    "ce_linearized elem = ce_linearized ent" "ce_state elem = ce_state ent"
    using ent(2) mok unfolding cacheContains_def list_ex_iff bitset_equals_iff model_ok_def
    by metis
  have sub: "insert k B \<subseteq> ids es" using B by auto
  have "\<not> path_entry es B elem"
    using nat_image_inject [OF wf _ sub] B ent(1) el(2) unfolding path_entry_def
    by (metis dual_order.trans insert_subset)
  then have "dead_entry mdl es elem" using cache el(1) by (auto simp: cache_ok_def)
  then show ?thesis
    using nat_image_inject [OF wf _ sub] ent(1) el(2,3) unfolding dead_entry_def by metis
qed

text \<open>What an iteration at a call does: go on to the next entry, when the operation does not
  lead to a solution from here, or linearize the operation.\<close>

definition pushed ::
  "('s, 'v) lmodel \<Rightarrow> 'v hentry list \<Rightarrow> int set \<Rightarrow> nat \<Rightarrow> 's \<Rightarrow> ('s, 'v) search \<Rightarrow> ('s, 'v) search \<Rightarrow> bool"
where
  "pushed mdl es B x s' c c1 \<longleftrightarrow>
     search_ok mdl es (insert (e_id (es ! x)) B) c1 \<and> cs_state c1 = s' \<and>
     cs_calls c1 = cs_calls c @ [(x, cs_state c)] \<and> unlift x (cs_store c1) = Inr (cs_store c) \<and>
     bitset_clear (cs_linearized c1) (nat (e_id (es ! x))) = Inr (cs_linearized c) \<and>
     cs_entry c1 = n_next (cs_store c1 (length es)) \<and>
     (\<forall>k. \<forall>ent \<in> set (cs_cache c1 k). ent \<in> set (cs_cache c k) \<or>
        bits_of (ce_linearized ent) = nat ` insert (e_id (es ! x)) B \<and> ce_state ent = s')"

lemma call_push:
  assumes wf: "wf_history es" and ok: "search_ok mdl es B c"
    and x: "x \<in> set (rest es B)" "is_call (es ! x)"
    and step: "op_step mdl es (cs_state c) x = Inr (True, s')"
  obtains newLin where "bits_of newLin = nat ` insert (e_id (es ! x)) B"
    and "bitset_set (cs_linearized c) (go_uint (e_id (es ! x))) = Inr newLin"
    and "\<not> cacheContains mdl (cs_cache c) \<lparr>ce_linearized = newLin, ce_state = s'\<rparr> \<Longrightarrow>
      \<exists>c1. checkSingle_call mdl (length es) x (ret_of es x) c = Inr c1 \<and> pushed mdl es B x s' c c1"
proof -
  let ?k = "e_id (es ! x)"
  have xl: "x < length es" "?k \<notin> B" using x(1) by (simp_all add: in_rest)
  have k: "?k \<in> ids es" using xl(1) by (rule id_in_ids)
  have B: "B \<subseteq> ids es" and g: "good_store es (cs_store c) B"
    and bits: "bits_of (cs_linearized c) = nat ` B"
    and cap: "length es div 2 \<le> 64 * length (cs_linearized c)" and len: "length es < 2 ^ 64"
    and cache: "cache_ok mdl es B (cs_cache c)"
    using ok by (simp_all add: search_ok_def)
  have u: "go_uint ?k = nat ?k" using go_uint_id [OF wf len k] .
  have p: "nat ?k < 64 * length (cs_linearized c)"
    using ids_range [OF wf k] cap by linarith
  have fresh: "nat ?k \<notin> bits_of (cs_linearized c)"
    using nat_image_inject [OF wf, of "insert ?k B" B] B k xl(2) bits
    by (metis dual_order.refl image_insert insert_absorb insert_subset)
  obtain newLin where nl: "bitset_set (cs_linearized c) (nat ?k) = Inr newLin"
    "64 * length newLin = 64 * length (cs_linearized c)"
    "bits_of newLin = insert (nat ?k) (bits_of (cs_linearized c))"
    using bs.mark_in [OF p] by blast
  have clr: "bitset_clear newLin (nat ?k) = Inr (cs_linearized c)"
    using bs.unmark_mark [OF p fresh] nl(1) by auto
  obtain h' where h': "lift x (cs_store c) = Inr h'" "unlift x h' = Inr (cs_store c)"
    "good_store es h' (insert ?k B)"
    using good_store_lift [OF wf g x] by blast
  have data: "n_value (cs_store c x) = e_value (es ! x)" "n_id (cs_store c x) = ?k"
    "n_value (cs_store c (ret_of es x)) = e_value (es ! ret_of es x)"
    using g xl(1) ret_of(2) [OF wf xl(1) x(2)] by (simp_all add: good_store_def)
  show thesis
  proof (rule that)
    show "bits_of newLin = nat ` insert ?k B" using nl(3) bits by simp
    show "bitset_set (cs_linearized c) (go_uint ?k) = Inr newLin" using nl(1) u by simp
    let ?ent = "\<lparr>ce_linearized = newLin, ce_state = s'\<rparr>"
    assume nc: "\<not> cacheContains mdl (cs_cache c) ?ent"
    let ?cache = "(cs_cache c)(bitset_hash newLin := cs_cache c (bitset_hash newLin) @ [?ent])"
    let ?c1 = "c\<lparr>cs_store := h', cs_entry := n_next (h' (length es)), cs_linearized := newLin,
                cs_cache := ?cache, cs_calls := cs_calls c @ [(x, cs_state c)], cs_state := s'\<rparr>"
    have "checkSingle_call mdl (length es) x (ret_of es x) c = Inr ?c1"
      using step nl(1) u nc h'(1) data by (simp add: checkSingle_call_def op_step_def Let_def)
    moreover have "path_entry es (insert ?k B) ?ent"
      using nl(3) bits by (auto simp: path_entry_def)
    then have "cache_ok mdl es (insert ?k B) ?cache"
      using cache path_entry_mono [of es B _ "insert ?k B"] unfolding cache_ok_def
      by (auto split: if_splits)
    then have "search_ok mdl es (insert ?k B) ?c1"
      using ok B k nl h'(3) bits xl(1) by (simp add: search_ok_def)
    then have "pushed mdl es B x s' c ?c1"
      using h'(2) clr nl(3) bits by (auto simp: pushed_def split: if_splits)
    ultimately show "\<exists>c1. checkSingle_call mdl (length es) x (ret_of es x) c = Inr c1 \<and>
        pushed mdl es B x s' c c1" by blast
  qed
qed

lemma search_head:
  "search_ok mdl es B c \<Longrightarrow> rest es B \<noteq> [] \<Longrightarrow> n_next (cs_store c (length es)) \<noteq> None"
  using good_store_head [of es "cs_store c" B] by (simp add: search_ok_def)

lemma search_ok_iter [simp]:
  "search_ok mdl es B (c\<lparr>cs_iter := i\<rparr>) = search_ok mdl es B c"
  "search_ok mdl es B (c\<lparr>cs_entry := p\<rparr>) = search_ok mdl es B c"
  by (simp_all add: search_ok_def)

text \<open>The outcome of an iteration at a call.\<close>

lemma call_iteration:
  fixes c :: "('s, 'v) search"
  assumes wf: "wf_history es" and mok: "model_ok mdl es" and ok: "search_ok mdl es B c"
    and ent: "cs_entry c = Some x" and r: "rest es B = us @ x # vs" and x: "is_call (es ! x)"
    and nk: "\<And>i. \<not> kill i"
  obtains (skip) "\<And>s'. op_step mdl es (cs_state c) x = Inr (True, s') \<Longrightarrow>
        \<not> completable mdl es (insert (e_id (es ! x)) B) s'"
      and "checkSingle_loop mdl cp kill (length es) c =
        checkSingle_loop mdl cp kill (length es)
          (c\<lparr>cs_iter := cs_iter c + 1, cs_entry := Some (hd vs)\<rparr>)"
  | (push) s' and c1 :: "('s, 'v) search"
      where "op_step mdl es (cs_state c) x = Inr (True, s')"
      and "pushed mdl es B x s' (c\<lparr>cs_iter := cs_iter c + 1\<rparr>) c1"
      and "checkSingle_loop mdl cp kill (length es) c = checkSingle_loop mdl cp kill (length es) c1"
proof -
  let ?k = "e_id (es ! x)" and ?c = "c\<lparr>cs_iter := cs_iter c + 1\<rparr>"
  have xr: "x \<in> set (rest es B)" using r by simp
  have xl: "x < length es" "?k \<notin> B" using xr by (simp_all add: in_rest)
  have g: "good_store es (cs_store c) B" and B: "B \<subseteq> ids es"
    and cache: "cache_ok mdl es B (cs_cache c)"
    using ok by (simp_all add: search_ok_def)
  have nxt: "n_next (cs_store c x) = Some (hd vs)"
    using good_store_next [OF g r] later_return [OF wf r x] by simp
  have hde: "n_next (cs_store c (length es)) \<noteq> None"
    using search_head [OF ok] r by simp
  have data: "n_value (cs_store c x) = e_value (es ! x)" "n_id (cs_store c x) = ?k"
    "n_value (cs_store c (ret_of es x)) = e_value (es ! ret_of es x)"
    "n_match (cs_store c x) = Some (ret_of es x)"
    using g xl(1) x ret_of(2) [OF wf xl(1) x] by (simp_all add: good_store_def)
  have body: "checkSingle_body mdl cp kill (length es) c =
      go_bind (checkSingle_call mdl (length es) x (ret_of es x) ?c) (\<lambda>c2. Inr (Inl c2))"
    using nk ent data(4) by (simp add: checkSingle_body_def)
  have skip_loop: "checkSingle_loop mdl cp kill (length es) c =
        checkSingle_loop mdl cp kill (length es) (?c\<lparr>cs_entry := Some (hd vs)\<rparr>)"
    if "checkSingle_call mdl (length es) x (ret_of es x) ?c = Inr (?c\<lparr>cs_entry := Some (hd vs)\<rparr>)"
    using that body by (intro loop_step [OF _ hde]) simp
  obtain b s' where st: "op_step mdl es (cs_state c) x = Inr (b, s')"
    using mok xl(1) x unfolding model_ok_def by (metis surj_pair)
  show thesis
  proof (cases b)
    case False
    then have "checkSingle_call mdl (length es) x (ret_of es x) ?c = Inr (?c\<lparr>cs_entry := Some (hd vs)\<rparr>)"
      using st data nxt by (simp add: checkSingle_call_def op_step_def)
    then show thesis using False st by (intro skip skip_loop) auto
  next
    case True
    have ok': "search_ok mdl es B ?c" and st': "op_step mdl es (cs_state ?c) x = Inr (True, s')"
      using ok st True by simp_all
    obtain newLin where nl: "bits_of newLin = nat ` insert ?k B"
      "bitset_set (cs_linearized ?c) (go_uint ?k) = Inr newLin"
      "\<not> cacheContains mdl (cs_cache ?c) \<lparr>ce_linearized = newLin, ce_state = s'\<rparr> \<Longrightarrow>
      \<exists>c1. checkSingle_call mdl (length es) x (ret_of es x) ?c = Inr c1 \<and> pushed mdl es B x s' ?c c1"
      using call_push [OF wf ok' xr x st'] by blast
    show thesis
    proof (cases "cacheContains mdl (cs_cache c) \<lparr>ce_linearized = newLin, ce_state = s'\<rparr>")
      case inC: True
      then have "checkSingle_call mdl (length es) x (ret_of es x) ?c = Inr (?c\<lparr>cs_entry := Some (hd vs)\<rparr>)"
        using st True data nxt nl(2) by (simp add: checkSingle_call_def op_step_def)
      moreover have "\<not> completable mdl es (insert ?k B) s'"
        using cacheContains_dead [OF wf mok cache B id_in_ids [OF xl(1)] xl(2) _ inC] nl(1) by simp
      ultimately show thesis using st by (intro skip skip_loop) auto
    next
      case False
      then obtain c1 where c1: "checkSingle_call mdl (length es) x (ret_of es x) ?c = Inr c1"
        "pushed mdl es B x s' ?c c1" using nl(3) by auto
      then have "checkSingle_loop mdl cp kill (length es) c = checkSingle_loop mdl cp kill (length es) c1"
        using body by (intro loop_step [OF _ hde]) simp
      then show thesis using c1(2) st True by (intro push) auto
    qed
  qed
qed

text \<open>Backtracking from a state with the same stack gives back everything but the cache and
  the record of partial results.\<close>

lemma pop_iteration:
  assumes wf: "wf_history es" and ok: "search_ok mdl es B c" and r: "rest es B = us @ x # vs"
    and x: "is_call (es ! x)" and nk: "\<And>i. \<not> kill i"
    and push: "pushed mdl es B x s' c c1"
    and same: "search_ok mdl es (insert (e_id (es ! x)) B) c2" "cs_store c2 = cs_store c1"
      "cs_linearized c2 = cs_linearized c1" "cs_calls c2 = cs_calls c1"
    and ret: "cs_entry c2 = Some y" "y < length es" "\<not> is_call (es ! y)"
    and ne: "rest es (insert (e_id (es ! x)) B) \<noteq> []"
  obtains c3 where "checkSingle_loop mdl cp kill (length es) c2 = checkSingle_loop mdl cp kill (length es) c3"
    and "cs_store c3 = cs_store c" and "cs_linearized c3 = cs_linearized c"
    and "cs_calls c3 = cs_calls c" and "cs_state c3 = cs_state c" and "cs_entry c3 = Some (hd vs)"
    and "cs_cache c3 = cs_cache c2" and "length (cs_longest c3) = length es div 2"
proof -
  let ?k = "e_id (es ! x)" and ?h = "cs_store c2"
  have xl: "x < length es" using r in_rest [of x es B] by simp
  have g: "good_store es (cs_store c) B" and g2: "good_store es ?h (insert ?k B)"
    using ok same(1) by (simp_all add: search_ok_def)
  have nxt: "n_next (cs_store c x) = Some (hd vs)"
    using good_store_next [OF g r] later_return [OF wf r x] by simp
  have data: "n_match (?h y) = None" "n_id (?h x) = ?k"
    using g2 ret xl by (simp_all add: good_store_def)
  have u: "go_uint ?k = nat ?k"
    using same(1) by (intro go_uint_id [OF wf]) (auto simp: search_ok_def)
  have calls: "cs_calls c2 = cs_calls c @ [(x, cs_state c)]"
    and un: "unlift x ?h = Inr (cs_store c)"
    and clr: "bitset_clear (cs_linearized c2) (nat ?k) = Inr (cs_linearized c)"
    using push same(2-4) by (simp_all add: pushed_def)
  have "\<forall>p \<in> set (cs_calls c2). 0 \<le> n_id (?h (fst p)) \<and> n_id (?h (fst p)) < int (length (cs_longest c2))"
    using same(1) ids_range [OF wf id_in_ids] by (auto simp: search_ok_def good_store_def)
  then obtain lg where lg: "(if cp
        then note_longest ?h (cs_iter c2 + 1, calls_seq ?h (cs_calls c2)) (cs_calls c2) (cs_longest c2)
        else Inr (cs_longest c2)) = Inr lg" "length lg = length (cs_longest c2)"
    using note_longest_ok [of "cs_calls c2" ?h "cs_longest c2"
        "(cs_iter c2 + 1, calls_seq ?h (cs_calls c2))"] by (cases cp) auto
  let ?c3 = "c2\<lparr>cs_iter := cs_iter c2 + 1, cs_store := cs_store c, cs_entry := Some (hd vs),
      cs_linearized := cs_linearized c, cs_calls := cs_calls c, cs_longest := lg,
      cs_state := cs_state c\<rparr>"
  have "checkSingle_body mdl cp kill (length es) c2 = Inr (Inl ?c3)"
    using nk ret(1) data u calls un clr lg(1) nxt
    by (cases cp) (simp_all add: checkSingle_body_def checkSingle_return_def Let_def)
  then have "checkSingle_loop mdl cp kill (length es) c2 = checkSingle_loop mdl cp kill (length es) ?c3"
    using search_head [OF same(1) ne] by (rule loop_step)
  then show thesis
    using same(1) lg(2) by (intro that [of ?c3]) (auto simp: search_ok_def)
qed

section \<open>The whole search\<close>

text \<open>The search from a state, seen from the entry it stands at: it succeeds if one of the
  remaining candidates leads to a completion; otherwise it comes back to the first return
  entry with everything but the cache and the partial results as it was.\<close>

definition solves :: "('s, 'v) lmodel \<Rightarrow> 'v hentry list \<Rightarrow> int set \<Rightarrow> 's \<Rightarrow> nat list \<Rightarrow> bool" where
  "solves mdl es B s as \<longleftrightarrow>
     (\<exists>a \<in> set (call_prefix es as). \<exists>s'. op_step mdl es s a = Inr (True, s') \<and>
        completable mdl es (insert (e_id (es ! a)) B) s')"

definition comes_back ::
  "('s, 'v) lmodel \<Rightarrow> 'v hentry list \<Rightarrow> int set \<Rightarrow> ('s, 'v) search \<Rightarrow> ('s, 'v) search \<Rightarrow> bool" where
  "comes_back mdl es B c c' \<longleftrightarrow>
     search_ok mdl es B c' \<and> cs_store c' = cs_store c \<and> cs_linearized c' = cs_linearized c \<and>
     cs_calls c' = cs_calls c \<and> cs_state c' = cs_state c \<and>
     cache_grows mdl es (cs_cache c) (cs_cache c') \<and>
     (\<exists>y. cs_entry c' = Some y \<and> y < length es \<and> \<not> is_call (es ! y))"

definition explored ::
  "('s, 'v) lmodel \<Rightarrow> bool \<Rightarrow> (nat \<Rightarrow> bool) \<Rightarrow> 'v hentry list \<Rightarrow> int set \<Rightarrow> nat list \<Rightarrow>
   ('s, 'v) search \<Rightarrow> bool" where
  "explored mdl cp kill es B as c \<longleftrightarrow>
     (if solves mdl es B (cs_state c) as
      then \<exists>l. checkSingle_loop mdl cp kill (length es) c = Some (Inr (True, l))
      else \<exists>c'. checkSingle_loop mdl cp kill (length es) c =
                checkSingle_loop mdl cp kill (length es) c' \<and> comes_back mdl es B c c')"

lemma completable_solves:
  assumes "rest es B \<noteq> []"
  shows "completable mdl es B s \<longleftrightarrow> solves mdl es B s (rest es B)"
proof
  assume "completable mdl es B s"
  then show "solves mdl es B s (rest es B)"
    by (cases rule: completable.cases) (use assms in \<open>auto simp: solves_def\<close>)
qed (auto simp: solves_def intro: completable.pick)

lemma solves_Cons:
  "solves mdl es B s (x # vs) \<longleftrightarrow> is_call (es ! x) \<and>
     ((\<exists>s'. op_step mdl es s x = Inr (True, s') \<and> completable mdl es (insert (e_id (es ! x)) B) s') \<or>
      solves mdl es B s vs)"
  by (cases "is_call (es ! x)") (simp_all add: solves_def)

lemma explored_skip:
  assumes "explored mdl cp kill es B vs c'" and "is_call (es ! x)"
    and "\<And>s'. op_step mdl es (cs_state c) x = Inr (True, s') \<Longrightarrow>
        \<not> completable mdl es (insert (e_id (es ! x)) B) s'"
    and "checkSingle_loop mdl cp kill (length es) c = checkSingle_loop mdl cp kill (length es) c'"
    and "cs_store c' = cs_store c" "cs_linearized c' = cs_linearized c"
      "cs_calls c' = cs_calls c" "cs_state c' = cs_state c"
      "cache_grows mdl es (cs_cache c) (cs_cache c')"
  shows "explored mdl cp kill es B (x # vs) c"
proof -
  have "solves mdl es B (cs_state c) (x # vs) \<longleftrightarrow> solves mdl es B (cs_state c') vs"
    using assms(2,3,8) by (auto simp: solves_Cons)
  moreover have "comes_back mdl es B c c''" if "comes_back mdl es B c' c''" for c''
    using that assms(5-9) cache_grows_trans unfolding comes_back_def by metis
  ultimately show ?thesis
    using assms(1,4) unfolding explored_def by (auto split: if_splits)
qed

lemma pushed_success:
  assumes "pushed mdl es B x s' c c1" and "rest es (insert (e_id (es ! x)) B) = []"
  shows "\<exists>l. checkSingle_loop mdl cp kill (length es) c1 = Some (Inr (True, l))"
proof -
  have "good_store es (cs_store c1) (insert (e_id (es ! x)) B)"
    using assms(1) by (simp add: pushed_def search_ok_def)
  then have "n_next (cs_store c1 (length es)) = None"
    using good_store_head assms(2) by fastforce
  then show ?thesis by (simp add: checkSingle_loop.simps)
qed

lemma explore_push:
  assumes wf: "wf_history es" and nk: "\<And>i. \<not> kill i" and ok: "search_ok mdl es B c"
    and r: "rest es B = us @ x # vs" and call: "is_call (es ! x)"
    and st: "op_step mdl es (cs_state c) x = Inr (True, s')" and push: "pushed mdl es B x s' c c1"
    and deep: "\<And>x' vs'. rest es (insert (e_id (es ! x)) B) = x' # vs' \<Longrightarrow> cs_entry c1 = Some x' \<Longrightarrow>
      explored mdl cp kill es (insert (e_id (es ! x)) B) (x' # vs') c1"
    and further: "\<And>c'. search_ok mdl es B c' \<Longrightarrow> cs_entry c' = Some (hd vs) \<Longrightarrow>
      explored mdl cp kill es B vs c'"
    and loop: "checkSingle_loop mdl cp kill (length es) c0 = checkSingle_loop mdl cp kill (length es) c1"
    and same: "cs_store c0 = cs_store c" "cs_linearized c0 = cs_linearized c"
      "cs_calls c0 = cs_calls c" "cs_state c0 = cs_state c" "cs_cache c0 = cs_cache c"
  shows "explored mdl cp kill es B (x # vs) c0"
proof -
  let ?B = "insert (e_id (es ! x)) B"
  have ok1: "search_ok mdl es ?B c1" "cs_state c1 = s'"
    "cs_entry c1 = n_next (cs_store c1 (length es))"
    using push by (simp_all add: pushed_def)
  have deep': "explored mdl cp kill es ?B (rest es ?B) c1" if "rest es ?B \<noteq> []"
    using deep [of "hd (rest es ?B)" "tl (rest es ?B)"] that ok1(1,3)
      good_store_head [of es "cs_store c1" ?B] by (simp add: search_ok_def)
  show ?thesis
  proof (cases "completable mdl es ?B s'")
    case True
    have "\<exists>l. checkSingle_loop mdl cp kill (length es) c1 = Some (Inr (True, l))"
    proof (cases "rest es ?B = []")
      case False
      then show ?thesis
        using True completable_solves [of es ?B mdl s'] deep' ok1(2) by (simp add: explored_def)
    qed (rule pushed_success [OF push])
    then show ?thesis
      using True st call loop same(4) by (auto simp: explored_def solves_Cons)
  next
    case False
    then have ne: "rest es ?B \<noteq> []" by (auto intro: completable.complete)
    then obtain c2 where c2: "checkSingle_loop mdl cp kill (length es) c1 =
        checkSingle_loop mdl cp kill (length es) c2" "comes_back mdl es ?B c1 c2"
      using False deep' completable_solves [of es ?B mdl s'] ok1(2) by (auto simp: explored_def)
    then obtain y where y: "search_ok mdl es ?B c2" "cs_store c2 = cs_store c1"
      "cs_linearized c2 = cs_linearized c1" "cs_calls c2 = cs_calls c1"
      "cs_entry c2 = Some y" "y < length es" "\<not> is_call (es ! y)"
      "cache_grows mdl es (cs_cache c1) (cs_cache c2)"
      by (auto simp: comes_back_def)
    obtain c3 where c3: "checkSingle_loop mdl cp kill (length es) c2 =
        checkSingle_loop mdl cp kill (length es) c3"
      "cs_store c3 = cs_store c" "cs_linearized c3 = cs_linearized c"
      "cs_calls c3 = cs_calls c" "cs_state c3 = cs_state c" "cs_entry c3 = Some (hd vs)"
      "cs_cache c3 = cs_cache c2" "length (cs_longest c3) = length es div 2"
      by (rule pop_iteration [OF wf ok r call nk push y(1-7) ne, where cp = cp]) (rule that)
    have "dead_entry mdl es ent"
      if "ent \<in> set (cs_cache c1 k)" "ent \<notin> set (cs_cache c k)" for ent k
    proof -
      have "bits_of (ce_linearized ent) = nat ` ?B" "ce_state ent = s'"
        using that push unfolding pushed_def by blast+
      moreover have "?B \<subseteq> ids es" using ok1(1) by (simp add: search_ok_def)
      ultimately show ?thesis using False unfolding dead_entry_def by blast
    qed
    then have "cache_grows mdl es (cs_cache c) (cs_cache c1)"
      unfolding cache_grows_def by blast
    then have grow: "cache_grows mdl es (cs_cache c) (cs_cache c3)"
      unfolding c3(7) using y(8) by (rule cache_grows_trans)
    have "search_ok mdl es B c3"
      using ok c3 cache_ok_grows [OF _ grow] by (simp add: search_ok_def)
    then have "explored mdl cp kill es B vs c3" using further c3(6) by blast
    then show ?thesis
      by (rule explored_skip [OF _ call])
        (use st False loop c2(1) c3 same grow in auto)
  qed
qed

lemma explore_from:
  assumes wf: "wf_history es" and mok: "model_ok mdl es" and nk: "\<And>i. \<not> kill i"
    and deeper: "\<And>B' c' x' vs'. length (rest es B') < length (rest es B) \<Longrightarrow>
      search_ok mdl es B' c' \<Longrightarrow> cs_entry c' = Some x' \<Longrightarrow> rest es B' = x' # vs' \<Longrightarrow>
      explored mdl cp kill es B' (x' # vs') c'"
    and "search_ok mdl es B c" and "cs_entry c = Some x" and "rest es B = us @ x # vs"
  shows "explored mdl cp kill es B (x # vs) c"
  using assms(5-)
proof (induction vs arbitrary: c x us)
  case Nil
  have xl: "x < length es" using in_rest [of x es B] Nil(3) by simp
  have nc: "\<not> is_call (es ! x)" using later_return(2) [OF wf Nil(3)] by auto
  then have "\<not> solves mdl es B (cs_state c) [x]" by (simp add: solves_def)
  moreover have "comes_back mdl es B c c" using Nil xl nc by (simp add: comes_back_def)
  ultimately show ?case unfolding explored_def by auto
next
  case (Cons v vs)
  have xl: "x < length es" using in_rest [of x es B] Cons(4) by simp
  have r': "rest es B = (us @ [x]) @ v # vs" using Cons(4) by simp
  show ?case
  proof (cases "is_call (es ! x)")
    case False
    then have "\<not> solves mdl es B (cs_state c) (x # v # vs)" by (simp add: solves_def)
    moreover have "comes_back mdl es B c c" using Cons(2,3) xl False by (simp add: comes_back_def)
    ultimately show ?thesis unfolding explored_def by auto
  next
    case call: True
    let ?B = "insert (e_id (es ! x)) B"
    have less: "length (rest es ?B) < length (rest es B)"
      unfolding rest_insert by (rule length_filter_less [where x = x]) (use Cons(4) in simp_all)
    show ?thesis
    proof (rule call_iteration [OF wf mok Cons(2-4) call nk])
      let ?c' = "c\<lparr>cs_iter := cs_iter c + 1, cs_entry := Some (hd (v # vs))\<rparr>"
      have "explored mdl cp kill es B (v # vs) ?c'"
        by (rule Cons.IH [OF _ _ r']) (use Cons(2) in auto)
      moreover assume "\<And>s'. op_step mdl es (cs_state c) x = Inr (True, s') \<Longrightarrow> \<not> completable mdl es ?B s'"
        and "checkSingle_loop mdl cp kill (length es) c =
          checkSingle_loop mdl cp kill (length es)
            (c\<lparr>cs_iter := cs_iter c + 1, cs_entry := Some (hd (v # vs))\<rparr>)"
      ultimately show ?thesis
        by - (rule explored_skip [where c' = ?c'], use call in auto)
    next
      fix s' c1
      assume "op_step mdl es (cs_state c) x = Inr (True, s')"
        and push: "pushed mdl es B x s' (c\<lparr>cs_iter := cs_iter c + 1\<rparr>) c1"
        and "checkSingle_loop mdl cp kill (length es) c = checkSingle_loop mdl cp kill (length es) c1"
      then show ?thesis
        by (intro explore_push [OF wf nk _ Cons(4) call _ push])
          (use Cons(2) Cons.IH [OF _ _ r'] deeper [OF less] push in \<open>auto simp: pushed_def\<close>)
    qed
  qed
qed

lemma explore:
  assumes "wf_history es" and "model_ok mdl es" and "\<And>i. \<not> kill i"
    and "search_ok mdl es B c" and "cs_entry c = Some x" and "rest es B = x # vs"
  shows "explored mdl cp kill es B (x # vs) c"
  using assms(4-)
proof (induction "length (rest es B)" arbitrary: B c x vs rule: less_induct)
  case less
  show ?case
    by (rule explore_from [OF assms(1-3) _ less(2,3), where us = "[]"]) (use less in auto)
qed

section \<open>From the initial state\<close>

lemma insert_head:
  assumes "dll h [0..<n]" and "n_prev (h 0) = None" and "0 < n" and "n_next (h n) = None"
  shows "dll (insertBefore n (Some 0) h) (n # [0..<n])"
proof -
  have h: "insertBefore n (Some 0) h = set_next n (Some 0) (set_prev 0 (Some n) h)" (is "_ = ?h")
    using assms(2) by (simp add: insertBefore_def)
  have u: "[0..<n] = 0 # [1..<n]" using assms(3) by (simp add: upt_conv_Cons)
  have "adj ?h [0..<n] \<longleftrightarrow> adj h [0..<n]"
  proof (rule adj_cong)
    fix y assume "y \<in> set (butlast [0..<n])"
    then have "y < n" by (auto dest!: in_set_butlastD)
    then show "n_next (?h y) = n_next (h y)" by simp
  qed (auto simp: u)
  then have "adj ?h (n # [0..<n])" using assms(1,3) by (auto simp: dll_def u)
  moreover have "n_next (?h (last (n # [0..<n]))) = None"
    using assms(1,3) by (auto simp: dll_def)
  ultimately show ?thesis unfolding h by (simp add: dll_def)
qed

lemma rest_empty [simp]: "rest es {} = [0..<length es]"
  by (simp add: rest_def)

lemma checkSingle_completable:
  assumes wf: "wf_history es" and mok: "model_ok mdl es" and nk: "\<And>i. \<not> kill i"
    and len: "length es < 2 ^ 64"
  shows "\<exists>l. checkSingle mdl nilv es cp kill =
    Some (Inr (completable mdl es {} (lm_Init mdl), l))"
proof (cases "es = []")
  case True
  then have "completable mdl es {} (lm_Init mdl)" by (intro completable.complete) simp
  with True show ?thesis
    by (simp add: checkSingle_def makeLinkedEntries_def list_length.simps checkSingle_loop.simps
        insertBefore_def)
next
  case False
  let ?nd = "\<lparr>n_value = nilv, n_match = None, n_id = -1, n_next = None, n_prev = None\<rparr>"
  let ?n = "length es"
  obtain h where h: "makeLinkedEntries es (\<lambda>_. ?nd) = (h, Some 0)" "dll h [0..<?n]"
    "n_prev (h 0) = None"
    "\<And>a. a < ?n \<Longrightarrow> n_value (h a) = e_value (es ! a) \<and> n_id (h a) = e_id (es ! a)"
    "\<And>a. a < ?n \<Longrightarrow> \<not> is_call (es ! a) \<Longrightarrow> n_match (h a) = None"
    "\<And>a b. a < b \<Longrightarrow> b < ?n \<Longrightarrow> is_call (es ! a) \<Longrightarrow> \<not> is_call (es ! b) \<Longrightarrow>
      e_id (es ! a) = e_id (es ! b) \<Longrightarrow> n_match (h a) = Some b"
    using makeLinkedEntries_linked [OF wf False, of "\<lambda>_. ?nd"] by blast
  let ?h = "insertBefore ?n (Some 0) (h(?n := ?nd))"
  have n0: "0 < ?n" using False by simp
  have "list_length h (Some 0) 0 = Some ?n"
    using list_length_dll [OF h(2), of 0] n0 by (simp add: hd_upt)
  moreover define c0 where "c0 = \<lparr>cs_store = ?h, cs_entry = Some 0,
      cs_linearized = newBitset (?n div 2), cs_cache = (\<lambda>_. []), cs_calls = [],
      cs_longest = replicate (?n div 2) None, cs_state = lm_Init mdl, cs_iter = 0\<rparr>"
  ultimately have run: "checkSingle mdl nilv es cp kill = checkSingle_loop mdl cp kill ?n c0"
    by (simp add: checkSingle_def h(1) Let_def)
  have "dll (h(?n := ?nd)) [0..<?n]" using h(2) by (subst dll_cong [where h = h]) auto
  then have "dll ?h (?n # [0..<?n])" using h(3) n0 by (intro insert_head) auto
  moreover have "n_match (h a) = (if is_call (es ! a) then Some (ret_of es a) else None)"
    if "a < ?n" for a
    using ret_of [OF wf that] h(5,6) that by auto
  ultimately have "good_store es ?h {}" using h(4) by (simp add: good_store_def)
  then have ok: "search_ok mdl es {} c0"
    using bs.marks_new bs.cap_new [of "?n div 2"] len
    by (simp add: search_ok_def c0_def cache_ok_def)
  have r: "rest es {} = 0 # [1..<?n]" using n0 by (simp add: upt_conv_Cons)
  have ex: "explored mdl cp kill es {} (rest es {}) c0"
    unfolding r by (rule explore [OF wf mok nk ok _ r]) (simp add: c0_def)
  have sol: "completable mdl es {} (lm_Init mdl) = solves mdl es {} (cs_state c0) (rest es {})"
    using completable_solves [of es "{}" mdl] n0 by (simp add: c0_def)
  show ?thesis
  proof (cases "completable mdl es {} (lm_Init mdl)")
    case True
    then show ?thesis using ex sol run by (simp add: explored_def)
  next
    case no: False
    then obtain c' y where c': "checkSingle_loop mdl cp kill ?n c0 = checkSingle_loop mdl cp kill ?n c'"
      "search_ok mdl es {} c'" "cs_calls c' = []" "cs_entry c' = Some y" "y < ?n" "\<not> is_call (es ! y)"
      using ex sol by (auto simp: explored_def comes_back_def c0_def)
    have "n_match (cs_store c' y) = None"
      using c'(2,5,6) by (simp add: search_ok_def good_store_def)
    then have "checkSingle_body mdl cp kill ?n c' = Inr (Inr (False, cs_longest c'))"
      using c'(3,4) nk by (simp add: checkSingle_body_def checkSingle_return_def)
    then show ?thesis
      using c'(1) run no search_head [OF c'(2)] n0
      by (simp add: checkSingle_loop.simps [of mdl cp kill ?n c'])
  qed
qed

section \<open>Orders of operations\<close>

text \<open>Operations are named by the position of their call. An order respects real time when no
  operation comes after one that was called only after it had returned, and it is legal when
  the model accepts the operations one after the other.\<close>

definition op_calls :: "'v hentry list \<Rightarrow> nat set" where
  "op_calls es = {a. a < length es \<and> is_call (es ! a)}"

definition real_time :: "'v hentry list \<Rightarrow> nat list \<Rightarrow> bool" where
  "real_time es ord \<longleftrightarrow> sorted_wrt (\<lambda>a b. \<not> ret_of es b < a) ord"

fun legal :: "('s, 'v) lmodel \<Rightarrow> 'v hentry list \<Rightarrow> 's \<Rightarrow> nat list \<Rightarrow> bool" where
  "legal mdl es s [] \<longleftrightarrow> True"
| "legal mdl es s (a # as) \<longleftrightarrow>
     (case op_step mdl es s a of Inr (True, s') \<Rightarrow> legal mdl es s' as | _ \<Rightarrow> False)"

definition linearizable :: "('s, 'v) lmodel \<Rightarrow> 'v hentry list \<Rightarrow> bool" where
  "linearizable mdl es \<longleftrightarrow>
     (\<exists>ord. distinct ord \<and> set ord = op_calls es \<and> real_time es ord \<and>
            legal mdl es (lm_Init mdl) ord)"

definition open_calls :: "'v hentry list \<Rightarrow> int set \<Rightarrow> nat set" where
  "open_calls es B = {a \<in> set (rest es B). is_call (es ! a)}"

lemma legal_Cons:
  "legal mdl es s (a # as) \<longleftrightarrow> (\<exists>s'. op_step mdl es s a = Inr (True, s') \<and> legal mdl es s' as)"
  by (auto split: sum.splits prod.splits bool.splits)

lemma open_calls_insert:
  assumes "wf_history es" and "a \<in> open_calls es B"
  shows "open_calls es (insert (e_id (es ! a)) B) = open_calls es B - {a}"
  using wf_history_unique [OF assms(1)] assms(2) by (auto simp: open_calls_def in_rest)

lemma prefix_call:
  assumes "wf_history es" and "a \<in> set (call_prefix es (rest es B))"
  shows "a \<in> open_calls es B" and "b \<in> open_calls es B \<Longrightarrow> \<not> ret_of es b < a"
proof -
  obtain us vs where uv: "call_prefix es (rest es B) = us @ a # vs"
    using split_list [OF assms(2)] by blast
  have a: "a \<in> set (rest es B)" "is_call (es ! a)"
    using assms(2) by (auto dest: set_takeWhileD)
  then show "a \<in> open_calls es B" by (simp add: open_calls_def)
  have calls: "is_call (es ! r)" if "r \<in> set (rest es B)" "r < a" for r
  proof -
    let ?w = "us @ a # vs" and ?d = "dropWhile (\<lambda>a. is_call (es ! a)) (rest es B)"
    have r: "rest es B = ?w @ ?d" using uv takeWhile_dropWhile_id by metis
    then have "sorted (?w @ ?d)" using sorted_rest [of es B] by simp
    then have "\<forall>x \<in> set ?d. a \<le> x" by (auto simp: sorted_append)
    then have "r \<notin> set ?d" using that(2) by fastforce
    moreover have "set (rest es B) = set (call_prefix es (rest es B)) \<union> set ?d"
      by (metis set_append takeWhile_dropWhile_id)
    ultimately have "r \<in> set (call_prefix es (rest es B))" using that(1) by blast
    then show ?thesis by (auto dest: set_takeWhileD)
  qed
  assume b: "b \<in> open_calls es B"
  then have bl: "b < length es" "is_call (es ! b)" "e_id (es ! b) \<notin> B"
    by (auto simp: open_calls_def in_rest)
  note ro = ret_of [OF assms(1) bl(1,2)]
  have "ret_of es b \<in> set (rest es B)" using ro bl(3) by (simp add: in_rest)
  then show "\<not> ret_of es b < a" using calls ro(3) by blast
qed

lemma prefix_callI:
  assumes wf: "wf_history es" and a: "a \<in> open_calls es B"
    and none: "\<And>b. b \<in> open_calls es B \<Longrightarrow> b \<noteq> a \<Longrightarrow> \<not> ret_of es b < a"
  shows "a \<in> set (call_prefix es (rest es B))"
proof -
  have ar: "a \<in> set (rest es B)" "is_call (es ! a)" using a by (auto simp: open_calls_def)
  obtain us vs where uv: "rest es B = us @ a # vs" using split_list [OF ar(1)] by blast
  have "is_call (es ! r)" if "r \<in> set us" for r
  proof (rule ccontr)
    assume nr: "\<not> is_call (es ! r)"
    have "sorted (us @ a # vs)" "distinct (us @ a # vs)"
      using sorted_rest [of es B] distinct_rest [of es B] uv by simp_all
    then have "r < a" using that by (auto simp: sorted_append order_less_le)
    have r: "r < length es" "e_id (es ! r) \<notin> B" using that uv in_rest [of r es B] by simp_all
    then obtain b where b: "b < r" "is_call (es ! b)" "e_id (es ! b) = e_id (es ! r)"
      using wf nr unfolding wf_history_def by blast
    then have bl: "b < length es" using r by simp
    then have "b \<in> open_calls es B" using b r by (simp add: open_calls_def in_rest)
    moreover have "ret_of es b = r"
      using ret_of(5) [OF wf bl b(2), of r] b r nr by auto
    ultimately show False using none [of b] \<open>r < a\<close> b(1) by auto
  qed
  then show ?thesis using ar(2) by (simp add: uv takeWhile_append2)
qed

lemma completable_iff_order:
  assumes wf: "wf_history es"
  shows "completable mdl es B s \<longleftrightarrow>
    (\<exists>ord. distinct ord \<and> set ord = open_calls es B \<and> real_time es ord \<and> legal mdl es s ord)"
proof
  assume "completable mdl es B s"
  then show "\<exists>ord. distinct ord \<and> set ord = open_calls es B \<and> real_time es ord \<and> legal mdl es s ord"
  proof (induction rule: completable.induct)
    case (complete B s)
    then show ?case by (intro exI [of _ "[]"]) (simp add: open_calls_def real_time_def)
  next
    case (pick a B s s')
    then obtain ord where ord: "distinct ord" "set ord = open_calls es B - {a}" "real_time es ord"
      "legal mdl es s' ord"
      using open_calls_insert [OF wf prefix_call(1) [OF wf pick(1)]] by auto
    moreover have "\<forall>b \<in> set ord. \<not> ret_of es b < a"
      using prefix_call(2) [OF wf pick(1)] ord(2) by auto
    ultimately have "distinct (a # ord)" "set (a # ord) = open_calls es B" "real_time es (a # ord)"
      "legal mdl es s (a # ord)"
      using pick(2) prefix_call(1) [OF wf pick(1)] legal_Cons [of mdl es s a ord]
      by (auto simp: real_time_def)
    then show ?case by blast
  qed
next
  assume "\<exists>ord. distinct ord \<and> set ord = open_calls es B \<and> real_time es ord \<and> legal mdl es s ord"
  then obtain ord where "distinct ord" "set ord = open_calls es B" "real_time es ord"
    "legal mdl es s ord" by blast
  then show "completable mdl es B s"
  proof (induction ord arbitrary: B s)
    case Nil
    have "rest es B = []"
    proof (rule ccontr)
      assume "rest es B \<noteq> []"
      then have "hd (rest es B) \<in> set (rest es B)" by (rule hd_in_set)
      then have r: "hd (rest es B) < length es" "e_id (es ! hd (rest es B)) \<notin> B"
        by (simp_all add: in_rest)
      show False
      proof (cases "is_call (es ! hd (rest es B))")
        case True
        then show False using r Nil(2) by (auto simp: open_calls_def in_rest)
      next
        case False
        then obtain b where "b < hd (rest es B)" "is_call (es ! b)"
          "e_id (es ! b) = e_id (es ! hd (rest es B))"
          using wf r unfolding wf_history_def by blast
        then have "b \<in> open_calls es B" using r by (simp add: open_calls_def in_rest)
        then show False using Nil(2) by simp
      qed
    qed
    then show ?case by (rule completable.complete)
  next
    case (Cons a ord)
    have a: "a \<in> open_calls es B" using Cons.prems(2) by auto
    obtain s' where s': "op_step mdl es s a = Inr (True, s')" "legal mdl es s' ord"
      using Cons.prems(4) legal_Cons by metis
    have "\<not> ret_of es b < a" if "b \<in> open_calls es B" "b \<noteq> a" for b
      using Cons.prems(2,3) that by (auto simp: real_time_def)
    then have "a \<in> set (call_prefix es (rest es B))" by (rule prefix_callI [OF wf a])
    moreover have "completable mdl es (insert (e_id (es ! a)) B) s'"
      using Cons.prems s'(2) open_calls_insert [OF wf a]
      by (intro Cons.IH) (auto simp: real_time_def)
    ultimately show ?case using s'(1) by (blast intro: completable.pick)
  qed
qed

section \<open>Properties\<close>

lemma checkSingle_linearizable:
  assumes "wf_history es" and "model_ok mdl es" and "\<And>i. \<not> kill i" and "length es < 2 ^ 64"
  shows "\<exists>l. checkSingle mdl nilv es cp kill = Some (Inr (linearizable mdl es, l))"
proof -
  have "open_calls es {} = op_calls es" by (auto simp: open_calls_def op_calls_def)
  then have "completable mdl es {} (lm_Init mdl) = linearizable mdl es"
    using completable_iff_order [OF assms(1), of mdl "{}" "lm_Init mdl"]
    by (simp add: linearizable_def)
  then show ?thesis using checkSingle_completable [OF assms(1-3,4), where cp = cp and nilv = nilv] by simp
qed

text \<open>
  C20. The search decides linearizability. On every complete history whose operations the
  model's step function accepts without panicking, with a state equality that only identifies
  equal states, and as long as nobody sets the kill flag, \<open>checkSingle\<close> returns (it neither
  panics nor runs forever), and it answers true exactly when the operations can be put into an
  order that respects real time and that the model accepts.
\<close>

theorem checkSingle_decides:
  assumes "wf_history es" and "model_ok mdl es" and "\<And>i. \<not> kill i" and "length es < 2 ^ 64"
  shows "\<exists>l. checkSingle mdl nilv es cp kill = Some (Inr (linearizable mdl es, l))"
  using checkSingle_linearizable [OF assms] .

text \<open>A register that is written by a call and read by a later one.\<close>

definition sample_model :: "(int, int option) lmodel" where
  "sample_model =
     \<lparr>lm_Init = 0,
      lm_Step = (\<lambda>s i out. case i of Some v \<Rightarrow> Inr (True, v) | None \<Rightarrow> Inr (out = Some s, s)),
      lm_Equal = (\<lambda>s t. s = t)\<rparr>"

definition sample_entry :: "bool \<Rightarrow> int option \<Rightarrow> int \<Rightarrow> int option hentry" where
  "sample_entry k v i = \<lparr>e_kind = k, e_value = v, e_id = i, e_time = 0, e_clientId = 0\<rparr>"

text \<open>Two overlapping operations: a write of 5 and a read that returns 0.\<close>

definition sample_history :: "int option hentry list" where
  "sample_history = [sample_entry False (Some 5) 0, sample_entry False None 1,
     sample_entry True None 0, sample_entry True (Some 0) 1]"

lemma sample_history_wf: "wf_history sample_history"
  by (simp add: wf_history_def sample_history_def sample_entry_def is_call_def callEntry_def
      All_less_Suc Ex_less_Suc eval_nat_numeral) code_simp

lemma sample_ret_of: "ret_of sample_history 0 = 2" "ret_of sample_history 1 = 3"
  by (simp_all add: ret_of_def sample_history_def sample_entry_def is_call_def callEntry_def
      upt_rec)

theorem checkSingle_decides_witness:
  "\<exists>l. checkSingle sample_model None sample_history True (\<lambda>_. False) = Some (Inr (True, l))"
proof -
  have "model_ok sample_model sample_history"
    by (auto simp: model_ok_def op_step_def sample_model_def split: option.split)
  moreover have "length sample_history < 2 ^ 64" by (simp add: sample_history_def)
  moreover have "linearizable sample_model sample_history"
    unfolding linearizable_def
  proof (intro exI conjI)
    show "set [1, 0] = op_calls sample_history"
      by (auto simp: op_calls_def sample_history_def sample_entry_def is_call_def callEntry_def
          less_Suc_eq numeral_2_eq_2)
    show "real_time sample_history [1, 0]"
      by (simp add: real_time_def sample_ret_of)
    show "legal sample_model sample_history (lm_Init sample_model) [1, 0]"
      unfolding legal_Cons op_step_def sample_ret_of
      by (simp add: sample_model_def sample_history_def sample_entry_def)
  qed simp
  ultimately show ?thesis
    using checkSingle_decides [OF sample_history_wf, of sample_model "\<lambda>_. False" None True] by simp
qed

end
