(* ===== verification/Porc_Check.thy ===== *)
theory Porc_Check
  imports Porc_Correct "HOL-Library.Multiset"
begin

text \<open>
  The checker's front end (\<open>src/porcupine/model.go\<close>, \<open>checker.go\<close>, \<open>porcupine.go\<close>): operations
  and events, their translation into entries, the model with its defaults, the parallel check
  of the partitions, and the exported functions.

  \<open>checkParallel\<close> starts one goroutine per partition and receives their results in any order.
  The order in which \<open>select\<close> sees them, and a timeout, are the argument \<open>arr\<close>: \<open>Some i\<close> is the
  result of goroutine \<open>i\<close>, \<open>None\<close> the timeout; the flag each goroutine sees is \<open>kills i\<close>. A
  receive that never comes blocks forever, which is the value \<open>None\<close>. \<open>sort.Sort\<close> and the
  formatting of values by \<open>fmt\<close> are parameters.
\<close>

section \<open>Operations, events and models\<close>

record 'v operation =
  op_ClientId :: int
  op_Input :: 'v
  op_Call :: int
  op_Output :: 'v
  op_Return :: int

text \<open>Event kinds: a call is \<open>False\<close>, a return is \<open>True\<close>.\<close>

definition CallEvent :: bool where "CallEvent = False"
definition ReturnEvent :: bool where "ReturnEvent = True"

record 'v event =
  ev_ClientId :: int
  ev_Kind :: bool
  ev_Value :: 'v
  ev_Id :: int

record ('s, 'v) Model =
  mo_Partition :: "('v operation list \<Rightarrow> 'v operation list list go) option"
  mo_PartitionEvent :: "('v event list \<Rightarrow> 'v event list list go) option"
  mo_Init :: 's
  mo_Step :: "'s \<Rightarrow> 'v \<Rightarrow> 'v \<Rightarrow> (bool \<times> 's) go"
  mo_Equal :: "('s \<Rightarrow> 's \<Rightarrow> bool) option"
  mo_DescribeOperation :: "('v \<Rightarrow> 'v \<Rightarrow> string go) option"
  mo_DescribeState :: "('s \<Rightarrow> string) option"

definition NoPartition :: "'v operation list \<Rightarrow> 'v operation list list go" where
  "NoPartition history = Inr [history]"

definition NoPartitionEvent :: "'v event list \<Rightarrow> 'v event list list go" where
  "NoPartitionEvent history = Inr [history]"

definition ShallowEqual :: "'s \<Rightarrow> 's \<Rightarrow> bool" where
  "ShallowEqual state1 state2 \<longleftrightarrow> state1 = state2"

definition DefaultDescribeOperation :: "('v \<Rightarrow> string) \<Rightarrow> 'v \<Rightarrow> 'v \<Rightarrow> string go" where
  "DefaultDescribeOperation sprint inp out = Inr (sprint inp @ '' -> '' @ sprint out)"

definition DefaultDescribeState :: "('s \<Rightarrow> string) \<Rightarrow> 's \<Rightarrow> string" where
  "DefaultDescribeState sprint st = sprint st"

datatype CheckResult = Unknown | Ok | Illegal

definition fillDefault :: "('v \<Rightarrow> string) \<Rightarrow> ('s \<Rightarrow> string) \<Rightarrow> ('s, 'v) Model \<Rightarrow> ('s, 'v) Model" where
  "fillDefault sprintv sprints model =
     (let m1 = (if mo_Partition model = None then model\<lparr>mo_Partition := Some NoPartition\<rparr> else model);
          m2 = (if mo_PartitionEvent m1 = None then m1\<lparr>mo_PartitionEvent := Some NoPartitionEvent\<rparr>
                else m1);
          m3 = (if mo_Equal m2 = None then m2\<lparr>mo_Equal := Some ShallowEqual\<rparr> else m2);
          m4 = (if mo_DescribeOperation m3 = None
                then m3\<lparr>mo_DescribeOperation := Some (DefaultDescribeOperation sprintv)\<rparr> else m3)
      in if mo_DescribeState m4 = None
         then m4\<lparr>mo_DescribeState := Some (DefaultDescribeState sprints)\<rparr> else m4)"

text \<open>Calling a function value that is \<open>nil\<close> panics.\<close>

fun go_fn :: "'f option \<Rightarrow> 'f go" where
  "go_fn None = Inl NilDereference"
| "go_fn (Some f) = Inr f"

section \<open>Entries\<close>

text \<open>The loop of \<open>makeEntries\<close> before the sort.\<close>

fun operation_entries :: "int \<Rightarrow> 'v operation list \<Rightarrow> 'v hentry list" where
  "operation_entries i [] = []"
| "operation_entries i (elem # ops) =
     \<lparr>e_kind = callEntry, e_value = op_Input elem, e_id = i, e_time = op_Call elem,
      e_clientId = op_ClientId elem\<rparr> #
     \<lparr>e_kind = returnEntry, e_value = op_Output elem, e_id = i, e_time = op_Return elem,
      e_clientId = op_ClientId elem\<rparr> # operation_entries (i + 1) ops"

definition makeEntries :: "('v hentry list \<Rightarrow> 'v hentry list) \<Rightarrow> 'v operation list \<Rightarrow> 'v hentry list" where
  "makeEntries sort_Sort history = sort_Sort (operation_entries 0 history)"

fun renumber_loop :: "(int \<Rightarrow> int option) \<Rightarrow> int \<Rightarrow> 'v event list \<Rightarrow> 'v event list" where
  "renumber_loop m i [] = []"
| "renumber_loop m i (v # vs) =
     (case m (ev_Id v) of
        Some r \<Rightarrow> \<lparr>ev_ClientId = ev_ClientId v, ev_Kind = ev_Kind v, ev_Value = ev_Value v, ev_Id = r\<rparr>
                 # renumber_loop m i vs
      | None \<Rightarrow> \<lparr>ev_ClientId = ev_ClientId v, ev_Kind = ev_Kind v, ev_Value = ev_Value v, ev_Id = i\<rparr>
                 # renumber_loop (m(ev_Id v \<mapsto> i)) (i + 1) vs)"

definition renumber :: "'v event list \<Rightarrow> 'v event list" where
  "renumber events = renumber_loop (\<lambda>_. None) 0 events"

fun convert_from :: "int \<Rightarrow> 'v event list \<Rightarrow> 'v hentry list" where
  "convert_from i [] = []"
| "convert_from i (elem # es) =
     (let kind = (if ev_Kind elem = ReturnEvent then returnEntry else callEntry)
      in \<lparr>e_kind = kind, e_value = ev_Value elem, e_id = ev_Id elem, e_time = i,
          e_clientId = ev_ClientId elem\<rparr> # convert_from (i + 1) es)"

definition convertEntries :: "'v event list \<Rightarrow> 'v hentry list" where
  "convertEntries events = convert_from 0 events"

section \<open>The parallel check\<close>

record 'v linearizationInfo =
  li_history :: "'v hentry list list"
  li_partialLinearizations :: "int list list list"

text \<open>The receive loop: the results seen so far, and the verdict \<open>(ok, timedOut, cnt)\<close> with
  the arrivals that are left when it breaks.\<close>

fun receive_loop ::
  "(nat \<Rightarrow> (bool \<times> longest) go option) \<Rightarrow> bool \<Rightarrow> nat \<Rightarrow> nat option list \<Rightarrow> bool \<Rightarrow> nat \<Rightarrow>
   (bool \<times> bool \<times> nat \<times> nat option list) go option" where
  "receive_loop res computeInfo n [] ok cnt = None"
| "receive_loop res computeInfo n (None # arr) ok cnt = Some (Inr (ok, True, cnt, arr))"
| "receive_loop res computeInfo n (Some i # arr) ok cnt =
     (case res i of
        None \<Rightarrow> None
      | Some (Inl er) \<Rightarrow> Some (Inl er)
      | Some (Inr (result, _)) \<Rightarrow>
          let cnt' = cnt + 1; ok' = (ok \<and> result)
          in if \<not> ok' \<and> \<not> computeInfo then Some (Inr (ok', False, cnt', arr))
             else if cnt' \<ge> n then Some (Inr (ok', False, cnt', arr))
             else receive_loop res computeInfo n arr ok' cnt')"

text \<open>Waiting for the goroutines that are still running.\<close>

fun drain ::
  "(nat \<Rightarrow> (bool \<times> longest) go option) \<Rightarrow> nat \<Rightarrow> nat option list \<Rightarrow> nat \<Rightarrow> unit go option" where
  "drain res n arr cnt =
     (if cnt \<ge> n then Some (Inr ())
      else case arr of
             [] \<Rightarrow> None
           | None # arr' \<Rightarrow> drain res n arr' cnt
           | Some i # arr' \<Rightarrow>
               (case res i of None \<Rightarrow> None | Some (Inl er) \<Rightarrow> Some (Inl er)
                | Some (Inr _) \<Rightarrow> drain res n arr' (cnt + 1)))"

text \<open>The distinct pointers of a \<open>longest\<close>, as sequences. The code collects them in a map whose
  order is not specified; here they come in the order of their first occurrence.\<close>

definition unique_partials :: "longest \<Rightarrow> int list list" where
  "unique_partials l = map snd (remdups (map the (filter (\<lambda>v. v \<noteq> None) l)))"

definition partials_of :: "(nat \<Rightarrow> (bool \<times> longest) go option) \<Rightarrow> nat \<Rightarrow> int list list list" where
  "partials_of res n =
     map (\<lambda>i. case res i of Some (Inr (_, l)) \<Rightarrow> unique_partials l | _ \<Rightarrow> []) [0..<n]"

definition checkParallel ::
  "('s, 'v) lmodel \<Rightarrow> 'v \<Rightarrow> 'v hentry list list \<Rightarrow> bool \<Rightarrow> (nat \<Rightarrow> nat \<Rightarrow> bool) \<Rightarrow> nat option list \<Rightarrow>
   (CheckResult \<times> 'v linearizationInfo) go option" where
  "checkParallel model nilv history computeInfo kills arr =
     (let n = length history;
          res = (\<lambda>i. checkSingle model nilv (history ! i) computeInfo (kills i))
      in case receive_loop res computeInfo n arr True 0 of
           None \<Rightarrow> None
         | Some (Inl er) \<Rightarrow> Some (Inl er)
         | Some (Inr (ok, timedOut, cnt, arr')) \<Rightarrow>
             (case (if computeInfo then drain res n arr' cnt else Some (Inr ())) of
                None \<Rightarrow> None
              | Some (Inl er) \<Rightarrow> Some (Inl er)
              | Some (Inr _) \<Rightarrow>
                  let info = (if computeInfo
                              then \<lparr>li_history = history, li_partialLinearizations = partials_of res n\<rparr>
                              else \<lparr>li_history = [], li_partialLinearizations = []\<rparr>);
                      result = (if \<not> ok then Illegal else if timedOut then Unknown else Ok)
                  in Some (Inr (result, info))))"

definition lmodel_of :: "('s, 'v) Model \<Rightarrow> ('s, 'v) lmodel" where
  "lmodel_of model = \<lparr>lm_Init = mo_Init model, lm_Step = mo_Step model, lm_Equal = the (mo_Equal model)\<rparr>"

text \<open>The values \<open>fmt\<close> would print, \<open>nil\<close>, the sort, the goroutines' flags and the arrivals are
  what the environment supplies.\<close>

record ('s, 'v) porc_env =
  pe_sprintv :: "'v \<Rightarrow> string"
  pe_sprints :: "'s \<Rightarrow> string"
  pe_nil :: 'v
  pe_sort :: "'v hentry list \<Rightarrow> 'v hentry list"
  pe_kills :: "nat \<Rightarrow> nat \<Rightarrow> bool"
  pe_arr :: "nat option list"

definition checkEvents ::
  "('s, 'v) porc_env \<Rightarrow> ('s, 'v) Model \<Rightarrow> 'v event list \<Rightarrow> bool \<Rightarrow>
   (CheckResult \<times> 'v linearizationInfo) go option" where
  "checkEvents env model history verbose =
     (let mdl = fillDefault (pe_sprintv env) (pe_sprints env) model
      in case go_bind (go_fn (mo_PartitionEvent mdl)) (\<lambda>f. f history) of
           Inl er \<Rightarrow> Some (Inl er)
         | Inr partitions \<Rightarrow>
             checkParallel (lmodel_of mdl) (pe_nil env) (map (\<lambda>sub. convertEntries (renumber sub)) partitions)
               verbose (pe_kills env) (pe_arr env))"

definition checkOperations ::
  "('s, 'v) porc_env \<Rightarrow> ('s, 'v) Model \<Rightarrow> 'v operation list \<Rightarrow> bool \<Rightarrow>
   (CheckResult \<times> 'v linearizationInfo) go option" where
  "checkOperations env model history verbose =
     (let mdl = fillDefault (pe_sprintv env) (pe_sprints env) model
      in case go_bind (go_fn (mo_Partition mdl)) (\<lambda>f. f history) of
           Inl er \<Rightarrow> Some (Inl er)
         | Inr partitions \<Rightarrow>
             checkParallel (lmodel_of mdl) (pe_nil env) (map (makeEntries (pe_sort env)) partitions)
               verbose (pe_kills env) (pe_arr env))"

text \<open>The exported functions; a timeout is an arrival, so the duration itself is not needed.\<close>

definition verdict :: "(CheckResult \<times> 'i) go option \<Rightarrow> CheckResult go option" where
  "verdict r = map_option (map_sum id fst) r"

definition CheckOperations :: "('s, 'v) porc_env \<Rightarrow> ('s, 'v) Model \<Rightarrow> 'v operation list \<Rightarrow> bool go option" where
  "CheckOperations env model history =
     map_option (map_sum id (\<lambda>res. res = Ok)) (verdict (checkOperations env model history False))"

definition CheckOperationsTimeout ::
  "('s, 'v) porc_env \<Rightarrow> ('s, 'v) Model \<Rightarrow> 'v operation list \<Rightarrow> CheckResult go option" where
  "CheckOperationsTimeout env model history = verdict (checkOperations env model history False)"

definition CheckOperationsVerbose ::
  "('s, 'v) porc_env \<Rightarrow> ('s, 'v) Model \<Rightarrow> 'v operation list \<Rightarrow>
   (CheckResult \<times> 'v linearizationInfo) go option" where
  "CheckOperationsVerbose env model history = checkOperations env model history True"

definition CheckEvents :: "('s, 'v) porc_env \<Rightarrow> ('s, 'v) Model \<Rightarrow> 'v event list \<Rightarrow> bool go option" where
  "CheckEvents env model history =
     map_option (map_sum id (\<lambda>res. res = Ok)) (verdict (checkEvents env model history False))"

definition CheckEventsTimeout ::
  "('s, 'v) porc_env \<Rightarrow> ('s, 'v) Model \<Rightarrow> 'v event list \<Rightarrow> CheckResult go option" where
  "CheckEventsTimeout env model history = verdict (checkEvents env model history False)"

definition CheckEventsVerbose ::
  "('s, 'v) porc_env \<Rightarrow> ('s, 'v) Model \<Rightarrow> 'v event list \<Rightarrow>
   (CheckResult \<times> 'v linearizationInfo) go option" where
  "CheckEventsVerbose env model history = checkEvents env model history True"

section \<open>Numbering\<close>

text \<open>What \<open>renumber\<close> knows of an id after some events: the number of ids seen before its first
  occurrence.\<close>

definition rank :: "int list \<Rightarrow> int \<Rightarrow> int" where
  "rank is i = int (card (set (takeWhile (\<lambda>j. j \<noteq> i) is)))"

lemma renumber_loop_frame:
  "length (renumber_loop m i vs) = length vs"
  "map ev_Kind (renumber_loop m i vs) = map ev_Kind vs"
  "map ev_Value (renumber_loop m i vs) = map ev_Value vs"
  "map ev_ClientId (renumber_loop m i vs) = map ev_ClientId vs"
  by (induction m i vs rule: renumber_loop.induct) (auto split: option.splits)

lemma rank_mem: "i \<in> set is \<Longrightarrow> rank (is @ js) i = rank is i"
  by (simp add: rank_def takeWhile_append1)

lemma rank_new: "i \<notin> set is \<Longrightarrow> rank (is @ [i]) i = int (card (set is))"
proof -
  assume "i \<notin> set is"
  then have "takeWhile (\<lambda>j. j \<noteq> i) is = is" by (intro takeWhile_eq_all_conv [THEN iffD2]) auto
  then show ?thesis by (simp add: rank_def takeWhile_append)
qed

lemma renumber_loop_rank:
  assumes "\<And>i. m i = (if i \<in> set is then Some (rank is i) else None)"
  shows "map ev_Id (renumber_loop m (int (card (set is))) vs) =
    map (rank (is @ map ev_Id vs)) (map ev_Id vs)"
  using assms
proof (induction vs arbitrary: m "is")
  case (Cons v vs)
  let ?i = "ev_Id v"
  show ?case
  proof (cases "?i \<in> set is")
    case True
    have eq: "rank (is @ ?i # map ev_Id vs) j = rank (is @ map ev_Id vs) j" for j
    proof (cases "j \<in> set is")
      case j: False
      then have "takeWhile (\<lambda>k. k \<noteq> j) is = is" by (intro takeWhile_eq_all_conv [THEN iffD2]) auto
      then show ?thesis using True j by (auto simp: rank_def takeWhile_append insert_absorb)
    qed (simp add: rank_mem)
    show ?thesis
      using True Cons.prems Cons.IH [OF Cons.prems] by (simp add: eq rank_mem)
  next
    case False
    have m': "(m(?i \<mapsto> int (card (set is)))) j =
        (if j \<in> set (is @ [?i]) then Some (rank (is @ [?i]) j) else None)" for j
      using Cons.prems False by (auto simp: rank_new rank_mem)
    have c: "int (card (set is)) + 1 = int (card (set (is @ [?i])))" using False by simp
    have "rank (is @ ?i # map ev_Id vs) ?i = int (card (set is))"
      using rank_new [OF False] rank_mem [of ?i "is @ [?i]" "map ev_Id vs"] by simp
    moreover have "m ?i = None" using False Cons.prems by simp
    moreover note Cons.IH [OF m']
    ultimately show ?thesis by (simp add: c del: set_append fun_upd_apply)
  qed
qed simp

lemma rank_inject:
  assumes "i \<in> set is" and "j \<in> set is" and "rank is i = rank is j"
  shows "i = j"
proof (rule ccontr)
  assume ne: "i \<noteq> j"
  obtain ys z zs where iz: "is = ys @ z # zs" "z = i \<or> z = j" "i \<notin> set ys" "j \<notin> set ys"
    using assms(1) split_list_first_prop [of "is" "\<lambda>z. z = i \<or> z = j"] by auto
  have tw: "takeWhile (\<lambda>k. k \<noteq> l) ys = ys" if "l \<notin> set ys" for l
    using that by (intro takeWhile_eq_all_conv [THEN iffD2]) auto
  have "card (set ys) < card (set (ys @ z # ws))" for ws
    using iz(2-4) by (intro psubset_card_mono) auto
  then have "rank is z < rank is l" if "l \<noteq> z" "l = i \<or> l = j" for l
    using that iz by (auto simp: rank_def tw takeWhile_append)
  then show False using iz(2) ne assms(3) by (metis less_irrefl)
qed

lemma rank_bound: "i \<in> set is \<Longrightarrow> 0 \<le> rank is i \<and> rank is i < int (card (set is))"
proof -
  assume i: "i \<in> set is"
  have "set (takeWhile (\<lambda>j. j \<noteq> i) is) \<subset> set is"
    using i set_takeWhileD [of i "\<lambda>j. j \<noteq> i" "is"] by (auto dest: set_takeWhileD)
  then show ?thesis by (simp add: rank_def psubset_card_mono)
qed

lemma renumber_ids:
  "map ev_Id (renumber vs) = map (rank (map ev_Id vs)) (map ev_Id vs)"
  using renumber_loop_rank [of "\<lambda>_. None" "[]" vs] by (simp add: renumber_def)

lemma convert_from_fields:
  "length (convert_from i vs) = length vs"
  "a < length vs \<Longrightarrow> convert_from i vs ! a =
     \<lparr>e_kind = ev_Kind (vs ! a), e_value = ev_Value (vs ! a), e_id = ev_Id (vs ! a),
      e_time = i + int a, e_clientId = ev_ClientId (vs ! a)\<rparr>"
  by (induction i vs arbitrary: a rule: convert_from.induct)
    (auto simp: Let_def nth_Cons entry_kinds ReturnEvent_def split: nat.splits)

text \<open>A complete history of events: every id has one call and one later return.\<close>

definition complete_events :: "'v event list \<Rightarrow> bool" where
  "complete_events vs \<longleftrightarrow>
     distinct (map (\<lambda>v. (ev_Kind v, ev_Id v)) vs) \<and>
     (\<forall>a < length vs. ev_Kind (vs ! a) = CallEvent \<longrightarrow>
        (\<exists>b < length vs. a < b \<and> ev_Kind (vs ! b) = ReturnEvent \<and> ev_Id (vs ! b) = ev_Id (vs ! a))) \<and>
     (\<forall>b < length vs. ev_Kind (vs ! b) = ReturnEvent \<longrightarrow>
        (\<exists>a < b. ev_Kind (vs ! a) = CallEvent \<and> ev_Id (vs ! a) = ev_Id (vs ! b)))"

text \<open>Each id occurs in exactly two events.\<close>

lemma complete_events_card:
  assumes "complete_events vs"
  shows "length vs = 2 * card (ev_Id ` set vs)"
proof -
  let ?f = "\<lambda>v. (ev_Kind v, ev_Id v)"
  have "?f ` set vs = UNIV \<times> ev_Id ` set vs"
  proof (intro equalityI subsetI)
    fix p :: "bool \<times> int" assume "p \<in> UNIV \<times> ev_Id ` set vs"
    then obtain k a where p: "p = (k, ev_Id (vs ! a))" "a < length vs"
      by (cases p) (auto simp: in_set_conv_nth)
    show "p \<in> ?f ` set vs"
    proof (cases "ev_Kind (vs ! a) = k")
      case True
      then show ?thesis using p by (intro image_eqI [of _ _ "vs ! a"]) auto
    next
      case False
      have "\<exists>b < length vs. ev_Kind (vs ! b) = k \<and> ev_Id (vs ! b) = ev_Id (vs ! a)"
      proof (cases k)
        case True
        then show ?thesis
          using assms p(2) False unfolding complete_events_def CallEvent_def ReturnEvent_def
          by blast
      next
        case k: False
        then obtain b where "b < a" "\<not> ev_Kind (vs ! b)" "ev_Id (vs ! b) = ev_Id (vs ! a)"
          using assms p(2) False unfolding complete_events_def CallEvent_def ReturnEvent_def
          by blast
        then show ?thesis using k p(2) by (intro exI [of _ b]) simp
      qed
      then obtain b where "b < length vs" "ev_Kind (vs ! b) = k" "ev_Id (vs ! b) = ev_Id (vs ! a)"
        by blast
      then show ?thesis using p by (intro image_eqI [of _ _ "vs ! b"]) auto
    qed
  qed auto
  then have "card (?f ` set vs) = 2 * card (ev_Id ` set vs)" by (simp add: card_cartesian_product)
  moreover have "card (set (map ?f vs)) = length vs"
    using assms distinct_card [of "map ?f vs"] by (simp add: complete_events_def)
  ultimately show ?thesis by simp
qed

lemma renumber_nth:
  assumes "a < length vs"
  shows "ev_Kind (renumber vs ! a) = ev_Kind (vs ! a)" "ev_Value (renumber vs ! a) = ev_Value (vs ! a)"
    "ev_Id (renumber vs ! a) = rank (map ev_Id vs) (ev_Id (vs ! a))"
proof -
  have len: "length (renumber vs) = length vs" by (simp add: renumber_def renumber_loop_frame)
  have "map ev_Kind (renumber vs) ! a = map ev_Kind vs ! a"
    "map ev_Value (renumber vs) ! a = map ev_Value vs ! a"
    by (simp_all add: renumber_def renumber_loop_frame)
  moreover have "map ev_Id (renumber vs) ! a = map (rank (map ev_Id vs)) (map ev_Id vs) ! a"
    by (simp add: renumber_ids)
  ultimately show "ev_Kind (renumber vs ! a) = ev_Kind (vs ! a)"
    "ev_Value (renumber vs ! a) = ev_Value (vs ! a)"
    "ev_Id (renumber vs ! a) = rank (map ev_Id vs) (ev_Id (vs ! a))"
    using assms len by simp_all
qed

lemma renumber_wf:
  assumes c: "complete_events vs"
  shows "wf_history (convertEntries (renumber vs))"
proof -
  let ?es = "convertEntries (renumber vs)" and ?rk = "rank (map ev_Id vs)"
  note kinds = callEntry_def CallEvent_def ReturnEvent_def
  have len: "length ?es = length vs"
    by (simp add: convertEntries_def convert_from_fields renumber_def renumber_loop_frame)
  have nth: "e_kind (?es ! a) = ev_Kind (vs ! a)" "e_id (?es ! a) = ?rk (ev_Id (vs ! a))"
    if "a < length vs" for a
    using that renumber_nth [OF that]
    by (simp_all add: convertEntries_def convert_from_fields renumber_def renumber_loop_frame)
  have inj: "?rk (ev_Id (vs ! a)) = ?rk (ev_Id (vs ! b)) \<longleftrightarrow> ev_Id (vs ! a) = ev_Id (vs ! b)"
    if "a < length vs" "b < length vs" for a b
    using rank_inject [of "ev_Id (vs ! a)" "map ev_Id vs" "ev_Id (vs ! b)"] that by auto
  have uniq: "a = b" if "a < length vs" "b < length vs" "ev_Kind (vs ! a) = ev_Kind (vs ! b)"
    "ev_Id (vs ! a) = ev_Id (vs ! b)" for a b
    using c that nth_eq_iff_index_eq [of "map (\<lambda>v. (ev_Kind v, ev_Id v)) vs" a b]
    by (simp add: complete_events_def)
  show ?thesis
    unfolding wf_history_def len
  proof (intro conjI)
    show "distinct (map (\<lambda>e. (e_kind e, e_id e)) ?es)"
      unfolding distinct_conv_nth length_map len
    proof (intro allI impI)
      fix i j assume ij: "i < length vs" "j < length vs" "i \<noteq> j"
      then show "map (\<lambda>e. (e_kind e, e_id e)) ?es ! i \<noteq> map (\<lambda>e. (e_kind e, e_id e)) ?es ! j"
        using uniq [OF ij(1,2)] inj [OF ij(1,2)] nth [OF ij(1)] nth [OF ij(2)] by (auto simp: len)
    qed
    have "length vs div 2 = card (set (map ev_Id vs))"
      using complete_events_card [OF c] by simp
    moreover have "0 \<le> ?rk (ev_Id (vs ! a)) \<and> ?rk (ev_Id (vs ! a)) < int (card (set (map ev_Id vs)))"
      if "a < length vs" for a
      using rank_bound [of "ev_Id (vs ! a)" "map ev_Id vs"] that by auto
    ultimately show "\<forall>e \<in> set ?es. 0 \<le> e_id e \<and> e_id e < int (length vs div 2)"
      using nth(2) by (auto simp: in_set_conv_nth len)
    show "\<forall>a < length vs. is_call (?es ! a) \<longrightarrow>
        (\<exists>b < length vs. a < b \<and> \<not> is_call (?es ! b) \<and> e_id (?es ! b) = e_id (?es ! a))"
    proof (intro allI impI)
      fix a assume a: "a < length vs" "is_call (?es ! a)"
      then obtain b where "b < length vs" "a < b" "ev_Kind (vs ! b)" "ev_Id (vs ! b) = ev_Id (vs ! a)"
        using c nth(1) [OF a(1)] unfolding complete_events_def is_call_def kinds by blast
      then show "\<exists>b < length vs. a < b \<and> \<not> is_call (?es ! b) \<and> e_id (?es ! b) = e_id (?es ! a)"
        using nth [OF a(1)] nth [of b] by (intro exI [of _ b]) (simp add: is_call_def kinds)
    qed
    show "\<forall>b < length vs. \<not> is_call (?es ! b) \<longrightarrow>
        (\<exists>a < b. is_call (?es ! a) \<and> e_id (?es ! a) = e_id (?es ! b))"
    proof (intro allI impI)
      fix b assume b: "b < length vs" "\<not> is_call (?es ! b)"
      then obtain a where "a < b" "\<not> ev_Kind (vs ! a)" "ev_Id (vs ! a) = ev_Id (vs ! b)"
        using c nth(1) [OF b(1)] unfolding complete_events_def is_call_def kinds by blast
      then show "\<exists>a < b. is_call (?es ! a) \<and> e_id (?es ! a) = e_id (?es ! b)"
        using nth [OF b(1)] nth [of a] b(1) by (intro exI [of _ a]) (simp add: is_call_def kinds)
    qed
  qed
qed

section \<open>The verdict\<close>

lemma receive_all:
  assumes "\<And>i. i \<in> set js \<Longrightarrow> res i = Some (Inr (r i, l i))" and "js \<noteq> []"
    and "cnt + length js = n" and "ok \<or> ci"
  shows "\<exists>cnt' arr'. receive_loop res ci n (map Some js) ok cnt =
      Some (Inr (ok \<and> (\<forall>i \<in> set js. r i), False, cnt', arr')) \<and> (ci \<longrightarrow> cnt' = n)"
  using assms
proof (induction js arbitrary: ok cnt)
  case (Cons j js)
  show ?case
  proof (cases "\<not> (ok \<and> r j) \<and> \<not> ci \<or> js = []")
    case True
    then show ?thesis using Cons.prems by (auto simp: Let_def)
  next
    case False
    then have "cnt + 1 + length js = n" "ok \<and> r j \<or> ci" "\<not> n \<le> cnt + 1"
      using Cons.prems(3) by auto
    then show ?thesis
      using Cons.IH [of "cnt + 1" "ok \<and> r j"] Cons.prems False by (auto simp: Let_def)
  qed
qed simp

lemma checkParallel_verdict:
  assumes res: "\<And>i. i < length hs \<Longrightarrow> checkSingle mdl nilv (hs ! i) ci (kills i) = Some (Inr (r i, l i))"
    and ne: "hs \<noteq> []" and js: "distinct js" "set js = {..<length hs}"
  shows "\<exists>info. checkParallel mdl nilv hs ci kills (map Some js) =
    Some (Inr (if \<forall>i < length hs. r i then Ok else Illegal, info))"
proof -
  have len: "length js = length hs" using js distinct_card [of js] by simp
  then have js0: "js \<noteq> []" using ne by (cases js) simp_all
  let ?res = "\<lambda>i. checkSingle mdl nilv (hs ! i) ci (kills i)"
  have all: "\<And>i. i \<in> set js \<Longrightarrow> ?res i = Some (Inr (r i, l i))" using res by (simp add: js(2))
  have "0 + length js = length hs" "True \<or> ci" using len by simp_all
  from receive_all [where res = ?res, OF all js0 this]
  obtain cnt' arr' where rl: "receive_loop ?res ci (length hs) (map Some js) True 0 =
      Some (Inr (True \<and> (\<forall>i \<in> set js. r i), False, cnt', arr'))" "ci \<longrightarrow> cnt' = length hs"
    by blast
  have "(\<forall>i \<in> set js. r i) \<longleftrightarrow> (\<forall>i < length hs. r i)" using js(2) by auto
  then show ?thesis
    using rl by (cases ci) (simp_all add: checkParallel_def Let_def)
qed

section \<open>Histories of operations\<close>

text \<open>What is asked of \<open>sort.Sort\<close> with \<open>byTime\<close>: a permutation in the order of times.\<close>

definition sort_ok :: "('v hentry list \<Rightarrow> 'v hentry list) \<Rightarrow> bool" where
  "sort_ok srt \<longleftrightarrow> (\<forall>xs. mset (srt xs) = mset xs \<and> sorted (map e_time (srt xs)))"

definition call_entry :: "'v operation list \<Rightarrow> nat \<Rightarrow> 'v hentry" where
  "call_entry ops i = \<lparr>e_kind = callEntry, e_value = op_Input (ops ! i), e_id = int i,
     e_time = op_Call (ops ! i), e_clientId = op_ClientId (ops ! i)\<rparr>"

definition return_entry :: "'v operation list \<Rightarrow> nat \<Rightarrow> 'v hentry" where
  "return_entry ops i = \<lparr>e_kind = returnEntry, e_value = op_Output (ops ! i), e_id = int i,
     e_time = op_Return (ops ! i), e_clientId = op_ClientId (ops ! i)\<rparr>"

text \<open>Operations that take time, and clock readings that are all different.\<close>

definition times_ok :: "'v operation list \<Rightarrow> bool" where
  "times_ok ops \<longleftrightarrow>
     distinct (map op_Call ops @ map op_Return ops) \<and> (\<forall>op \<in> set ops. op_Call op < op_Return op)"

text \<open>Linearizability in terms of operations and their times.\<close>

definition in_real_time :: "'v operation list \<Rightarrow> bool" where
  "in_real_time ord \<longleftrightarrow> sorted_wrt (\<lambda>x y. \<not> op_Return y < op_Call x) ord"

fun op_legal :: "('s, 'v) lmodel \<Rightarrow> 's \<Rightarrow> 'v operation list \<Rightarrow> bool" where
  "op_legal mdl s [] \<longleftrightarrow> True"
| "op_legal mdl s (x # xs) \<longleftrightarrow>
     (case lm_Step mdl s (op_Input x) (op_Output x) of
        Inr (True, s') \<Rightarrow> op_legal mdl s' xs | _ \<Rightarrow> False)"

definition op_linearizable :: "('s, 'v) lmodel \<Rightarrow> 'v operation list \<Rightarrow> bool" where
  "op_linearizable mdl ops \<longleftrightarrow>
     (\<exists>ord. mset ord = mset ops \<and> in_real_time ord \<and> op_legal mdl (lm_Init mdl) ord)"

lemma operation_entries_eq:
  "operation_entries k ops =
     concat (map (\<lambda>i. [(call_entry ops i)\<lparr>e_id := k + int i\<rparr>, (return_entry ops i)\<lparr>e_id := k + int i\<rparr>])
               [0..<length ops])"
proof (induction k ops rule: operation_entries.induct)
  case (2 k elem ops)
  have u: "[0..<length (elem # ops)] = 0 # map Suc [0..<length ops]"
    by (simp add: map_Suc_upt upt_conv_Cons del: upt_Suc)
  show ?case
    unfolding u using 2 by (simp add: comp_def call_entry_def return_entry_def ac_simps)
qed simp

lemma makeEntries_entries:
  assumes "sort_ok srt"
  shows "mset (makeEntries srt ops) = mset (operation_entries 0 ops)"
    and "set (makeEntries srt ops) = call_entry ops ` {..<length ops} \<union> return_entry ops ` {..<length ops}"
    and "length (makeEntries srt ops) = 2 * length ops"
    and "sorted (map e_time (makeEntries srt ops))"
proof -
  show ms: "mset (makeEntries srt ops) = mset (operation_entries 0 ops)"
    and "sorted (map e_time (makeEntries srt ops))"
    using assms by (simp_all add: sort_ok_def makeEntries_def)
  have e: "(call_entry ops i)\<lparr>e_id := int i\<rparr> = call_entry ops i"
    "(return_entry ops i)\<lparr>e_id := int i\<rparr> = return_entry ops i" for i
    by (simp_all add: call_entry_def return_entry_def)
  have "set (operation_entries 0 ops) =
      call_entry ops ` {..<length ops} \<union> return_entry ops ` {..<length ops}"
    by (auto simp: operation_entries_eq e)
  then show "set (makeEntries srt ops) =
      call_entry ops ` {..<length ops} \<union> return_entry ops ` {..<length ops}"
    using mset_eq_setD [OF ms] by simp
  have "length (operation_entries k ops) = 2 * length ops" for k
    by (induction k ops rule: operation_entries.induct) auto
  then show "length (makeEntries srt ops) = 2 * length ops"
    using mset_eq_length [OF ms] by simp
qed

lemma operation_entries_id: "e \<in> set (operation_entries k ops) \<Longrightarrow> k \<le> e_id e"
proof (induction k ops rule: operation_entries.induct)
  case (2 k elem ops)
  then have "e_id e = k \<or> e \<in> set (operation_entries (k + 1) ops)" by auto
  then show ?case using "2.IH" by auto
qed simp

lemma operation_entries_distinct:
  "distinct (map (\<lambda>e. (e_kind e, e_id e)) (operation_entries k ops))"
proof (induction k ops rule: operation_entries.induct)
  case (2 k elem ops)
  have "e_id e \<noteq> k" if "e \<in> set (operation_entries (k + 1) ops)" for e
    using operation_entries_id [OF that] by simp
  then show ?case using "2.IH" by (auto simp: entry_kinds)
qed simp

lemma makeEntries_distinct:
  assumes "sort_ok srt"
  shows "distinct (map (\<lambda>e. (e_kind e, e_id e)) (makeEntries srt ops))"
proof -
  have "mset (map (\<lambda>e. (e_kind e, e_id e)) (makeEntries srt ops)) =
      mset (map (\<lambda>e. (e_kind e, e_id e)) (operation_entries 0 ops))"
    using makeEntries_entries(1) [OF assms, of ops] by simp
  then show ?thesis using operation_entries_distinct mset_eq_imp_distinct_iff by blast
qed

text \<open>Where the entries of an operation stand after the sort.\<close>

lemma makeEntries_nth:
  assumes s: "sort_ok srt" and a: "a < length (makeEntries srt ops)"
  obtains i where "i < length ops" and "e_id (makeEntries srt ops ! a) = int i"
    and "makeEntries srt ops ! a =
      (if is_call (makeEntries srt ops ! a) then call_entry ops i else return_entry ops i)"
proof -
  have "makeEntries srt ops ! a \<in> call_entry ops ` {..<length ops} \<union> return_entry ops ` {..<length ops}"
    using nth_mem [OF a] makeEntries_entries(2) [OF s, of ops] by simp
  then show thesis
    by (elim UnE imageE)
      (rule that; simp add: call_entry_def return_entry_def is_call_def entry_kinds)+
qed

lemma makeEntries_order:
  assumes s: "sort_ok srt" and es: "es = makeEntries srt ops" and a: "a < length es" "b < length es"
    and lt: "e_time (es ! a) < e_time (es ! b)"
  shows "a < b"
proof (rule ccontr)
  assume "\<not> a < b"
  moreover have "sorted (map e_time es)" using makeEntries_entries(4) [OF s] es by simp
  ultimately have "map e_time es ! b \<le> map e_time es ! a"
    using a by (intro sorted_nth_mono) auto
  then show False using lt a by simp
qed

lemma makeEntries_wf:
  assumes s: "sort_ok srt" and t: "\<forall>op \<in> set ops. op_Call op < op_Return op"
  shows "wf_history (makeEntries srt ops)"
proof -
  define es where "es = makeEntries srt ops"
  note ent = makeEntries_entries [OF s, of ops, folded es_def]
  have pos: "\<exists>a < length es. es ! a = e" if "e \<in> set es" for e
    using that by (auto simp: in_set_conv_nth)
  have nth: "\<exists>i < length ops. e_id (es ! a) = int i \<and>
      es ! a = (if is_call (es ! a) then call_entry ops i else return_entry ops i)"
    if "a < length es" for a
    using makeEntries_nth [OF s] that unfolding es_def by blast
  have other: "\<exists>c r. c < length es \<and> r < length es \<and> es ! c = call_entry ops i \<and>
      es ! r = return_entry ops i \<and> c < r" if i: "i < length ops" for i
  proof -
    obtain c r where cr: "c < length es" "r < length es" "es ! c = call_entry ops i"
      "es ! r = return_entry ops i"
      using pos [of "call_entry ops i"] pos [of "return_entry ops i"] ent(2) i by auto
    moreover have "e_time (es ! c) < e_time (es ! r)"
      using cr(3,4) t i by (simp add: call_entry_def return_entry_def)
    ultimately show ?thesis using makeEntries_order [OF s es_def] by blast
  qed
  have kinds: "is_call (call_entry ops i)" "\<not> is_call (return_entry ops i)"
    "e_id (call_entry ops i) = int i" "e_id (return_entry ops i) = int i" for i
    by (simp_all add: call_entry_def return_entry_def is_call_def entry_kinds)
  have uniq: "a = b" if "a < length es" "b < length es" "is_call (es ! a) = is_call (es ! b)"
    "e_id (es ! a) = e_id (es ! b)" for a b
    using makeEntries_distinct [OF s, of ops, folded es_def] that
      nth_eq_iff_index_eq [of "map (\<lambda>e. (e_kind e, e_id e)) es" a b]
    by (simp add: is_call_def callEntry_def)
  have "wf_history es"
    unfolding wf_history_def
  proof (intro conjI)
    show "distinct (map (\<lambda>e. (e_kind e, e_id e)) es)"
      using makeEntries_distinct [OF s] by (simp add: es_def)
    show "\<forall>e \<in> set es. 0 \<le> e_id e \<and> e_id e < int (length es div 2)"
      using ent(2,3) by (auto simp: kinds)
    show "\<forall>a < length es. is_call (es ! a) \<longrightarrow>
        (\<exists>b < length es. a < b \<and> \<not> is_call (es ! b) \<and> e_id (es ! b) = e_id (es ! a))"
    proof (intro allI impI)
      fix a assume a: "a < length es" "is_call (es ! a)"
      obtain i where i: "i < length ops" "e_id (es ! a) = int i" using nth [OF a(1)] by blast
      obtain c r where cr: "c < length es" "r < length es" "es ! c = call_entry ops i"
        "es ! r = return_entry ops i" "c < r" using other [OF i(1)] by blast
      then have "c = a" using uniq [of c a] a i(2) by (simp add: kinds)
      then show "\<exists>b < length es. a < b \<and> \<not> is_call (es ! b) \<and> e_id (es ! b) = e_id (es ! a)"
        using cr i(2) by (intro exI [of _ r]) (simp add: kinds)
    qed
    show "\<forall>b < length es. \<not> is_call (es ! b) \<longrightarrow>
        (\<exists>a < b. is_call (es ! a) \<and> e_id (es ! a) = e_id (es ! b))"
    proof (intro allI impI)
      fix b assume b: "b < length es" "\<not> is_call (es ! b)"
      obtain i where i: "i < length ops" "e_id (es ! b) = int i" using nth [OF b(1)] by blast
      obtain c r where cr: "c < length es" "r < length es" "es ! c = call_entry ops i"
        "es ! r = return_entry ops i" "c < r" using other [OF i(1)] by blast
      then have "r = b" using uniq [of r b] b i(2) by (simp add: kinds)
      then show "\<exists>a < b. is_call (es ! a) \<and> e_id (es ! a) = e_id (es ! b)"
        using cr i(2) by (intro exI [of _ c]) (simp add: kinds)
    qed
  qed
  then show ?thesis by (simp add: es_def)
qed

text \<open>The operation whose call stands at a position.\<close>

definition op_at :: "'v hentry list \<Rightarrow> nat \<Rightarrow> nat" where
  "op_at es a = nat (e_id (es ! a))"

lemma op_at_calls:
  assumes s: "sort_ok srt" and t: "times_ok ops" and es: "es = makeEntries srt ops"
  shows "bij_betw (op_at es) (op_calls es) {..<length ops}"
    and "a \<in> op_calls es \<Longrightarrow> es ! a = call_entry ops (op_at es a)"
    and "a \<in> op_calls es \<Longrightarrow> es ! ret_of es a = return_entry ops (op_at es a)"
    and "a \<in> op_calls es \<Longrightarrow> b \<in> op_calls es \<Longrightarrow>
      ret_of es b < a \<longleftrightarrow> op_Return (ops ! op_at es b) < op_Call (ops ! op_at es a)"
proof -
  have wf: "wf_history es"
    unfolding es by (rule makeEntries_wf [OF s]) (use t in \<open>simp add: times_ok_def\<close>)
  note ent = makeEntries_entries [OF s, of ops, folded es]
  have nth: "op_at es a < length ops \<and> e_id (es ! a) = int (op_at es a) \<and>
      es ! a = (if is_call (es ! a) then call_entry ops (op_at es a) else return_entry ops (op_at es a))"
    if "a < length es" for a
    using makeEntries_nth [OF s that [unfolded es]] unfolding es op_at_def by (metis nat_int)
  have inj: "inj_on (op_at es) (op_calls es)"
  proof (rule inj_onI)
    fix a b assume ab: "a \<in> op_calls es" "b \<in> op_calls es" "op_at es a = op_at es b"
    then show "a = b"
      using wf_history_unique [OF wf, of a b] nth [of a] nth [of b] by (auto simp: op_calls_def)
  qed
  have "{..<length ops} \<subseteq> op_at es ` op_calls es"
  proof
    fix i assume "i \<in> {..<length ops}"
    then have "call_entry ops i \<in> set es" using ent(2) by auto
    then obtain a where "a < length es" "es ! a = call_entry ops i" by (auto simp: in_set_conv_nth)
    then show "i \<in> op_at es ` op_calls es"
      by (intro image_eqI [of _ _ a])
        (auto simp: op_at_def op_calls_def call_entry_def is_call_def)
  qed
  then show "bij_betw (op_at es) (op_calls es) {..<length ops}"
    using inj nth by (auto simp: bij_betw_def op_calls_def)
  show c: "es ! a = call_entry ops (op_at es a)" if "a \<in> op_calls es" for a
    using nth [of a] that by (simp add: op_calls_def)
  show r: "es ! ret_of es a = return_entry ops (op_at es a)" if "a \<in> op_calls es" for a
  proof -
    have a: "a < length es" "is_call (es ! a)" using that by (auto simp: op_calls_def)
    note ro = ret_of [OF wf a]
    have "op_at es (ret_of es a) = op_at es a" using ro(4) by (simp add: op_at_def)
    then show ?thesis using nth [OF ro(2)] ro(3) by simp
  qed
  show "ret_of es b < a \<longleftrightarrow> op_Return (ops ! op_at es b) < op_Call (ops ! op_at es a)"
    if a: "a \<in> op_calls es" and b: "b \<in> op_calls es" for a b
  proof -
    let ?r = "ret_of es b"
    have al: "a < length es" and bl: "b < length es" "is_call (es ! b)"
      using a b by (auto simp: op_calls_def)
    have rl: "?r < length es" using ret_of(2) [OF wf bl] .
    have tm: "e_time (es ! ?r) = op_Return (ops ! op_at es b)" "e_time (es ! a) = op_Call (ops ! op_at es a)"
      using r [OF b] c [OF a] by (simp_all add: call_entry_def return_entry_def)
    have "op_Return (ops ! op_at es b) \<noteq> op_Call (ops ! op_at es a)"
    proof -
      have "op_at es a < length ops" "op_at es b < length ops"
        using nth [OF al] nth [OF bl(1)] by blast+
      then have "op_Return (ops ! op_at es b) \<in> op_Return ` set ops"
        "op_Call (ops ! op_at es a) \<in> op_Call ` set ops"
        by simp_all
      moreover have "op_Call ` set ops \<inter> op_Return ` set ops = {}"
        using t unfolding times_ok_def distinct_append set_map by simp
      ultimately show ?thesis by (metis disjoint_iff)
    qed
    then show ?thesis
      using makeEntries_order [OF s es rl al] makeEntries_order [OF s es al rl] tm by linarith
  qed
qed

lemma op_legal_Cons:
  "op_legal mdl s (x # xs) \<longleftrightarrow>
     (\<exists>s'. lm_Step mdl s (op_Input x) (op_Output x) = Inr (True, s') \<and> op_legal mdl s' xs)"
  by (auto split: sum.splits prod.splits bool.splits)

lemma times_ok_distinct: "times_ok ops \<Longrightarrow> distinct ops"
  by (auto simp: times_ok_def distinct_map)

lemma linearizable_operations:
  assumes s: "sort_ok srt" and t: "times_ok ops"
  shows "linearizable mdl (makeEntries srt ops) \<longleftrightarrow> op_linearizable mdl ops"
proof -
  define es where "es = makeEntries srt ops"
  define f where "f = (\<lambda>a. ops ! op_at es a)"
  note oa = op_at_calls [OF s t es_def]
  have bij: "bij_betw f (op_calls es) (set ops)"
  proof -
    have "bij_betw ((!) ops) {..<length ops} (set ops)"
      using times_ok_distinct [OF t] by (rule bij_betw_nth) simp_all
    then show ?thesis using bij_betw_trans [OF oa(1)] by (simp add: f_def comp_def)
  qed
  have leg: "legal mdl es st ord \<longleftrightarrow> op_legal mdl st (map f ord)"
    if "set ord \<subseteq> op_calls es" for st ord
    using that
  proof (induction ord arbitrary: st)
    case (Cons a ord)
    have "op_step mdl es st a = lm_Step mdl st (op_Input (f a)) (op_Output (f a))"
      using oa(2,3) [of a] Cons.prems
      by (simp add: op_step_def call_entry_def return_entry_def f_def)
    then show ?case
      using Cons by (simp add: legal_Cons op_legal_Cons del: legal.simps op_legal.simps)
  qed simp
  have rt: "real_time es ord \<longleftrightarrow> in_real_time (map f ord)" if sub: "set ord \<subseteq> op_calls es" for ord
  proof -
    have eq: "a \<in> set ord \<Longrightarrow> b \<in> set ord \<Longrightarrow> \<not> ret_of es b < a \<longleftrightarrow>
        \<not> op_Return (f b) < op_Call (f a)" for a b
      using sub oa(4) [of a b] by (auto simp: f_def)
    show ?thesis
      unfolding real_time_def in_real_time_def sorted_wrt_map
      by (intro iffI; rule sorted_wrt_mono_rel [rotated], assumption) (use eq in blast)+
  qed
  have "op_linearizable mdl ops" if lin: "linearizable mdl es"
  proof -
    obtain ord where o: "distinct ord" "set ord = op_calls es" "real_time es ord"
      "legal mdl es (lm_Init mdl) ord"
      using lin unfolding linearizable_def by blast
    have "distinct (map f ord)" "set (map f ord) = set ops"
      unfolding distinct_map set_map o(2) using o(1) bij by (simp_all add: bij_betw_def)
    then have "mset (map f ord) = mset ops"
      using times_ok_distinct [OF t] set_eq_iff_mset_eq_distinct by blast
    then show ?thesis
      unfolding op_linearizable_def using o leg rt by (intro exI [of _ "map f ord"]) auto
  qed
  moreover have "linearizable mdl es" if ol: "op_linearizable mdl ops"
  proof -
    obtain ord where o: "mset ord = mset ops" "in_real_time ord" "op_legal mdl (lm_Init mdl) ord"
      using ol unfolding op_linearizable_def by blast
    have d: "distinct ord" "set ord = set ops"
      using o(1) times_ok_distinct [OF t] mset_eq_imp_distinct_iff mset_eq_setD by blast+
    let ?g = "the_inv_into (op_calls es) f"
    have g: "bij_betw ?g (set ops) (op_calls es)" using bij by (rule bij_betw_the_inv_into)
    have fg: "map f (map ?g ord) = ord"
      using d(2) f_the_inv_into_f_bij_betw [OF bij] by (auto intro!: map_idI)
    have "distinct (map ?g ord)" "set (map ?g ord) = op_calls es"
      unfolding distinct_map set_map d(2) using d(1) g by (simp_all add: bij_betw_def)
    then show ?thesis
      unfolding linearizable_def using o(2,3) leg [of "map ?g ord"] rt [of "map ?g ord"] fg
      by (intro exI [of _ "map ?g ord"]) auto
  qed
  ultimately show ?thesis unfolding es_def by blast
qed

lemma makeEntries_model_ok:
  assumes s: "sort_ok srt" and t: "times_ok ops"
    and "\<And>st op. op \<in> set ops \<Longrightarrow> \<exists>r. lm_Step mdl st (op_Input op) (op_Output op) = Inr r"
    and "\<And>x y. lm_Equal mdl x y \<Longrightarrow> x = y"
  shows "model_ok mdl (makeEntries srt ops)"
  unfolding model_ok_def
proof (intro conjI allI impI)
  fix st a assume a: "a < length (makeEntries srt ops)" "is_call (makeEntries srt ops ! a)"
  define es where "es = makeEntries srt ops"
  note oa = op_at_calls [OF s t es_def]
  have ac: "a \<in> op_calls es" using a by (simp add: op_calls_def es_def)
  then have "op_at es a < length ops" using oa(1) by (auto simp: bij_betw_def)
  then show "\<exists>r. op_step mdl (makeEntries srt ops) st a = Inr r"
    using assms(3) [of "ops ! op_at es a" st] oa(2,3) [OF ac]
    by (simp add: op_step_def call_entry_def return_entry_def flip: es_def)
qed (use assms(4) in blast)

lemma check_partitions:
  assumes part: "mo_Partition model = Some f" "f history = Inr parts" "parts \<noteq> []"
    and eq: "mo_Equal model = None"
    and times: "\<And>sub. sub \<in> set parts \<Longrightarrow> times_ok sub \<and> 2 * length sub < 2 ^ 64"
    and step: "\<And>sub op st. sub \<in> set parts \<Longrightarrow> op \<in> set sub \<Longrightarrow>
      \<exists>r. mo_Step model st (op_Input op) (op_Output op) = Inr r"
    and env: "sort_ok (pe_sort env)" "\<And>i k. \<not> pe_kills env i k" "pe_arr env = map Some js"
    and js: "distinct js" "set js = {..<length parts}"
  shows "CheckOperations env model history =
    Some (Inr (\<forall>sub \<in> set parts. op_linearizable
      (lmodel_of (fillDefault (pe_sprintv env) (pe_sprints env) model)) sub))"
proof -
  define mdl where "mdl = fillDefault (pe_sprintv env) (pe_sprints env) model"
  define hs where "hs = map (makeEntries (pe_sort env)) parts"
  have m: "mo_Partition mdl = Some f" "mo_Step mdl = mo_Step model" "mo_Equal mdl = Some ShallowEqual"
    using part(1) eq by (simp_all add: mdl_def fillDefault_def Let_def)
  have run: "\<exists>l. checkSingle (lmodel_of mdl) (pe_nil env) (hs ! i) False (pe_kills env i) =
      Some (Inr (op_linearizable (lmodel_of mdl) (parts ! i), l))" if "i < length hs" for i
  proof -
    have sub: "parts ! i \<in> set parts" "hs ! i = makeEntries (pe_sort env) (parts ! i)"
      using that by (simp_all add: hs_def)
    note t = times [OF sub(1)]
    have "wf_history (hs ! i)"
      unfolding sub(2) using t by (intro makeEntries_wf [OF env(1)]) (simp add: times_ok_def)
    moreover have "model_ok (lmodel_of mdl) (hs ! i)"
      unfolding sub(2) using t step [OF sub(1)]
      by (intro makeEntries_model_ok [OF env(1)]) (auto simp: lmodel_of_def m ShallowEqual_def)
    moreover have "length (hs ! i) < 2 ^ 64"
      unfolding sub(2) using t makeEntries_entries(3) [OF env(1)] by simp
    ultimately show ?thesis
      using checkSingle_linearizable [of "hs ! i" "lmodel_of mdl" "pe_kills env i"] env(2)
        linearizable_operations [OF env(1), of "parts ! i"] t sub(2) by metis
  qed
  then obtain l where all: "\<And>i. i < length hs \<Longrightarrow>
      checkSingle (lmodel_of mdl) (pe_nil env) (hs ! i) False (pe_kills env i) =
      Some (Inr (op_linearizable (lmodel_of mdl) (parts ! i), l i))" by metis
  have hs: "hs \<noteq> []" "set js = {..<length hs}" using part(3) js by (simp_all add: hs_def)
  obtain info where "checkParallel (lmodel_of mdl) (pe_nil env) hs False (pe_kills env)
      (map Some js) = Some (Inr (if \<forall>i < length hs. op_linearizable (lmodel_of mdl) (parts ! i)
      then Ok else Illegal, info))"
    using checkParallel_verdict [OF all hs(1) js(1) hs(2)] by blast
  moreover have "(\<forall>i < length hs. op_linearizable (lmodel_of mdl) (parts ! i)) \<longleftrightarrow>
      (\<forall>sub \<in> set parts. op_linearizable (lmodel_of mdl) sub)"
    by (simp add: hs_def all_set_conv_all_nth)
  ultimately show ?thesis
    using part(2) m(1) env(3)
    by (simp add: CheckOperations_def verdict_def checkOperations_def Let_def flip: mdl_def hs_def)
qed

section \<open>Properties\<close>

text \<open>
  Numbering. \<open>renumber\<close> followed by \<open>convertEntries\<close> turns every complete history of
  events, whatever its ids, into a history of the form the search expects: the operations are
  numbered from 0 without gaps, and two events get the same number exactly when they had the
  same id.
\<close>

theorem renumber_makes_history:
  assumes "complete_events vs"
  shows "wf_history (convertEntries (renumber vs)) \<and>
    (\<forall>a < length vs. \<forall>b < length vs.
       ev_Id (renumber vs ! a) = ev_Id (renumber vs ! b) \<longleftrightarrow> ev_Id (vs ! a) = ev_Id (vs ! b))"
proof (intro conjI allI impI)
  fix a b assume "a < length vs" "b < length vs"
  then show "ev_Id (renumber vs ! a) = ev_Id (renumber vs ! b) \<longleftrightarrow> ev_Id (vs ! a) = ev_Id (vs ! b)"
    using renumber_nth(3) [of a vs] renumber_nth(3) [of b vs]
      rank_inject [of "ev_Id (vs ! a)" "map ev_Id vs" "ev_Id (vs ! b)"] by auto
qed (rule renumber_wf [OF assms])

theorem renumber_makes_history_witness:
  "wf_history (convertEntries (renumber
     [\<lparr>ev_ClientId = 0, ev_Kind = CallEvent, ev_Value = (), ev_Id = 42\<rparr>,
      \<lparr>ev_ClientId = 0, ev_Kind = ReturnEvent, ev_Value = (), ev_Id = 42\<rparr>]))"
proof -
  have "complete_events [\<lparr>ev_ClientId = 0, ev_Kind = CallEvent, ev_Value = (), ev_Id = 42\<rparr>,
      \<lparr>ev_ClientId = 0, ev_Kind = ReturnEvent, ev_Value = (), ev_Id = 42\<rparr>]"
    by (simp add: complete_events_def CallEvent_def ReturnEvent_def All_less_Suc Ex_less_Suc)
  from renumber_makes_history [OF this] show ?thesis by blast
qed

text \<open>
  C21. Checking operations. For a model that partitions the history into at least one part (of
  fewer than \<open>2^63\<close> operations), has no \<open>Equal\<close> of its own, so that states are compared by equality,
  and steps without panicking on its operations, with clock readings that are all different in
  each part, a sort that sorts and no timeout that sets the kill flag, whatever the order in which
  the goroutines finish, \<open>CheckOperations\<close> returns and answers whether the operations of every partition can be put into an order that respects real time
  (no operation after one that was called only after it returned) and that the model accepts.
\<close>

theorem CheckOperations_decides:
  assumes part: "mo_Partition model = Some f" "f history = Inr parts" "parts \<noteq> []"
    and eq: "mo_Equal model = None"
    and times: "\<And>sub. sub \<in> set parts \<Longrightarrow> times_ok sub \<and> 2 * length sub < 2 ^ 64"
    and step: "\<And>sub op st. sub \<in> set parts \<Longrightarrow> op \<in> set sub \<Longrightarrow>
      \<exists>r. mo_Step model st (op_Input op) (op_Output op) = Inr r"
    and env: "sort_ok (pe_sort env)" "\<And>i k. \<not> pe_kills env i k" "pe_arr env = map Some js"
    and js: "distinct js" "set js = {..<length parts}"
  shows "CheckOperations env model history =
    Some (Inr (\<forall>sub \<in> set parts. op_linearizable
      (lmodel_of (fillDefault (pe_sprintv env) (pe_sprints env) model)) sub))"
  using check_partitions [OF part eq times step env js] .

text \<open>
  No partition, no answer. \<open>checkParallel\<close> on an empty list of partitions waits for a
  result that no goroutine will send: without a timeout it never returns, whatever the flags.
\<close>

theorem checkParallel_empty_blocks:
  "checkParallel mdl nilv [] computeInfo kills [] = None \<and>
   (\<exists>i. checkParallel mdl nilv [] False kills [None] = Some (Inr (Unknown, i)))"
  by (simp add: checkParallel_def)

end
