(* ===== verification/Kv_Model.thy ===== *)
theory Kv_Model
  imports Porc_Check "HOL-Library.Char_ord" "HOL-Library.List_Lexorder"
begin

text \<open>
  The key/value model of the service tests (\<open>src/models/kv.go\<close>) and what the checker says with
  it. The model partitions a history by key and steps the value of one key. The last part shows
  that this is enough: a history is linearizable as a whole map exactly when the part of every
  key is linearizable on its own.

  \<open>interface{}\<close> values are the datatype \<open>kv_value\<close>; a failed type assertion panics. The keys
  that \<open>range\<close> yields in some order are sorted by the code, so the partition does not depend on
  that order.
\<close>

section \<open>The model\<close>

record KvInput =
  ki_Op :: "8 word"
  ki_Key :: string
  ki_Value :: string

record KvOutput =
  ko_Value :: string

datatype kv_value = KvIn KvInput | KvOut KvOutput | KvNil

fun as_KvInput :: "kv_value \<Rightarrow> KvInput go" where
  "as_KvInput (KvIn i) = Inr i"
| "as_KvInput _ = Inl TypeAssertion"

fun as_KvOutput :: "kv_value \<Rightarrow> KvOutput go" where
  "as_KvOutput (KvOut out) = Inr out"
| "as_KvOutput _ = Inl TypeAssertion"

text \<open>The first loop of \<open>Partition\<close>: the operations of every key, in the order of the history.\<close>

fun group_by_key ::
  "kv_value operation list \<Rightarrow> (string \<Rightarrow> kv_value operation list option) \<Rightarrow>
   (string \<Rightarrow> kv_value operation list option) go" where
  "group_by_key [] m = Inr m"
| "group_by_key (v # vs) m =
     go_bind (as_KvInput (op_Input v)) (\<lambda>inp.
       let key = ki_Key inp;
           old = (case m key of None \<Rightarrow> [] | Some l \<Rightarrow> l)
       in group_by_key vs (m(key \<mapsto> old @ [v])))"

definition KvModel_Partition :: "kv_value operation list \<Rightarrow> kv_value operation list list go" where
  "KvModel_Partition history =
     go_bind (group_by_key history (\<lambda>_. None)) (\<lambda>m.
       let keys = sorted_list_of_set (dom m)
       in Inr (map (\<lambda>k. the (m k)) keys))"

definition KvModel_Init :: string where
  "KvModel_Init = ''''"

definition KvModel_Step :: "string \<Rightarrow> kv_value \<Rightarrow> kv_value \<Rightarrow> (bool \<times> string) go" where
  "KvModel_Step st input output =
     go_bind (as_KvInput input) (\<lambda>inp.
     go_bind (as_KvOutput output) (\<lambda>out.
       if ki_Op inp = 0 then Inr (ko_Value out = st, st)
       else if ki_Op inp = 1 then Inr (True, ki_Value inp)
       else Inr (True, st @ ki_Value inp)))"

definition quoted :: "string \<Rightarrow> string" where
  "quoted s = [CHR 0x27] @ s @ [CHR 0x27]"

definition KvModel_DescribeOperation :: "kv_value \<Rightarrow> kv_value \<Rightarrow> string go" where
  "KvModel_DescribeOperation input output =
     go_bind (as_KvInput input) (\<lambda>inp.
     go_bind (as_KvOutput output) (\<lambda>out.
       if ki_Op inp = 0 then Inr (''get('' @ quoted (ki_Key inp) @ '') -> '' @ quoted (ko_Value out))
       else if ki_Op inp = 1
       then Inr (''put('' @ quoted (ki_Key inp) @ '', '' @ quoted (ki_Value inp) @ '')'')
       else if ki_Op inp = 2
       then Inr (''append('' @ quoted (ki_Key inp) @ '', '' @ quoted (ki_Value inp) @ '')'')
       else Inr ''<invalid>''))"

definition KvModel :: "(string, kv_value) Model" where
  "KvModel =
     \<lparr>mo_Partition = Some KvModel_Partition, mo_PartitionEvent = None, mo_Init = KvModel_Init,
      mo_Step = KvModel_Step, mo_Equal = None,
      mo_DescribeOperation = Some KvModel_DescribeOperation, mo_DescribeState = None\<rparr>"

section \<open>The partition\<close>

text \<open>A call of the key/value service.\<close>

definition kv_op :: "kv_value operation \<Rightarrow> bool" where
  "kv_op x \<longleftrightarrow> (\<exists>i out. op_Input x = KvIn i \<and> op_Output x = KvOut out)"

fun kv_key :: "kv_value operation \<Rightarrow> string" where
  "kv_key x = (case op_Input x of KvIn i \<Rightarrow> ki_Key i | _ \<Rightarrow> '''')"

declare kv_key.simps [simp del]

definition key_part :: "kv_value operation list \<Rightarrow> string \<Rightarrow> kv_value operation list" where
  "key_part ops k = filter (\<lambda>x. kv_key x = k) ops"

lemma group_by_key_eq:
  assumes "\<forall>x \<in> set ops. kv_op x"
  shows "group_by_key ops m = Inr (\<lambda>k. if key_part ops k = [] then m k
      else Some ((case m k of None \<Rightarrow> [] | Some l \<Rightarrow> l) @ key_part ops k))"
  using assms
proof (induction ops arbitrary: m)
  case (Cons x ops)
  obtain i where i: "op_Input x = KvIn i" "kv_key x = ki_Key i"
    using Cons.prems by (auto simp: kv_op_def kv_key.simps)
  show ?case
    using Cons i by (auto simp: key_part_def Let_def fun_eq_iff split: option.splits)
qed (simp add: key_part_def)

lemma KvModel_Partition_eq:
  assumes "\<forall>x \<in> set ops. kv_op x"
  shows "KvModel_Partition ops = Inr (map (key_part ops) (sorted_list_of_set (kv_key ` set ops)))"
proof -
  let ?m = "\<lambda>k. if key_part ops k = [] then None else Some (key_part ops k)"
  have g: "group_by_key ops (\<lambda>_. None) = Inr ?m"
    using group_by_key_eq [OF assms, of "\<lambda>_. None"] by (simp cong: if_cong)
  have d: "dom ?m = kv_key ` set ops"
    by (auto simp: dom_def key_part_def filter_empty_conv split: if_splits)
  have "map (\<lambda>k. the (?m k)) (sorted_list_of_set (dom ?m)) =
      map (key_part ops) (sorted_list_of_set (kv_key ` set ops))"
    unfolding d by (rule map_cong [OF refl]) (auto simp: key_part_def filter_empty_conv)
  then show ?thesis by (simp add: KvModel_Partition_def g Let_def)
qed

section \<open>Keys one by one and the whole map\<close>

text \<open>The specification for a whole history: the operations act on a map.\<close>

fun kv_legal :: "(string \<Rightarrow> string) \<Rightarrow> kv_value operation list \<Rightarrow> bool" where
  "kv_legal m [] \<longleftrightarrow> True"
| "kv_legal m (x # xs) \<longleftrightarrow>
     (case KvModel_Step (m (kv_key x)) (op_Input x) (op_Output x) of
        Inr (True, s') \<Rightarrow> kv_legal (m(kv_key x := s')) xs | _ \<Rightarrow> False)"

definition kv_linearizable :: "kv_value operation list \<Rightarrow> bool" where
  "kv_linearizable ops \<longleftrightarrow>
     (\<exists>ord. mset ord = mset ops \<and> in_real_time ord \<and> kv_legal (\<lambda>_. KvModel_Init) ord)"

definition kv_lmodel :: "(string, kv_value) lmodel" where
  "kv_lmodel = \<lparr>lm_Init = KvModel_Init, lm_Step = KvModel_Step, lm_Equal = ShallowEqual\<rparr>"

lemma kv_Init: "lm_Init kv_lmodel = KvModel_Init"
  by (simp add: kv_lmodel_def)

lemma kv_legal_Cons:
  "kv_legal m (x # xs) \<longleftrightarrow>
     (\<exists>s'. KvModel_Step (m (kv_key x)) (op_Input x) (op_Output x) = Inr (True, s') \<and>
           kv_legal (m(kv_key x := s')) xs)"
  by (auto split: sum.splits prod.splits bool.splits)

lemma kv_op_legal_Cons:
  "op_legal kv_lmodel s (x # xs) \<longleftrightarrow>
     (\<exists>s'. KvModel_Step s (op_Input x) (op_Output x) = Inr (True, s') \<and> op_legal kv_lmodel s' xs)"
  unfolding op_legal_Cons by (simp add: kv_lmodel_def)

text \<open>What a whole order does on one key.\<close>

lemma kv_legal_key: "kv_legal m ord \<Longrightarrow> op_legal kv_lmodel (m k) (key_part ord k)"
proof (induction ord arbitrary: m)
  case (Cons x ord)
  then obtain s' where s': "KvModel_Step (m (kv_key x)) (op_Input x) (op_Output x) = Inr (True, s')"
    "kv_legal (m(kv_key x := s')) ord"
    using kv_legal_Cons by blast
  have "op_legal kv_lmodel ((m(kv_key x := s')) k) (key_part ord k)"
    using Cons.IH s'(2) by blast
  then show ?case
    using s'(1) by (auto simp: key_part_def kv_op_legal_Cons simp del: op_legal.simps(2))
qed (simp add: key_part_def)

text \<open>Orders of the single keys can be merged: among the operations that are left, the first of
  the key whose operation returns first was called before any of them returned.\<close>

lemma merge_keys:
  assumes "finite K"
    and "\<And>k. k \<in> K \<Longrightarrow> in_real_time (F k)"
    and "\<And>k x. k \<in> K \<Longrightarrow> x \<in> set (F k) \<Longrightarrow> kv_key x = k \<and> op_Call x < op_Return x"
    and "\<And>k. k \<in> K \<Longrightarrow> op_legal kv_lmodel (m k) (F k)"
  shows "\<exists>ord. mset ord = (\<Sum>k \<in> K. mset (F k)) \<and> in_real_time ord \<and> kv_legal m ord"
  using assms(2-)
proof (induction "\<Sum>k \<in> K. length (F k)" arbitrary: F m)
  case 0
  then have "(\<Sum>k \<in> K. mset (F k)) = {#}" using assms(1) by simp
  then show ?case by (intro exI [of _ "[]"]) (simp add: in_real_time_def)
next
  case (Suc n)
  let ?all = "\<Union>k \<in> K. set (F k)"
  have fin: "finite ?all" using assms(1) by simp
  have "?all \<noteq> {}"
  proof
    assume "?all = {}"
    then have "(\<Sum>k \<in> K. length (F k)) = 0" by simp
    then show False using Suc(2) by simp
  qed
  then obtain r where r: "r \<in> ?all" "\<And>y. y \<in> ?all \<Longrightarrow> op_Return r \<le> op_Return y"
    using arg_min_if_finite [OF fin, of op_Return] by (metis linorder_not_less)
  then obtain k where k: "k \<in> K" "r \<in> set (F k)" by auto
  then obtain h t where F: "F k = h # t" by (cases "F k") auto
  have hk: "kv_key h = k" using Suc(4) [OF k(1)] F by auto
  have early: "op_Call h \<le> op_Return r"
  proof (cases "r = h")
    case True
    then show ?thesis using Suc(4) [OF k] by auto
  next
    case False
    then have "r \<in> set t" using k(2) F by auto
    then show ?thesis using Suc(3) [OF k(1)] F by (auto simp: in_real_time_def)
  qed
  obtain s' where s': "KvModel_Step (m k) (op_Input h) (op_Output h) = Inr (True, s')"
    "op_legal kv_lmodel s' t"
    using Suc(5) [OF k(1)] F kv_op_legal_Cons by metis
  let ?F = "F(k := t)" and ?m = "m(k := s')"
  have sums: "(\<Sum>j \<in> K. g (F j)) = g (h # t) + (\<Sum>j \<in> K - {k}. g (F j))"
    "(\<Sum>j \<in> K. g (?F j)) = g t + (\<Sum>j \<in> K - {k}. g (F j))"
    for g :: "kv_value operation list \<Rightarrow> 'z :: comm_monoid_add"
    using sum.remove [OF assms(1) k(1), of "\<lambda>j. g (F j)"]
      sum.remove [OF assms(1) k(1), of "\<lambda>j. g (?F j)"] F by simp_all
  have "n = (\<Sum>j \<in> K. length (?F j))" using Suc(2) sums [of length] by simp
  moreover have "in_real_time (?F j)" if "j \<in> K" for j
    using Suc(3) [OF that] Suc(3) [OF k(1)] F by (auto simp: in_real_time_def)
  moreover have "kv_key x = j \<and> op_Call x < op_Return x" if "j \<in> K" "x \<in> set (?F j)" for j x
    using Suc(4) [OF that(1), of x] Suc(4) [OF k(1), of x] F that(2) by (auto split: if_splits)
  moreover have "op_legal kv_lmodel (?m j) (?F j)" if "j \<in> K" for j
    using Suc(5) [OF that] s'(2) by simp
  ultimately obtain ord where ord: "mset ord = (\<Sum>j \<in> K. mset (?F j))" "in_real_time ord"
    "kv_legal ?m ord"
    using Suc(1) [of ?F ?m] by blast
  have "mset (h # ord) = (\<Sum>j \<in> K. mset (F j))" using ord(1) sums [of mset] by simp
  moreover have "set ord \<subseteq> ?all"
  proof -
    have "set_mset (mset (h # ord)) = ?all"
      unfolding \<open>mset (h # ord) = _\<close> using assms(1) by (simp add: set_mset_sum)
    then show ?thesis by auto
  qed
  then have "in_real_time (h # ord)"
    using ord(2) early r(2) by (force simp: in_real_time_def)
  moreover have "kv_legal m (h # ord)"
    using ord(3) s'(1) hk by (simp add: kv_legal_Cons del: kv_legal.simps)
  ultimately show ?case by blast
qed

lemma in_real_time_key: "in_real_time ord \<Longrightarrow> in_real_time (key_part ord k)"
  unfolding in_real_time_def key_part_def by (rule sorted_wrt_filter)

lemma key_part_mset: "mset (key_part ord k) = filter_mset (\<lambda>x. kv_key x = k) (mset ord)"
  by (simp add: key_part_def)

lemma kv_linearizable_iff:
  assumes "\<forall>x \<in> set ops. op_Call x < op_Return x"
  shows "kv_linearizable ops \<longleftrightarrow> (\<forall>k \<in> kv_key ` set ops. op_linearizable kv_lmodel (key_part ops k))"
proof
  assume "kv_linearizable ops"
  then obtain ord where o: "mset ord = mset ops" "in_real_time ord" "kv_legal (\<lambda>_. KvModel_Init) ord"
    unfolding kv_linearizable_def by blast
  have "mset (key_part ord k) = mset (key_part ops k)" for k by (simp add: key_part_mset o(1))
  then show "\<forall>k \<in> kv_key ` set ops. op_linearizable kv_lmodel (key_part ops k)"
    using kv_legal_key [OF o(3)] in_real_time_key [OF o(2)]
    unfolding op_linearizable_def kv_Init by blast
next
  assume "\<forall>k \<in> kv_key ` set ops. op_linearizable kv_lmodel (key_part ops k)"
  then obtain F where F: "\<And>k. k \<in> kv_key ` set ops \<Longrightarrow> mset (F k) = mset (key_part ops k) \<and>
      in_real_time (F k) \<and> op_legal kv_lmodel KvModel_Init (F k)"
    unfolding op_linearizable_def kv_Init by metis
  have sub: "set (F k) = set (key_part ops k)" if "k \<in> kv_key ` set ops" for k
    using F [OF that] mset_eq_setD by blast
  obtain ord where ord: "mset ord = (\<Sum>k \<in> kv_key ` set ops. mset (F k))" "in_real_time ord"
    "kv_legal (\<lambda>_. KvModel_Init) ord"
  proof -
    have "kv_key x = k \<and> op_Call x < op_Return x" if "k \<in> kv_key ` set ops" "x \<in> set (F k)" for k x
      using sub [OF that(1)] that(2) assms by (auto simp: key_part_def)
    then have "\<exists>ord. mset ord = (\<Sum>k \<in> kv_key ` set ops. mset (F k)) \<and> in_real_time ord \<and>
        kv_legal (\<lambda>_. KvModel_Init) ord"
      using F by (intro merge_keys) blast+
    then show thesis using that by blast
  qed
  have "(\<Sum>k \<in> kv_key ` set ops. mset (F k)) = (\<Sum>k \<in> kv_key ` set ops. mset (key_part ops k))"
    using F by (intro sum.cong) auto
  also have "\<dots> = mset ops"
  proof (rule multiset_eqI)
    fix x
    have "count (\<Sum>k \<in> kv_key ` set ops. mset (key_part ops k)) x =
        (\<Sum>k \<in> kv_key ` set ops. if kv_key x = k then count (mset ops) x else 0)"
      by (simp add: count_sum key_part_mset)
    also have "\<dots> = count (mset ops) x"
      by (auto simp: sum.delta' count_mset_0_iff)
    finally show "count (\<Sum>k \<in> kv_key ` set ops. mset (key_part ops k)) x = count (mset ops) x" .
  qed
  finally show "kv_linearizable ops"
    unfolding kv_linearizable_def using ord by metis
qed

section \<open>Properties\<close>

text \<open>A put of \<open>''5''\<close> and a get that overlaps it and still reads the empty value.\<close>

definition sample_put :: "kv_value operation" where
  "sample_put = \<lparr>op_ClientId = 0, op_Input = KvIn \<lparr>ki_Op = 1, ki_Key = ''x'', ki_Value = ''5''\<rparr>,
     op_Call = 1, op_Output = KvOut \<lparr>ko_Value = ''''\<rparr>, op_Return = 4\<rparr>"

definition sample_get :: "kv_value operation" where
  "sample_get = \<lparr>op_ClientId = 1, op_Input = KvIn \<lparr>ki_Op = 0, ki_Key = ''x'', ki_Value = ''''\<rparr>,
     op_Call = 2, op_Output = KvOut \<lparr>ko_Value = ''''\<rparr>, op_Return = 3\<rparr>"

definition sample_env :: "(string, kv_value) porc_env" where
  "sample_env = \<lparr>pe_sprintv = (\<lambda>_. ''''), pe_sprints = (\<lambda>s. s), pe_nil = KvNil,
     pe_sort = sort_key e_time, pe_kills = (\<lambda>_ _. False), pe_arr = [Some 0]\<rparr>"

lemma sample_kv:
  "kv_op sample_put" "kv_op sample_get" "kv_key sample_put = ''x''" "kv_key sample_get = ''x''"
  "times_ok [sample_put, sample_get]" "sort_ok (pe_sort sample_env)"
  by (simp_all add: kv_op_def kv_key.simps sample_put_def sample_get_def times_ok_def sort_ok_def
      sample_env_def)

lemma sample_kv_linearizable: "kv_linearizable [sample_put, sample_get]"
proof -
  have "kv_legal (\<lambda>_. KvModel_Init) [sample_get, sample_put]" "in_real_time [sample_get, sample_put]"
    by (simp_all add: in_real_time_def sample_get_def sample_put_def kv_key.simps KvModel_Step_def
        KvModel_Init_def)
  then show ?thesis unfolding kv_linearizable_def by (intro exI [of _ "[sample_get, sample_put]"]) simp
qed

lemma sample_partition:
  "KvModel_Partition [sample_put, sample_get] = Inr [[sample_put, sample_get]]"
  by (subst KvModel_Partition_eq) (simp_all add: sample_kv key_part_def)

lemma kv_step_total: "kv_op x \<Longrightarrow> \<exists>r. KvModel_Step st (op_Input x) (op_Output x) = Inr r"
  by (auto simp: kv_op_def KvModel_Step_def)

theorem CheckOperations_decides_witness:
  "\<exists>b. CheckOperations sample_env KvModel [sample_put, sample_get] = Some (Inr b)"
proof -
  have "CheckOperations sample_env KvModel [sample_put, sample_get] =
    Some (Inr (\<forall>sub \<in> set [[sample_put, sample_get]]. op_linearizable
      (lmodel_of (fillDefault (pe_sprintv sample_env) (pe_sprints sample_env) KvModel)) sub))"
  proof (rule CheckOperations_decides [where f = KvModel_Partition and js = "[0]"])
    show "set [0] = {..<length [[sample_put, sample_get]]}" by auto
    show "\<exists>r. mo_Step KvModel st (op_Input x) (op_Output x) = Inr r"
      if s: "sub \<in> set [[sample_put, sample_get]]" and x: "x \<in> set sub" for sub x st
      using s x kv_step_total sample_kv by (auto simp: KvModel_def)
    show "times_ok sub \<and> 2 * length sub < 2 ^ 64" if s: "sub \<in> set [[sample_put, sample_get]]" for sub
      using s sample_kv by auto
    show "sort_ok (pe_sort sample_env)" by (rule sample_kv)
  qed (simp_all add: sample_partition KvModel_def sample_env_def)
  then show ?thesis by blast
qed

text \<open>
  C22. Locality. A history of key/value operations, each of which takes time, is linearizable as
  operations on one map exactly when, for every key, its operations on that key are linearizable
  on their own. This is what makes the model's partition by key sound and complete.
\<close>

theorem kv_locality:
  assumes "\<forall>x \<in> set ops. kv_op x \<and> op_Call x < op_Return x"
  shows "\<exists>parts. KvModel_Partition ops = Inr parts \<and>
    (kv_linearizable ops \<longleftrightarrow> (\<forall>sub \<in> set parts. op_linearizable kv_lmodel sub))"
  using KvModel_Partition_eq [of ops] kv_linearizable_iff [of ops] assms by auto

theorem kv_locality_witness:
  "\<exists>parts. KvModel_Partition [sample_put, sample_get] = Inr parts \<and>
     (\<forall>sub \<in> set parts. op_linearizable kv_lmodel sub)"
  using kv_locality [of "[sample_put, sample_get]"] sample_kv sample_kv_linearizable
  by (auto simp: times_ok_def)

text \<open>
  C23. The service check end to end. For every non-empty history of fewer than \<open>2^63\<close> key/value
  operations with clock readings that are all different, a sort that sorts and no timeout that
  sets the kill flag, and whatever the order in which the goroutines finish,
  \<open>CheckOperations(KvModel, history)\<close> returns, and it returns true exactly when the history is
  linearizable as operations on one map.
\<close>

theorem CheckOperations_KvModel:
  assumes ops: "\<forall>x \<in> set ops. kv_op x" "ops \<noteq> []" "times_ok ops" "2 * length ops < 2 ^ 64"
    and env: "sort_ok (pe_sort env)" "\<And>i k. \<not> pe_kills env i k" "pe_arr env = map Some js"
    and js: "distinct js" "set js = {..<card (kv_key ` set ops)}"
  shows "CheckOperations env KvModel ops = Some (Inr (kv_linearizable ops))"
proof -
  define parts where "parts = map (key_part ops) (sorted_list_of_set (kv_key ` set ops))"
  have p: "KvModel_Partition ops = Inr parts" "parts \<noteq> []" "length parts = card (kv_key ` set ops)"
    using KvModel_Partition_eq [OF ops(1)] ops(2) by (simp_all add: parts_def)
  have sub: "times_ok sub \<and> 2 * length sub < 2 ^ 64 \<and> set sub \<subseteq> set ops" if s: "sub \<in> set parts" for sub
  proof -
    obtain k where k: "sub = filter (\<lambda>x. kv_key x = k) ops"
      using s by (auto simp: parts_def key_part_def)
    have "length sub \<le> length ops" "set sub \<subseteq> set ops" unfolding k by auto
    moreover have "times_ok sub"
      using ops(3) unfolding k times_ok_def by (auto intro: distinct_map_filter)
    ultimately show ?thesis using ops(4) by simp
  qed
  have model: "mo_Partition KvModel = Some KvModel_Partition" "mo_Equal KvModel = None"
    "mo_Step KvModel = KvModel_Step" by (simp_all add: KvModel_def)
  have "lmodel_of (fillDefault (pe_sprintv env) (pe_sprints env) KvModel) = kv_lmodel"
    by (simp add: lmodel_of_def fillDefault_def KvModel_def kv_lmodel_def Let_def)
  moreover have "CheckOperations env KvModel ops = Some (Inr (\<forall>sub \<in> set parts. op_linearizable
      (lmodel_of (fillDefault (pe_sprintv env) (pe_sprints env) KvModel)) sub))"
  proof (rule check_partitions [OF model(1) p(1,2) model(2) _ _ env js(1)])
    show "set js = {..<length parts}" using js(2) p(3) by simp
    show "\<exists>r. mo_Step KvModel st (op_Input x) (op_Output x) = Inr r"
      if "s \<in> set parts" "x \<in> set s" for s x st
      using sub [OF that(1)] that(2) ops(1) kv_step_total unfolding model(3) by blast
  qed (use sub in blast)
  moreover have "(\<forall>sub \<in> set parts. op_linearizable kv_lmodel sub) = kv_linearizable ops"
    using kv_linearizable_iff [of ops] ops(3) by (auto simp: parts_def times_ok_def)
  ultimately show ?thesis by simp
qed

theorem CheckOperations_KvModel_witness:
  "CheckOperations sample_env KvModel [sample_put, sample_get] = Some (Inr True)"
proof -
  have "set [0] = {..<card (kv_key ` set [sample_put, sample_get])}" by (auto simp: sample_kv)
  then show ?thesis
    using CheckOperations_KvModel [of "[sample_put, sample_get]" sample_env "[0]"] sample_kv
      sample_kv_linearizable by (auto simp: sample_env_def)
qed

end
