(* ===== verification/Porc_Visual.thy ===== *)
theory Porc_Visual
  imports Porc_Check
begin

text \<open>
  \<open>porcupine/visualization.go\<close> up to the page it prints: from what the checker found it computes, for
  every partition, the operations with their times, the replayed partial linearizations, and for
  each operation the longest partial linearization that contains it. The page itself and its
  writing are left out: the rest of the file is a string of HTML and JavaScript.
\<close>

section \<open>The data\<close>

record historyElement =
  he_ClientId :: int
  he_Start :: int
  he_End :: int
  he_Description :: string

record linearizationStep =
  ls_Index :: int
  ls_StateDescription :: string

record partitionVisualizationData =
  pv_History :: "historyElement list"
  pv_PartialLinearizations :: "linearizationStep list list"
  pv_Largest :: "int \<rightharpoonup> nat"

definition zero_element :: historyElement where
  "zero_element = \<lparr>he_ClientId = 0, he_Start = 0, he_End = 0, he_Description = ''''\<rparr>"

text \<open>The values of calls and returns by id; one that is missing from a map is \<open>nil\<close>.\<close>

type_synonym 'v vals = "int \<rightharpoonup> 'v"

definition value_at :: "'v \<Rightarrow> 'v vals \<Rightarrow> int \<Rightarrow> 'v" where
  "value_at nil m k = (case m k of Some v \<Rightarrow> v | None \<Rightarrow> nil)"

definition viz_entry ::
  "('s, 'v) Model \<Rightarrow> 'v \<Rightarrow> 'v hentry \<Rightarrow> historyElement list \<times> 'v vals \<times> 'v vals \<Rightarrow>
   (historyElement list \<times> 'v vals \<times> 'v vals) go" where
  "viz_entry model nil el s =
     (case s of (history, callValue, returnValue) \<Rightarrow>
        go_bind (go_nth history (e_id el)) (\<lambda>h.
          if e_kind el = callEntry
          then Inr (history[nat (e_id el) := h\<lparr>he_ClientId := e_clientId el, he_Start := e_time el\<rparr>],
                    callValue(e_id el \<mapsto> e_value el), returnValue)
          else
            go_bind (go_fn (mo_DescribeOperation model)) (\<lambda>describe.
            go_bind (describe (value_at nil callValue (e_id el)) (e_value el)) (\<lambda>d.
              Inr (history[nat (e_id el) := h\<lparr>he_End := e_time el, he_Description := d\<rparr>],
                   callValue, returnValue(e_id el \<mapsto> e_value el))))))"

text \<open>The replay of one partial linearization.\<close>

fun replay ::
  "('s, 'v) Model \<Rightarrow> ('s \<Rightarrow> string) \<Rightarrow> (int \<Rightarrow> 'v) \<Rightarrow> (int \<Rightarrow> 'v) \<Rightarrow> 's \<Rightarrow> int list \<Rightarrow> linearizationStep list go" where
  "replay model describe callv retv st [] = Inr []"
| "replay model describe callv retv st (histId # hids) =
     go_bind (mo_Step model st (callv histId) (retv histId)) (\<lambda>(ok, st').
       if ok \<noteq> True then Inl (Fatal ''valid partial linearization returned non-ok result from model step'')
       else go_bind (replay model describe callv retv st' hids) (\<lambda>steps.
              Inr (\<lparr>ls_Index = histId, ls_StateDescription = describe st'\<rparr> # steps)))"

text \<open>The maps \<open>largestSize\<close> and \<open>largestIndex\<close>, for the operations of the partial linearization number \<open>i\<close>.\<close>

definition note_largest :: "nat \<Rightarrow> nat \<Rightarrow> int \<Rightarrow> (int \<Rightarrow> nat) \<times> (int \<rightharpoonup> nat) \<Rightarrow> (int \<Rightarrow> nat) \<times> (int \<rightharpoonup> nat)" where
  "note_largest i len histId s =
     (case s of (largestSize, largestIndex) \<Rightarrow>
        if largestSize histId < len then (largestSize(histId := len), largestIndex(histId \<mapsto> i)) else s)"

definition viz_partial ::
  "('s, 'v) Model \<Rightarrow> ('s \<Rightarrow> string) \<Rightarrow> (int \<Rightarrow> 'v) \<Rightarrow> (int \<Rightarrow> 'v) \<Rightarrow> nat \<times> int list \<Rightarrow>
   linearizationStep list list \<times> (int \<Rightarrow> nat) \<times> (int \<rightharpoonup> nat) \<Rightarrow>
   (linearizationStep list list \<times> (int \<Rightarrow> nat) \<times> (int \<rightharpoonup> nat)) go" where
  "viz_partial model describe callv retv ip s =
     (case ip of (i, partial) \<Rightarrow> case s of (linearizations, largest) \<Rightarrow>
        go_bind (replay model describe callv retv (mo_Init model) partial) (\<lambda>linearization.
          Inr (linearizations @ [linearization], fold (note_largest i (length partial)) partial largest)))"

text \<open>\<open>sorter\<close> is \<open>sort.Slice\<close> with the comparison of lengths.\<close>

definition viz_partition ::
  "(int list list \<Rightarrow> int list list) \<Rightarrow> ('s, 'v) Model \<Rightarrow> 'v \<Rightarrow> 'v hentry list \<Rightarrow> int list list \<Rightarrow> partitionVisualizationData go" where
  "viz_partition sorter model nil entries partials =
     (let n = length entries div 2 in
      go_bind (go_fold (viz_entry model nil) entries (replicate n zero_element, Map.empty, Map.empty)) (\<lambda>(history, callValue, returnValue).
      go_bind (go_fn (mo_DescribeState model)) (\<lambda>describe.
      go_bind (go_fold (viz_partial model describe (value_at nil callValue) (value_at nil returnValue))
                 (enumerate 0 (sorter partials)) ([], (\<lambda>_. 0), Map.empty)) (\<lambda>(linearizations, _, largestIndex).
        Inr \<lparr>pv_History = history, pv_PartialLinearizations = linearizations, pv_Largest = largestIndex\<rparr>))))"

fun viz_partitions ::
  "(int list list \<Rightarrow> int list list) \<Rightarrow> ('s, 'v) Model \<Rightarrow> 'v \<Rightarrow> 'v hentry list list \<Rightarrow> int list list list \<Rightarrow>
   partitionVisualizationData list go" where
  "viz_partitions sorter model nil [] ps = Inr []"
| "viz_partitions sorter model nil (h # hs) [] = Inl IndexOutOfRange"
| "viz_partitions sorter model nil (h # hs) (p # ps) =
     go_bind (viz_partition sorter model nil h p) (\<lambda>d.
     go_bind (viz_partitions sorter model nil hs ps) (\<lambda>ds. Inr (d # ds)))"

definition computeVisualizationData ::
  "('v \<Rightarrow> string) \<Rightarrow> ('s \<Rightarrow> string) \<Rightarrow> (int list list \<Rightarrow> int list list) \<Rightarrow> 'v \<Rightarrow> ('s, 'v) Model \<Rightarrow> 'v linearizationInfo \<Rightarrow>
   partitionVisualizationData list go" where
  "computeVisualizationData sprintv sprints sorter nil model0 info =
     (let model = fillDefault sprintv sprints model0
      in viz_partitions sorter model nil (li_history info) (li_partialLinearizations info))"

section \<open>The longest partial linearizations\<close>

lemma note_largest_fold:
  "fold (note_largest i len) hs (sz, ix) =
     ((\<lambda>h. if h \<in> set hs \<and> sz h < len then len else sz h), (\<lambda>h. if h \<in> set hs \<and> sz h < len then Some i else ix h))"
  by (induction hs arbitrary: sz ix) (auto simp: note_largest_def fun_eq_iff)

lemma replay_indexes: "replay model describe callv retv st p = Inr steps \<Longrightarrow> map ls_Index steps = p"
  by (induction p arbitrary: st steps) (auto simp: go_bind_Inr_iff split: if_splits)

text \<open>The first of the lists that contains \<open>h\<close>.\<close>

definition first_with :: "int \<Rightarrow> int list list \<Rightarrow> nat \<Rightarrow> bool" where
  "first_with h ps i \<longleftrightarrow> i < length ps \<and> h \<in> set (ps ! i) \<and> (\<forall>j < i. h \<notin> set (ps ! j))"

lemma viz_partials:
  assumes "sorted_wrt (\<lambda>p q. length p \<ge> length q) ps"
    and "\<forall>p \<in> set ps. \<exists>steps. replay model describe callv retv (mo_Init model) p = Inr steps"
  shows "\<exists>ls sz ix. go_fold (viz_partial model describe callv retv) (enumerate 0 ps) ([], (\<lambda>_. 0), Map.empty) = Inr (ls, sz, ix) \<and>
    map (map ls_Index) ls = ps \<and> (\<forall>h. ix h = None \<longleftrightarrow> (\<forall>p \<in> set ps. h \<notin> set p)) \<and>
    (\<forall>h i. ix h = Some i \<longrightarrow> first_with h ps i) \<and>
    (\<forall>h. sz h = (case ix h of None \<Rightarrow> 0 | Some i \<Rightarrow> length (ps ! i)))"
  using assms
proof (induction ps rule: rev_induct)
  case (snoc p ps)
  obtain ls sz ix where IH: "go_fold (viz_partial model describe callv retv) (enumerate 0 ps) ([], (\<lambda>_. 0), Map.empty) = Inr (ls, sz, ix)"
    "map (map ls_Index) ls = ps" "\<And>h. ix h = None \<longleftrightarrow> (\<forall>p \<in> set ps. h \<notin> set p)"
    "\<And>h i. ix h = Some i \<Longrightarrow> first_with h ps i" "\<And>h. sz h = (case ix h of None \<Rightarrow> 0 | Some i \<Rightarrow> length (ps ! i))"
    using snoc by (auto simp: sorted_wrt_append)
  obtain steps where st: "replay model describe callv retv (mo_Init model) p = Inr steps" using snoc.prems(2) by auto
  let ?ix = "\<lambda>h. if h \<in> set p \<and> sz h < length p then Some (length ps) else ix h"
  let ?sz = "\<lambda>h. if h \<in> set p \<and> sz h < length p then length p else sz h"
  have run: "go_fold (viz_partial model describe callv retv) (enumerate 0 (ps @ [p])) ([], (\<lambda>_. 0), Map.empty) =
      Inr (ls @ [steps], ?sz, ?ix)"
    by (simp add: enumerate_append_eq go_fold_append IH(1) viz_partial_def st note_largest_fold)
  have new: "h \<in> set p \<and> sz h < length p \<longleftrightarrow> h \<in> set p \<and> ix h = None" for h
  proof (cases "ix h")
    case None
    then show ?thesis using IH(5) [of h] by (cases p) auto
  next
    case (Some i)
    then have "i < length ps" using IH(4) by (auto simp: first_with_def)
    then have "length p \<le> length (ps ! i)" using snoc.prems(1) by (auto simp: sorted_wrt_append)
    then show ?thesis using IH(5) [of h] Some by simp
  qed
  have "?ix h = None \<longleftrightarrow> (\<forall>q \<in> set (ps @ [p]). h \<notin> set q)" for h unfolding new using IH(3) by auto
  moreover have "first_with h (ps @ [p]) i" if "?ix h = Some i" for h i
    using that IH(4) [of h i] IH(3) [of h] unfolding new
    by (auto simp: first_with_def nth_append split: if_splits)
  moreover have "?sz h = (case ?ix h of None \<Rightarrow> 0 | Some i \<Rightarrow> length ((ps @ [p]) ! i))" for h
  proof (cases "h \<in> set p \<and> sz h < length p")
    case True
    then show ?thesis by simp
  next
    case False
    then have "?ix h = ix h" "?sz h = sz h" by auto
    then show ?thesis using IH(5) [of h] IH(4) [of h] by (auto simp: first_with_def nth_append split: option.splits)
  qed
  ultimately show ?case using run IH(2) replay_indexes [OF st] by (intro exI [of _ "ls @ [steps]"] exI [of _ ?sz] exI [of _ ?ix]) simp
qed simp

section \<open>The operations\<close>

definition values_of :: "bool \<Rightarrow> 'v hentry list \<Rightarrow> 'v vals" where
  "values_of kind es = map_of (map (\<lambda>e. (e_id e, e_value e)) (filter (\<lambda>e. e_kind e = kind) es))"

definition shown :: "'v hentry \<Rightarrow> historyElement \<Rightarrow> bool" where
  "shown e h \<longleftrightarrow> (if e_kind e = callEntry then he_Start h = e_time e \<and> he_ClientId h = e_clientId e else he_End h = e_time e)"

lemma values_of_snoc:
  assumes "(e_kind e, e_id e) \<notin> (\<lambda>e. (e_kind e, e_id e)) ` set es"
  shows "values_of kind (es @ [e]) = (if e_kind e = kind then (values_of kind es)(e_id e \<mapsto> e_value e) else values_of kind es)"
proof -
  have "values_of kind es (e_id e) = None" if "e_kind e = kind"
    using assms that by (force simp: values_of_def map_of_eq_None_iff)
  moreover have "values_of kind (es @ [e]) = map_of (if e_kind e = kind then [(e_id e, e_value e)] else []) ++ values_of kind es"
    by (simp add: values_of_def)
  ultimately show ?thesis by (cases "e_kind e = kind") (auto simp: map_add_def fun_eq_iff split: option.split)
qed

lemma viz_entries:
  assumes "distinct (map (\<lambda>e. (e_kind e, e_id e)) es)" and "\<forall>e \<in> set es. 0 \<le> e_id e \<and> e_id e < int n"
    and "mo_DescribeOperation model = Some f" and "\<forall>a b. \<exists>d. f a b = Inr d"
  shows "\<exists>hist. go_fold (viz_entry model nil) es (replicate n zero_element, Map.empty, Map.empty) =
      Inr (hist, values_of callEntry es, values_of returnEntry es) \<and> length hist = n \<and>
      (\<forall>e \<in> set es. shown e (hist ! nat (e_id e)))"
  using assms(1,2)
proof (induction es rule: rev_induct)
  case Nil
  then show ?case by (simp add: values_of_def)
next
  case (snoc e es)
  obtain hist where IH: "go_fold (viz_entry model nil) es (replicate n zero_element, Map.empty, Map.empty) =
      Inr (hist, values_of callEntry es, values_of returnEntry es)" "length hist = n" "\<forall>e \<in> set es. shown e (hist ! nat (e_id e))"
    using snoc by auto
  have id: "0 \<le> e_id e" "nat (e_id e) < n" using snoc.prems(2) by auto
  have new: "(e_kind e, e_id e) \<notin> (\<lambda>e. (e_kind e, e_id e)) ` set es" using snoc.prems(1) by auto
  obtain d where d: "f (value_at nil (values_of callEntry es) (e_id e)) (e_value e) = Inr d" using assms(4) by blast
  let ?h = "hist ! nat (e_id e)"
  let ?h' = "if e_kind e = callEntry then ?h\<lparr>he_ClientId := e_clientId e, he_Start := e_time e\<rparr>
    else ?h\<lparr>he_End := e_time e, he_Description := d\<rparr>"
  have "viz_entry model nil e (hist, values_of callEntry es, values_of returnEntry es) =
      Inr (hist[nat (e_id e) := ?h'], values_of callEntry (es @ [e]), values_of returnEntry (es @ [e]))"
    using id IH(2) assms(3) d unfolding values_of_snoc [OF new]
    by (auto simp: viz_entry_def go_nth_def callEntry_def returnEntry_def)
  then have run: "go_fold (viz_entry model nil) (es @ [e]) (replicate n zero_element, Map.empty, Map.empty) =
      Inr (hist[nat (e_id e) := ?h'], values_of callEntry (es @ [e]), values_of returnEntry (es @ [e]))"
    by (simp add: go_fold_append IH(1))
  have "shown x (hist[nat (e_id e) := ?h'] ! nat (e_id x))" if "x \<in> set (es @ [e])" for x
  proof (cases "x \<in> set es")
    case True
    then have "shown x (hist ! nat (e_id x))" "(e_kind x, e_id x) \<noteq> (e_kind e, e_id e)" using IH(3) new by auto
    moreover have "0 \<le> e_id x" using snoc.prems(2) True by simp
    ultimately show ?thesis using id IH(2)
      by (cases "e_id x = e_id e") (auto simp: shown_def nth_list_update callEntry_def)
  next
    case False
    then have "x = e" using that by simp
    then show ?thesis using id IH(2) by (simp add: shown_def)
  qed
  then show ?case using run IH(2) by auto
qed

section \<open>Properties\<close>

text \<open>
  C33. The data of the visualization. For a complete history and partial linearizations that the model can
  replay, computing the data of a partition does not panic; it gives each operation its client and
  times, shows every partial linearization in order, and for each operation points to a partial
  linearization that contains it and than which no other that contains it is longer.
\<close>

theorem visualization_shows_longest:
  assumes "wf_history entries" and "mo_DescribeOperation model = Some f" and "\<forall>a b. \<exists>d. f a b = Inr d"
    and "mo_DescribeState model = Some g"
    and "mset (sorter ps) = mset ps" and "sorted_wrt (\<lambda>p q. length p \<ge> length q) (sorter ps)"
    and "\<forall>p \<in> set ps. \<exists>steps. replay model g (value_at nil (values_of callEntry entries))
           (value_at nil (values_of returnEntry entries)) (mo_Init model) p = Inr steps"
  shows "\<exists>d. viz_partition sorter model nil entries ps = Inr d \<and>
    (\<forall>e \<in> set entries. shown e (pv_History d ! nat (e_id e))) \<and>
    map (map ls_Index) (pv_PartialLinearizations d) = sorter ps \<and>
    (\<forall>h. pv_Largest d h = None \<longleftrightarrow> (\<forall>p \<in> set ps. h \<notin> set p)) \<and>
    (\<forall>h i. pv_Largest d h = Some i \<longrightarrow> i < length ps \<and> h \<in> set (sorter ps ! i) \<and>
       (\<forall>p \<in> set ps. h \<in> set p \<longrightarrow> length p \<le> length (sorter ps ! i)))"
proof -
  let ?n = "length entries div 2" and ?cv = "value_at nil (values_of callEntry entries)"
    and ?rv = "value_at nil (values_of returnEntry entries)"
  have wf: "distinct (map (\<lambda>e. (e_kind e, e_id e)) entries)" "\<forall>e \<in> set entries. 0 \<le> e_id e \<and> e_id e < int ?n"
    using assms(1) by (simp_all add: wf_history_def)
  obtain hist where h: "go_fold (viz_entry model nil) entries (replicate ?n zero_element, Map.empty, Map.empty) =
      Inr (hist, values_of callEntry entries, values_of returnEntry entries)" "\<forall>e \<in> set entries. shown e (hist ! nat (e_id e))"
    using viz_entries [OF wf assms(2,3)] by blast
  have same: "set (sorter ps) = set ps" "length (sorter ps) = length ps"
    using assms(5) by (metis set_mset_mset, metis size_mset)
  have replays: "\<forall>p \<in> set (sorter ps). \<exists>steps. replay model g ?cv ?rv (mo_Init model) p = Inr steps"
    using assms(7) same(1) by simp
  obtain ls sz ix where l: "go_fold (viz_partial model g ?cv ?rv) (enumerate 0 (sorter ps)) ([], (\<lambda>_. 0), Map.empty) = Inr (ls, sz, ix)"
    "map (map ls_Index) ls = sorter ps" "\<forall>h. ix h = None \<longleftrightarrow> (\<forall>p \<in> set (sorter ps). h \<notin> set p)"
    "\<forall>h i. ix h = Some i \<longrightarrow> first_with h (sorter ps) i"
    using viz_partials [OF assms(6) replays] by blast
  have "length p \<le> length (sorter ps ! i)" if hi: "ix h = Some i" and ph: "p \<in> set ps" "h \<in> set p" for h i p
  proof -
    have fw: "first_with h (sorter ps) i" using l(4) hi by blast
    obtain j where j: "j < length (sorter ps)" "sorter ps ! j = p" using ph(1) same(1) by (metis in_set_conv_nth)
    then have "i \<le> j" using fw ph(2) by (metis first_with_def not_le)
    then show ?thesis using assms(6) j by (cases "i = j") (auto simp: sorted_wrt_iff_nth_less)
  qed
  then show ?thesis using h l assms(4) same unfolding viz_partition_def Let_def first_with_def by simp
qed

definition viz_model :: "(int, int option) Model" where
  "viz_model = \<lparr>mo_Partition = None, mo_PartitionEvent = None, mo_Init = 0,
     mo_Step = (\<lambda>s i out. case i of Some v \<Rightarrow> Inr (True, v) | None \<Rightarrow> Inr (out = Some s, s)), mo_Equal = None,
     mo_DescribeOperation = Some (\<lambda>i out. Inr ''op''), mo_DescribeState = Some (\<lambda>_. ''state'')\<rparr>"

definition by_length :: "int list list \<Rightarrow> int list list" where
  "by_length ps = rev (sort_key length ps)"

theorem visualization_shows_longest_witness:
  "\<exists>d. viz_partition by_length viz_model None sample_history [[1], [1, 0]] = Inr d \<and>
     map (map ls_Index) (pv_PartialLinearizations d) = [[1, 0], [1]]"
proof -
  have v: "values_of callEntry sample_history = [0 \<mapsto> Some 5, 1 \<mapsto> None]"
    "values_of returnEntry sample_history = [0 \<mapsto> None, 1 \<mapsto> Some 0]"
    by (auto simp: values_of_def sample_history_def sample_entry_def callEntry_def returnEntry_def fun_eq_iff)
  have s: "by_length [[1], [1, 0]] = [[1, 0], [1]]" by (simp add: by_length_def)
  have "\<forall>p \<in> set [[1], [1, 0]]. \<exists>steps. replay viz_model (\<lambda>_. ''state'') (value_at None (values_of callEntry sample_history))
      (value_at None (values_of returnEntry sample_history)) (mo_Init viz_model) p = Inr steps"
    by (simp add: v viz_model_def value_at_def)
  then show ?thesis
    using visualization_shows_longest [OF sample_history_wf, of viz_model "\<lambda>i out. Inr ''op''" "\<lambda>_. ''state''" by_length "[[1], [1, 0]]" None] s
    by (auto simp: viz_model_def)
qed

end
