(* ===== verification/Labgob.thy ===== *)
theory Labgob
  imports Go_Strings
begin

text \<open>
  \<open>labgob/labgob.go\<close>: a wrapper of \<open>encoding/gob\<close> that complains about struct fields gob cannot see
  (lower-case names) and about decoding into variables that are not at their default. It walks the
  type of every value by reflection, and since Go types may be recursive it remembers the ones it
  has checked. Types are numbered nodes of a table; the encoder and the decoder of \<open>encoding/gob\<close>
  are parameters.
\<close>

section \<open>Types and values, as reflection shows them\<close>

datatype rtype =
  TStruct string "(string \<times> nat) list"
| TSlice nat
| TArray nat
| TPtr nat
| TMap nat nat
| TOther string

text \<open>The global variables of the package, and what it has printed.\<close>

record gob_state =
  errorCount :: int
  checked :: "nat set"
  printed :: "string list"

text \<open>\<open>unicode.IsUpper\<close> of the first rune of a name, for Latin-1.\<close>

definition IsUpper :: "char \<Rightarrow> bool" where
  "IsUpper r =
     (let n = of_char r :: nat in (65 \<le> n \<and> n \<le> 90) \<or> (192 \<le> n \<and> n \<le> 214) \<or> (216 \<le> n \<and> n \<le> 222))"

definition upper_name :: "string \<Rightarrow> bool" where
  "upper_name name = (case name of [] \<Rightarrow> False | r # _ \<Rightarrow> IsUpper r)"

definition lowercase_error :: "string \<Rightarrow> string \<Rightarrow> string" where
  "lowercase_error fname tname =
     ''labgob error: lower-case field '' @ fname @ '' of '' @ tname @
     '' in RPC or persist/snapshot will break your Raft''"

text \<open>
  A pending call \<open>checkType(t)\<close>; for a field of a struct it is preceded by the test of the field's
  name, so the name and that of the struct come with it.
\<close>

type_synonym pending = "(string \<times> string) option \<times> nat"

definition check_name :: "(string \<times> string) option \<Rightarrow> gob_state \<Rightarrow> gob_state" where
  "check_name f s =
     (case f of
        None \<Rightarrow> s
      | Some (fname, tname) \<Rightarrow>
          if upper_name fname = False
          then s\<lparr>printed := printed s @ [lowercase_error fname tname], errorCount := errorCount s + 1\<rparr>
          else s)"

text \<open>The calls in the body of \<open>checkType\<close>, by kind.\<close>

definition checks_of :: "rtype list \<Rightarrow> nat \<Rightarrow> pending list" where
  "checks_of ts t =
     (if t < length ts
      then (case ts ! t of
              TStruct tname fs \<Rightarrow> map (\<lambda>(fname, ft). (Some (fname, tname), ft)) fs
            | TSlice e \<Rightarrow> [(None, e)]
            | TArray e \<Rightarrow> [(None, e)]
            | TPtr e \<Rightarrow> [(None, e)]
            | TMap key elem \<Rightarrow> [(None, elem), (None, key)]
            | TOther _ \<Rightarrow> [])
      else [])"

function check_all :: "rtype list \<Rightarrow> pending list \<Rightarrow> gob_state \<Rightarrow> gob_state" where
  "check_all ts [] s = s"
| "check_all ts ((f, t) # rest) s =
     (let s1 = check_name f s in
      check_all ts rest
        (if t \<in> checked s1 then s1
         else check_all ts (checks_of ts t) (s1\<lparr>checked := insert t (checked s1)\<rparr>)))"
  by pat_completeness auto

lemma checked_check_name [simp]: "checked (check_name f s) = checked s"
  by (simp add: check_name_def split: option.split prod.split)

lemma check_all_grows:
  "check_all_dom (ts, items, s) \<Longrightarrow> checked s \<subseteq> checked (check_all ts items s)"
proof (induction rule: check_all.pinduct)
  case (2 ts f t rest s)
  show ?case
  proof (cases "t \<in> checked s")
    case True
    then show ?thesis using 2 by (simp add: check_all.psimps Let_def)
  next
    case False
    then have "insert t (checked s) \<subseteq> checked (check_all ts (checks_of ts t) ((check_name f s)\<lparr>checked := insert t (checked s)\<rparr>))"
      using 2 by (simp add: Let_def)
    then show ?thesis using 2 False by (simp add: check_all.psimps Let_def) blast
  qed
qed (simp add: check_all.psimps)

termination check_all
proof (relation "inv_image (finite_psubset <*lex*> less_than) (\<lambda>(ts, items, s). ({..<length ts} - checked s, length items))")
  fix ts f t rest s x
  assume x: "x = check_name f s" and t: "t \<notin> checked x"
  show "((ts, checks_of ts t, x\<lparr>checked := insert t (checked x)\<rparr>), ts, (f, t) # rest, s)
    \<in> inv_image (finite_psubset <*lex*> less_than) (\<lambda>(ts, items, s). ({..<length ts} - checked s, length items))"
  proof (cases "t < length ts")
    case True
    then show ?thesis using t x by (auto simp: finite_psubset_def)
  next
    case False
    then have "{..<length ts} - insert t (checked s) = {..<length ts} - checked s" by auto
    then show ?thesis using False x by (simp add: checks_of_def)
  qed
next
  fix ts f t rest s x
  assume x: "x = check_name f s"
    and d: "t \<notin> checked x \<Longrightarrow> check_all_dom (ts, checks_of ts t, x\<lparr>checked := insert t (checked x)\<rparr>)"
  let ?s = "if t \<in> checked x then x else check_all ts (checks_of ts t) (x\<lparr>checked := insert t (checked x)\<rparr>)"
  have "checked s \<subseteq> checked ?s"
    using check_all_grows [OF d] x by (cases "t \<in> checked x") auto
  then have "{..<length ts} - checked ?s \<subseteq> {..<length ts} - checked s" by blast
  then show "((ts, rest, ?s), ts, (f, t) # rest, s)
    \<in> inv_image (finite_psubset <*lex*> less_than) (\<lambda>(ts, items, s). ({..<length ts} - checked s, length items))"
    by (auto simp: finite_psubset_def)
qed auto

definition checkType :: "rtype list \<Rightarrow> nat \<Rightarrow> gob_state \<Rightarrow> gob_state" where
  "checkType ts t s = check_all ts [(None, t)] s"

section \<open>What the walk visits and counts\<close>

definition type_edges :: "rtype list \<Rightarrow> (nat \<times> nat) set" where
  "type_edges ts = {(t, u). u \<in> snd ` set (checks_of ts t)}"

definition component_types :: "rtype list \<Rightarrow> nat set \<Rightarrow> nat set" where
  "component_types ts A = (type_edges ts)\<^sup>* `` A"

definition complaints :: "pending list \<Rightarrow> int" where
  "complaints items = int (length (filter (\<lambda>(f, t). case f of None \<Rightarrow> False | Some (fname, _) \<Rightarrow> \<not> upper_name fname) items))"

lemma complaints_Nil [simp]: "complaints [] = 0"
  by (simp add: complaints_def)

lemma complaints_one: "errorCount (check_name f s) = errorCount s + complaints [(f, t)]"
  by (auto simp: complaints_def check_name_def split: option.split)

lemma component_types_mono: "A \<subseteq> B \<Longrightarrow> component_types ts A \<subseteq> component_types ts B"
  by (auto simp: component_types_def)

lemma component_types_refl: "A \<subseteq> component_types ts A"
  by (auto simp: component_types_def)

lemma component_types_children: "component_types ts (snd ` set (checks_of ts t)) \<subseteq> component_types ts {t}"
  by (auto simp: component_types_def type_edges_def intro: converse_rtrancl_into_rtrancl)

lemma component_types_closed:
  assumes "A \<subseteq> C" and "\<And>u. u \<in> C \<Longrightarrow> snd ` set (checks_of ts u) \<subseteq> C"
  shows "component_types ts A \<subseteq> C"
proof -
  have "v \<in> C" if "(u, v) \<in> (type_edges ts)\<^sup>*" "u \<in> C" for u v
    using that by (induction rule: rtrancl_induct) (use assms(2) in \<open>auto simp: type_edges_def\<close>)
  then show ?thesis using assms(1) by (auto simp: component_types_def)
qed

text \<open>
  \<open>walked ts items s s'\<close>: from \<open>s\<close> to \<open>s'\<close> the walk has marked the types of \<open>items\<close> and, with every type
  it has marked, the types it consists of; it has marked nothing else, and it has complained once
  for each bad field among the items and in the types it marked.
\<close>

definition walked :: "rtype list \<Rightarrow> pending list \<Rightarrow> gob_state \<Rightarrow> gob_state \<Rightarrow> bool" where
  "walked ts items s s' \<longleftrightarrow>
     (let D = checked s' - checked s in
      checked s \<subseteq> checked s' \<and> snd ` set items \<subseteq> checked s' \<and> finite D \<and>
      (\<forall>u \<in> D. snd ` set (checks_of ts u) \<subseteq> checked s') \<and> D \<subseteq> component_types ts (snd ` set items) \<and>
      errorCount s' = errorCount s + complaints items + (\<Sum>u \<in> D. complaints (checks_of ts u)))"

lemma walked_seq:
  assumes "walked ts [(f, t)] s s1" and "walked ts rest s1 s2"
  shows "walked ts ((f, t) # rest) s s2"
proof -
  let ?D1 = "checked s1 - checked s" and ?D2 = "checked s2 - checked s1" and ?D = "checked s2 - checked s"
  have w1: "checked s \<subseteq> checked s1" "t \<in> checked s1" "finite ?D1" "\<forall>u \<in> ?D1. snd ` set (checks_of ts u) \<subseteq> checked s1"
    "?D1 \<subseteq> component_types ts {t}"
    "errorCount s1 = errorCount s + complaints [(f, t)] + (\<Sum>u \<in> ?D1. complaints (checks_of ts u))"
    using assms(1) by (auto simp: walked_def Let_def)
  have w2: "checked s1 \<subseteq> checked s2" "snd ` set rest \<subseteq> checked s2" "finite ?D2"
    "\<forall>u \<in> ?D2. snd ` set (checks_of ts u) \<subseteq> checked s2" "?D2 \<subseteq> component_types ts (snd ` set rest)"
    "errorCount s2 = errorCount s1 + complaints rest + (\<Sum>u \<in> ?D2. complaints (checks_of ts u))"
    using assms(2) by (auto simp: walked_def Let_def)
  have D: "?D = ?D1 \<union> ?D2" "?D1 \<inter> ?D2 = {}" using w1(1) w2(1) by auto
  have "component_types ts {t} \<subseteq> component_types ts (snd ` set ((f, t) # rest))"
    "component_types ts (snd ` set rest) \<subseteq> component_types ts (snd ` set ((f, t) # rest))"
    by (auto intro!: component_types_mono)
  then have "?D \<subseteq> component_types ts (snd ` set ((f, t) # rest))" using w1(5) w2(5) D(1) by blast
  moreover have "(\<Sum>u \<in> ?D. complaints (checks_of ts u)) =
      (\<Sum>u \<in> ?D1. complaints (checks_of ts u)) + (\<Sum>u \<in> ?D2. complaints (checks_of ts u))"
    unfolding D(1) by (rule sum.union_disjoint [OF w1(3) w2(3) D(2)])
  moreover have "\<forall>u \<in> ?D. snd ` set (checks_of ts u) \<subseteq> checked s2" using w1(4) w2(1,4) D(1) by blast
  moreover have "complaints ((f, t) # rest) = complaints [(f, t)] + complaints rest"
    by (simp add: complaints_def)
  moreover have "finite ?D" unfolding D(1) using w1(3) w2(3) by simp
  moreover have "checked s \<subseteq> checked s2" "snd ` set ((f, t) # rest) \<subseteq> checked s2" using w1(1,2) w2(1,2) by auto
  ultimately show ?thesis using w1(6) w2(6) unfolding walked_def Let_def by simp
qed

lemma walked_mark:
  assumes "walked ts (checks_of ts t) (s1\<lparr>checked := insert t (checked s1)\<rparr>) s2" and "s1 = check_name f s" and "t \<notin> checked s"
  shows "walked ts [(f, t)] s s2"
proof -
  let ?D1 = "checked s2 - insert t (checked s)" and ?D = "checked s2 - checked s"
  have w: "insert t (checked s) \<subseteq> checked s2" "snd ` set (checks_of ts t) \<subseteq> checked s2" "finite ?D1"
    "\<forall>u \<in> ?D1. snd ` set (checks_of ts u) \<subseteq> checked s2" "?D1 \<subseteq> component_types ts (snd ` set (checks_of ts t))"
    "errorCount s2 = errorCount s1 + complaints (checks_of ts t) + (\<Sum>u \<in> ?D1. complaints (checks_of ts u))"
    using assms by (auto simp: walked_def Let_def)
  have D: "?D = insert t ?D1" "t \<notin> ?D1" using w(1) assms(3) by auto
  have "(\<Sum>u \<in> ?D. complaints (checks_of ts u)) = complaints (checks_of ts t) + (\<Sum>u \<in> ?D1. complaints (checks_of ts u))"
    unfolding D(1) using w(3) D(2) by simp
  moreover have "?D \<subseteq> component_types ts {t}"
    using D(1) w(5) component_types_children [of ts t] component_types_refl [of "{t}" ts] by blast
  moreover have "errorCount s1 = errorCount s + complaints [(f, t)]" unfolding assms(2) by (rule complaints_one)
  moreover have "\<forall>u \<in> ?D. snd ` set (checks_of ts u) \<subseteq> checked s2" unfolding D(1) using w(2,4) by simp
  moreover have "finite ?D" unfolding D(1) using w(3) by simp
  moreover have "checked s \<subseteq> checked s2" "snd ` set [(f, t)] \<subseteq> checked s2" using w(1) by auto
  ultimately show ?thesis using w(6) unfolding walked_def Let_def by simp
qed

lemma check_all_walked: "walked ts items s (check_all ts items s)"
proof (induction ts items s rule: check_all.induct)
  case (1 ts s)
  then show ?case by (simp add: walked_def)
next
  case (2 ts f t rest s)
  let ?s1 = "check_name f s"
  let ?s2 = "if t \<in> checked ?s1 then ?s1 else check_all ts (checks_of ts t) (?s1\<lparr>checked := insert t (checked ?s1)\<rparr>)"
  have "walked ts [(f, t)] s ?s2"
  proof (cases "t \<in> checked s")
    case True
    then show ?thesis by (simp add: walked_def complaints_one [of f s t])
  next
    case False
    then show ?thesis using walked_mark [OF _ refl False, of ts f] 2(1) [OF refl] by simp
  qed
  then show ?case using walked_seq 2(2) [OF refl] by (simp add: Let_def)
qed

section \<open>Default values\<close>

text \<open>
  A value by kind. A pointer is shown with what it points to; the walk stops at depth 3, so for a
  cyclic value the unfolding to that depth is enough. The field's flag says whether it is embedded,
  and \<open>VBasic tname b\<close> is a value of a basic type whose value is not the default when \<open>b\<close>.
\<close>

datatype gvalue = VStruct "gfield list" | VPtr "gvalue option" | VBasic string bool | VOther
and gfield = GField string bool gvalue

text \<open>
  The read-only flags of a \<open>reflect.Value\<close>: reached through an unexported field (kept by the fields
  below it) and through an unexported embedded one (not kept by them). \<open>Interface()\<close> panics on both.
\<close>

type_synonym ro_flags = "bool \<times> bool"

definition field_flags :: "string \<Rightarrow> bool \<Rightarrow> ro_flags \<Rightarrow> ro_flags" where
  "field_flags fname embedded ro =
     (fst ro \<or> (\<not> upper_name fname \<and> \<not> embedded), \<not> upper_name fname \<and> embedded)"

definition field_path :: "string \<Rightarrow> string \<Rightarrow> string" where
  "field_path name fname = (if name \<noteq> '''' then name @ ''.'' @ fname else fname)"

definition default_warning :: "string \<Rightarrow> string" where
  "default_warning what = ''labgob warning: Decoding into a non-default variable/field '' @ what @ '' may not work''"

definition check_basic :: "string \<Rightarrow> bool \<Rightarrow> ro_flags \<Rightarrow> string \<Rightarrow> gob_state \<Rightarrow> gob_state go" where
  "check_basic tname nondefault ro name s =
     (if ro \<noteq> (False, False)
      then Inl (Fatal ''reflect.Value.Interface: cannot return value obtained from unexported field or method'')
      else if nondefault
      then let what = (if name = '''' then tname else name) in
           Inr (s\<lparr>printed := (if errorCount s < 1 then printed s @ [default_warning what] else printed s),
                  errorCount := errorCount s + 1\<rparr>)
      else Inr s)"

fun checkDefault1 :: "gvalue \<Rightarrow> ro_flags \<Rightarrow> int \<Rightarrow> string \<Rightarrow> gob_state \<Rightarrow> gob_state go"
  and checkDefault1_fields :: "gfield list \<Rightarrow> ro_flags \<Rightarrow> int \<Rightarrow> string \<Rightarrow> gob_state \<Rightarrow> gob_state go" where
  "checkDefault1 (VStruct fs) ro depth name s =
     (if depth > 3 then Inr s else checkDefault1_fields fs ro depth name s)"
| "checkDefault1 (VPtr None) ro depth name s = Inr s"
| "checkDefault1 (VPtr (Some v)) ro depth name s =
     (if depth > 3 then Inr s else checkDefault1 v ro (depth + 1) name s)"
| "checkDefault1 (VBasic tname b) ro depth name s =
     (if depth > 3 then Inr s else check_basic tname b ro name s)"
| "checkDefault1 VOther ro depth name s = Inr s"
| "checkDefault1_fields [] ro depth name s = Inr s"
| "checkDefault1_fields (GField fname embedded v # fs) ro depth name s =
     go_bind (checkDefault1 v (field_flags fname embedded ro) (depth + 1) (field_path name fname) s)
       (checkDefault1_fields fs ro depth name)"

definition checkDefault :: "gvalue option \<Rightarrow> gob_state \<Rightarrow> gob_state go" where
  "checkDefault value s =
     (case value of None \<Rightarrow> Inr s | Some v \<Rightarrow> checkDefault1 v (False, False) 1 '''' s)"

section \<open>The wrapper\<close>

text \<open>\<open>reflect.TypeOf(nil)\<close> is nil, and \<open>Kind\<close> of it dereferences nil. An argument comes with its type.\<close>

definition checkValue :: "rtype list \<Rightarrow> (nat \<times> gvalue) option \<Rightarrow> gob_state \<Rightarrow> gob_state go" where
  "checkValue ts value s =
     (case value of None \<Rightarrow> Inl NilDereference | Some (t, _) \<Rightarrow> Inr (checkType ts t s))"

record 'w LabEncoder = le_gob :: 'w
record 'r LabDecoder = ld_gob :: 'r

definition NewEncoder :: "'w \<Rightarrow> 'w LabEncoder" where
  "NewEncoder w = \<lparr>le_gob = w\<rparr>"

definition Encode ::
  "('w \<Rightarrow> (nat \<times> gvalue) option \<Rightarrow> 'w \<times> 'err) \<Rightarrow> rtype list \<Rightarrow> 'w LabEncoder \<Rightarrow> (nat \<times> gvalue) option \<Rightarrow> gob_state \<Rightarrow>
   ('w LabEncoder \<times> 'err \<times> gob_state) go" where
  "Encode gob_encode ts enc e s =
     go_bind (checkValue ts e s) (\<lambda>s1.
       case gob_encode (le_gob enc) e of (w, err) \<Rightarrow> Inr (enc\<lparr>le_gob := w\<rparr>, err, s1))"

definition EncodeValue ::
  "('w \<Rightarrow> (nat \<times> gvalue) option \<Rightarrow> 'w \<times> 'err) \<Rightarrow> rtype list \<Rightarrow> 'w LabEncoder \<Rightarrow> (nat \<times> gvalue) option \<Rightarrow> gob_state \<Rightarrow>
   ('w LabEncoder \<times> 'err \<times> gob_state) go" where
  "EncodeValue gob_encodeValue ts enc value s =
     go_bind (checkValue ts value s) (\<lambda>s1.
       case gob_encodeValue (le_gob enc) value of (w, err) \<Rightarrow> Inr (enc\<lparr>le_gob := w\<rparr>, err, s1))"

definition NewDecoder :: "'r \<Rightarrow> 'r LabDecoder" where
  "NewDecoder r = \<lparr>ld_gob = r\<rparr>"

definition Decode ::
  "('r \<Rightarrow> (nat \<times> gvalue) option \<Rightarrow> 'r \<times> 'err) \<Rightarrow> rtype list \<Rightarrow> 'r LabDecoder \<Rightarrow> (nat \<times> gvalue) option \<Rightarrow> gob_state \<Rightarrow>
   ('r LabDecoder \<times> 'err \<times> gob_state) go" where
  "Decode gob_decode ts d e s =
     go_bind (checkValue ts e s) (\<lambda>s1.
     go_bind (checkDefault (map_option snd e) s1) (\<lambda>s2.
       case gob_decode (ld_gob d) e of (r, err) \<Rightarrow> Inr (d\<lparr>ld_gob := r\<rparr>, err, s2)))"

text \<open>\<open>Register\<close> and \<open>RegisterName\<close>; the argument stands for gob's own table.\<close>

definition Register ::
  "((nat \<times> gvalue) option \<Rightarrow> 'reg \<Rightarrow> 'reg) \<Rightarrow> rtype list \<Rightarrow> (nat \<times> gvalue) option \<Rightarrow> 'reg \<Rightarrow> gob_state \<Rightarrow> ('reg \<times> gob_state) go" where
  "Register gob_Register ts value reg s =
     go_bind (checkValue ts value s) (\<lambda>s1. Inr (gob_Register value reg, s1))"

definition RegisterName ::
  "(string \<Rightarrow> (nat \<times> gvalue) option \<Rightarrow> 'reg \<Rightarrow> 'reg) \<Rightarrow> rtype list \<Rightarrow> string \<Rightarrow> (nat \<times> gvalue) option \<Rightarrow> 'reg \<Rightarrow> gob_state \<Rightarrow>
   ('reg \<times> gob_state) go" where
  "RegisterName gob_RegisterName ts name value reg s =
     go_bind (checkValue ts value s) (\<lambda>s1. Inr (gob_RegisterName name value reg, s1))"

section \<open>The values the walk looks at\<close>

text \<open>All values of basic types inside a value, in order: their depth, flags, path, and whether they are non-default.\<close>

record leaf =
  lf_depth :: int
  lf_ro :: ro_flags
  lf_what :: string
  lf_nondefault :: bool

fun leaves :: "gvalue \<Rightarrow> ro_flags \<Rightarrow> int \<Rightarrow> string \<Rightarrow> leaf list"
  and leaves_fields :: "gfield list \<Rightarrow> ro_flags \<Rightarrow> int \<Rightarrow> string \<Rightarrow> leaf list" where
  "leaves (VStruct fs) ro depth name = leaves_fields fs ro depth name"
| "leaves (VPtr None) ro depth name = []"
| "leaves (VPtr (Some v)) ro depth name = leaves v ro (depth + 1) name"
| "leaves (VBasic tname b) ro depth name =
     [\<lparr>lf_depth = depth, lf_ro = ro, lf_what = (if name = '''' then tname else name), lf_nondefault = b\<rparr>]"
| "leaves VOther ro depth name = []"
| "leaves_fields [] ro depth name = []"
| "leaves_fields (GField fname embedded v # fs) ro depth name =
     leaves v (field_flags fname embedded ro) (depth + 1) (field_path name fname) @ leaves_fields fs ro depth name"

definition near :: "leaf list \<Rightarrow> leaf list" where
  "near ls = filter (\<lambda>l. lf_depth l \<le> 3) ls"

definition leaf_step :: "leaf \<Rightarrow> gob_state \<Rightarrow> gob_state go" where
  "leaf_step l = check_basic (lf_what l) (lf_nondefault l) (lf_ro l) (lf_what l)"

lemma near_append [simp]: "near [] = []" "near (xs @ ys) = near xs @ near ys"
  by (simp_all add: near_def)

lemma leaves_deep:
  "l \<in> set (leaves v ro depth name) \<Longrightarrow> lf_depth l \<ge> depth"
  "l \<in> set (leaves_fields fs ro depth name) \<Longrightarrow> lf_depth l > depth"
  by (induction v ro depth name and fs ro depth name rule: leaves_leaves_fields.induct) force+

lemma near_deep: "depth > 3 \<Longrightarrow> near (leaves v ro depth name) = []" "depth > 3 \<Longrightarrow> near (leaves_fields fs ro depth name) = []"
  by (auto simp: near_def filter_empty_conv dest: leaves_deep)

lemma checkDefault1_leaves:
  "checkDefault1 v ro depth name s = go_fold leaf_step (near (leaves v ro depth name)) s"
  "checkDefault1_fields fs ro depth name s = go_fold leaf_step (near (leaves_fields fs ro depth name)) s"
proof (induction v ro depth name s and fs ro depth name s rule: checkDefault1_checkDefault1_fields.induct)
  case (4 tname b ro depth name s)
  then show ?case by (simp add: near_def leaf_step_def check_basic_def Let_def)
next
  case (7 fname embedded v fs ro depth name s)
  then show ?case by (simp add: go_fold_append cong: go_bind_cong)
qed (auto simp: near_deep)

lemma leaf_steps_Inl:
  "(\<exists>e. go_fold leaf_step ls s = Inl e) \<longleftrightarrow> (\<exists>l \<in> set ls. lf_ro l \<noteq> (False, False))"
  by (induction ls arbitrary: s) (auto simp: leaf_step_def check_basic_def Let_def)

lemma leaf_steps_Inr:
  assumes "\<forall>l \<in> set ls. lf_ro l = (False, False)" and "errorCount s \<ge> 0"
  shows "go_fold leaf_step ls s =
    Inr (s\<lparr>errorCount := errorCount s + int (length (filter lf_nondefault ls)),
           printed := printed s @ (if errorCount s = 0
             then map (\<lambda>l. default_warning (lf_what l)) (take 1 (filter lf_nondefault ls)) else [])\<rparr>)"
  using assms by (induction ls arbitrary: s) (auto simp: leaf_step_def check_basic_def Let_def)

section \<open>Properties\<close>

text \<open>Between calls, every checked type has all its component types checked.\<close>

definition all_walked :: "rtype list \<Rightarrow> gob_state \<Rightarrow> bool" where
  "all_walked ts s \<longleftrightarrow> (\<forall>u \<in> checked s. snd ` set (checks_of ts u) \<subseteq> checked s)"

definition capitalised :: "rtype list \<Rightarrow> nat \<Rightarrow> bool" where
  "capitalised ts t \<longleftrightarrow> (\<forall>fname tname u. (Some (fname, tname), u) \<in> set (checks_of ts t) \<longrightarrow> upper_name fname)"

lemma complaints_zero: "complaints (checks_of ts t) \<ge> 0 \<and> (complaints (checks_of ts t) = 0 \<longleftrightarrow> capitalised ts t)"
  by (fastforce simp: complaints_def capitalised_def filter_empty_conv split: option.splits)

lemma checkType_walk:
  assumes "all_walked ts s"
  shows "checked (checkType ts t s) = checked s \<union> component_types ts {t}"
    and "errorCount (checkType ts t s) =
      errorCount s + (\<Sum>u \<in> component_types ts {t} - checked s. complaints (checks_of ts u))"
    and "all_walked ts (checkType ts t s)" and "finite (component_types ts {t} - checked s)"
proof -
  let ?s = "checkType ts t s"
  have w: "checked s \<subseteq> checked ?s" "t \<in> checked ?s" "finite (checked ?s - checked s)"
    "\<forall>u \<in> checked ?s - checked s. snd ` set (checks_of ts u) \<subseteq> checked ?s"
    "checked ?s - checked s \<subseteq> component_types ts {t}"
    "errorCount ?s = errorCount s + (\<Sum>u \<in> checked ?s - checked s. complaints (checks_of ts u))"
    using check_all_walked [of ts "[(None, t)]" s]
    by (auto simp: walked_def Let_def checkType_def complaints_def)
  have closed: "snd ` set (checks_of ts u) \<subseteq> checked ?s" if "u \<in> checked ?s" for u
    using that w(1,4) assms unfolding all_walked_def by blast
  then show "all_walked ts ?s" by (simp add: all_walked_def)
  have "component_types ts {t} \<subseteq> checked ?s" using w(2) closed by (intro component_types_closed) auto
  then show eq: "checked ?s = checked s \<union> component_types ts {t}" using w(1,5) by blast
  then have D: "checked ?s - checked s = component_types ts {t} - checked s" by auto
  show "errorCount ?s = errorCount s + (\<Sum>u \<in> component_types ts {t} - checked s. complaints (checks_of ts u))"
    using w(6) unfolding D .
  show "finite (component_types ts {t} - checked s)" using w(3) unfolding D .
qed

text \<open>
  C29. The types of messages. \<open>checkType\<close> returns on every type, recursive ones included; it has then checked
  exactly the types that make up \<open>t\<close> and those checked before, and the error count has grown by the
  number of lower-case fields of the struct types checked for the first time. So the count stays as
  it is exactly when every such type has only capitalised fields, those gob transmits.
\<close>

theorem checkType_finds_lowercase:
  assumes "all_walked ts s"
  shows "checked (checkType ts t s) = checked s \<union> component_types ts {t} \<and> all_walked ts (checkType ts t s) \<and>
    errorCount (checkType ts t s) =
      errorCount s + (\<Sum>u \<in> component_types ts {t} - checked s. complaints (checks_of ts u)) \<and>
    (errorCount (checkType ts t s) = errorCount s \<longleftrightarrow> (\<forall>u \<in> component_types ts {t} - checked s. capitalised ts u))"
proof -
  have "(\<Sum>u \<in> component_types ts {t} - checked s. complaints (checks_of ts u)) = 0 \<longleftrightarrow>
    (\<forall>u \<in> component_types ts {t} - checked s. capitalised ts u)"
    using sum_nonneg_eq_0_iff [OF checkType_walk(4) [OF assms, of t], of "\<lambda>u. complaints (checks_of ts u)"]
      complaints_zero by simp
  then show ?thesis using checkType_walk(1-3) [OF assms, of t] by simp
qed

definition sample_types :: "rtype list" where
  "sample_types = [TStruct ''T4'' [(''Yes'', 1), (''no'', 1), (''Next'', 2)], TOther ''int'', TPtr 0]"

definition gob_start :: gob_state where
  "gob_start = \<lparr>errorCount = 0, checked = {}, printed = []\<rparr>"

theorem checkType_finds_lowercase_witness:
  "errorCount (checkType sample_types 0 gob_start) = 1 \<and> \<not> (\<forall>u \<in> component_types sample_types {0}. capitalised sample_types u)"
proof -
  have "all_walked sample_types gob_start" by (simp add: all_walked_def gob_start_def)
  then have "errorCount (checkType sample_types 0 gob_start) = errorCount gob_start \<longleftrightarrow>
      (\<forall>u \<in> component_types sample_types {0} - checked gob_start. capitalised sample_types u)"
    using checkType_finds_lowercase by blast
  moreover have "errorCount (checkType sample_types 0 gob_start) = 1"
    by (simp add: checkType_def sample_types_def gob_start_def checks_of_def check_name_def upper_name_def IsUpper_def Let_def)
  ultimately show ?thesis by (simp add: gob_start_def)
qed

text \<open>
  C30. Decoding. \<open>Decode\<close> panics exactly when its argument is nil or holds a value of a basic type that is
  reached through an unexported field at depth at most 3, where the wrapper meant to warn.
  Otherwise it calls gob's decoder once and counts, besides the lower-case fields, the non-default
  values at depth at most 3; only the first of them is reported, and only if nothing was counted before.
\<close>

theorem Decode_outcome:
  assumes "all_walked ts s" and "errorCount s \<ge> 0"
  shows "((\<exists>x. Decode gob_decode ts d e s = Inl x) \<longleftrightarrow>
       e = None \<or> (\<exists>t v. e = Some (t, v) \<and> (\<exists>l \<in> set (near (leaves v (False, False) 1 '''')). lf_ro l \<noteq> (False, False)))) \<and>
    (\<forall>d' err s'. Decode gob_decode ts d e s = Inr (d', err, s') \<longrightarrow>
       (\<exists>t v. e = Some (t, v) \<and> (ld_gob d', err) = gob_decode (ld_gob d) e \<and>
          (let s1 = checkType ts t s; bad = filter lf_nondefault (near (leaves v (False, False) 1 '''')) in
           errorCount s' = errorCount s1 + int (length bad) \<and> checked s' = checked s1 \<and>
           printed s' = printed s1 @ (if errorCount s1 = 0 then map (\<lambda>l. default_warning (lf_what l)) (take 1 bad) else []))))"
proof (cases e)
  case None
  then show ?thesis by (simp add: Decode_def checkValue_def)
next
  case (Some tv)
  obtain t v where tv: "tv = (t, v)" by (cases tv)
  let ?s1 = "checkType ts t s" and ?ls = "near (leaves v (False, False) 1 '''')"
  have "(\<Sum>u \<in> component_types ts {t} - checked s. complaints (checks_of ts u)) \<ge> 0"
    by (rule sum_nonneg) (use complaints_zero in blast)
  then have pos: "errorCount ?s1 \<ge> 0" using checkType_walk(2) [OF assms(1), of t] assms(2) by simp
  have run: "Decode gob_decode ts d e s = go_bind (go_fold leaf_step ?ls ?s1) (\<lambda>s2.
      case gob_decode (ld_gob d) e of (r, err) \<Rightarrow> Inr (d\<lparr>ld_gob := r\<rparr>, err, s2))"
    by (simp add: Decode_def checkValue_def checkDefault_def Some tv checkDefault1_leaves)
  show ?thesis
  proof (cases "\<exists>l \<in> set ?ls. lf_ro l \<noteq> (False, False)")
    case True
    then obtain x where "go_fold leaf_step ?ls ?s1 = Inl x" using leaf_steps_Inl by blast
    then have "Decode gob_decode ts d e s = Inl x" by (simp add: run)
    then show ?thesis using True Some tv by auto
  next
    case False
    then have "go_fold leaf_step ?ls ?s1 = Inr (?s1\<lparr>errorCount := errorCount ?s1 + int (length (filter lf_nondefault ?ls)),
           printed := printed ?s1 @ (if errorCount ?s1 = 0
             then map (\<lambda>l. default_warning (lf_what l)) (take 1 (filter lf_nondefault ?ls)) else [])\<rparr>)"
      using leaf_steps_Inr [of ?ls ?s1] pos by blast
    then show ?thesis unfolding run using False Some tv by (auto simp: Let_def split: prod.splits)
  qed
qed

definition sample_reply :: gvalue where
  "sample_reply = VPtr (Some (VStruct [GField ''X'' False (VBasic ''int'' True), GField ''y'' False (VBasic ''int'' False)]))"

definition sample_clean :: gvalue where
  "sample_clean = VPtr (Some (VStruct [GField ''X'' False (VBasic ''int'' True)]))"

theorem Decode_outcome_witness:
  "(\<exists>x. Decode (\<lambda>r e. (r, ())) sample_types (NewDecoder ()) (Some (2, sample_reply)) gob_start = Inl x) \<and>
   \<not> (\<exists>x. Decode (\<lambda>r e. (r, ())) sample_types (NewDecoder ()) (Some (2, sample_clean)) gob_start = Inl x)"
proof -
  have "all_walked sample_types gob_start" "errorCount gob_start \<ge> 0" by (simp_all add: all_walked_def gob_start_def)
  note out = conjunct1 [OF Decode_outcome [OF this, of "\<lambda>r e. (r, ())" "NewDecoder ()"]]
  have "\<exists>l \<in> set (near (leaves sample_reply (False, False) 1 '''')). lf_ro l \<noteq> (False, False)"
    by (simp add: sample_reply_def near_def field_flags_def upper_name_def IsUpper_def)
  moreover have "\<not> (\<exists>l \<in> set (near (leaves sample_clean (False, False) 1 '''')). lf_ro l \<noteq> (False, False))"
    by (simp add: sample_clean_def near_def field_flags_def upper_name_def IsUpper_def)
  ultimately show ?thesis unfolding out by blast
qed

end
