(* ===== verification/Mr_Apps.thy ===== *)
theory Mr_Apps
  imports Go_Strings
begin

text \<open>
  The MapReduce applications of \<open>mrapps/\<close> that compute: word count, the inverted index, and the
  test applications that crash, exit early or count their invocations. A Map function takes a
  file name and contents and returns key/value pairs, a Reduce function takes a key and the
  values emitted for it; both may end the process. Random draws, the process id, the iteration
  order of a Go map and the outcome of a system call are arguments.
\<close>

section \<open>Data\<close>

record KeyValue =
  kv_Key :: string
  kv_Value :: string

abbreviation kv_pair :: "string \<Rightarrow> string \<Rightarrow> KeyValue" where
  "kv_pair k v \<equiv> \<lparr>kv_Key = k, kv_Value = v\<rparr>"

type_synonym map_fn = "string \<Rightarrow> string \<Rightarrow> KeyValue list go"

type_synonym reduce_fn = "string \<Rightarrow> string list \<Rightarrow> string go"

section \<open>Word count: wc.go\<close>

definition wc_Map :: map_fn where
  "wc_Map filename contents =
     (let ff = (\<lambda>r. \<not> IsLetter r);
          words = FieldsFunc contents ff
      in Inr (map (\<lambda>w. kv_pair w ''1'') words))"

definition wc_Reduce :: reduce_fn where
  "wc_Reduce key values = Inr (Itoa (int (length values)))"

section \<open>Inverted index: indexer.go\<close>

text \<open>\<open>ord\<close> is the order in which \<open>range m\<close> visits the words.\<close>

definition indexer_Map :: "(string list \<Rightarrow> string list) \<Rightarrow> map_fn" where
  "indexer_Map ord document val =
     (let words = FieldsFunc val (\<lambda>x. \<not> IsLetter x);
          m = remdups words
      in Inr (map (\<lambda>w. kv_pair w document) (ord m)))"

definition indexer_Reduce :: reduce_fn where
  "indexer_Reduce key values =
     (let vs = sort_Strings values
      in Inr (Itoa (int (length vs)) @ '' '' @ strings_Join vs '',''))"

section \<open>Crashing, slow and counting applications\<close>

text \<open>\<open>rr\<close> and \<open>ms\<close> are the random draws; the result is the delay in milliseconds.\<close>

definition crash_maybeCrash :: "int \<Rightarrow> int \<Rightarrow> int go" where
  "crash_maybeCrash rr ms =
     (if rr < 330 then Inl (Exit 1) else if rr < 660 then Inr ms else Inr 0)"

definition crash_Map :: "int \<Rightarrow> int \<Rightarrow> map_fn" where
  "crash_Map rr ms filename contents =
     go_bind (crash_maybeCrash rr ms) (\<lambda>_.
       Inr [kv_pair ''a'' filename, kv_pair ''b'' (Itoa (int (length filename))),
            kv_pair ''c'' (Itoa (int (length contents))), kv_pair ''d'' ''xyzzy''])"

definition crash_Reduce :: "int \<Rightarrow> int \<Rightarrow> reduce_fn" where
  "crash_Reduce rr ms key values =
     go_bind (crash_maybeCrash rr ms) (\<lambda>_. Inr (strings_Join (sort_Strings values) '' ''))"

definition nocrash_maybeCrash :: "int \<Rightarrow> unit go" where
  "nocrash_maybeCrash rr = (if False \<and> rr < 500 then Inl (Exit 1) else Inr ())"

definition nocrash_Map :: "int \<Rightarrow> map_fn" where
  "nocrash_Map rr filename contents =
     go_bind (nocrash_maybeCrash rr) (\<lambda>_.
       Inr [kv_pair ''a'' filename, kv_pair ''b'' (Itoa (int (length filename))),
            kv_pair ''c'' (Itoa (int (length contents))), kv_pair ''d'' ''xyzzy''])"

definition nocrash_Reduce :: "int \<Rightarrow> reduce_fn" where
  "nocrash_Reduce rr key values =
     go_bind (nocrash_maybeCrash rr) (\<lambda>_. Inr (strings_Join (sort_Strings values) '' ''))"

definition early_exit_Map :: map_fn where
  "early_exit_Map filename contents = Inr [kv_pair filename ''1'']"

text \<open>The delay, in seconds, and the result.\<close>

definition early_exit_Reduce :: "string \<Rightarrow> string list \<Rightarrow> (nat \<times> string) go" where
  "early_exit_Reduce key values =
     Inr (if Contains key ''sherlock'' \<or> Contains key ''tom'' then 3 else 0,
          Itoa (int (length values)))"

text \<open>
  jobcount.go: every Map leaves a file named after the process and a counter; Reduce counts the
  files of the directory with that prefix. \<open>werr\<close> is the error of the write, if any.
\<close>

definition jobcount_file :: "int \<Rightarrow> int \<Rightarrow> string" where
  "jobcount_file me cnt = ''mr-worker-jobcount-'' @ Itoa me @ ''-'' @ Itoa cnt"

definition jobcount_Map ::
  "int \<Rightarrow> string option \<Rightarrow> int \<Rightarrow> (string \<rightharpoonup> string) \<Rightarrow> string \<Rightarrow> string \<Rightarrow>
   (KeyValue list \<times> int \<times> (string \<rightharpoonup> string)) go" where
  "jobcount_Map me werr cnt fs filename contents =
     (case werr of
        Some e \<Rightarrow> Inl (Fatal e)
      | None \<Rightarrow> Inr ([kv_pair ''a'' ''x''], cnt + 1, fs(jobcount_file me cnt \<mapsto> ''x'')))"

definition jobcount_Reduce :: "string list go \<Rightarrow> reduce_fn" where
  "jobcount_Reduce dir key values =
     go_bind dir (\<lambda>files.
       Inr (Itoa (int (length (filter (\<lambda>f. HasPrefix f ''mr-worker-jobcount'') files)))))"

text \<open>rtiming.go: the Map function, and the Reduce function of mtiming.go.\<close>

definition rtiming_Map :: map_fn where
  "rtiming_Map filename contents =
     Inr [kv_pair ''a'' ''1'', kv_pair ''b'' ''1'', kv_pair ''c'' ''1'', kv_pair ''d'' ''1'',
          kv_pair ''e'' ''1'', kv_pair ''f'' ''1'', kv_pair ''g'' ''1'', kv_pair ''h'' ''1'',
          kv_pair ''i'' ''1'', kv_pair ''j'' ''1'']"

definition mtiming_Reduce :: reduce_fn where
  "mtiming_Reduce key values = Inr (strings_Join (sort_Strings values) '' '')"

section \<open>Order of the values\<close>

text \<open>
  The order in which a key's values arrive is not specified, so a Reduce function should not
  depend on it. This is the contract the drivers rely on for a deterministic result.
\<close>

locale order_free =
  fixes red :: reduce_fn
  assumes mset_values: "mset vs = mset ws \<Longrightarrow> red k vs = red k ws"
begin

lemma values_sorted: "red k vs = red k (sort vs)"
  by (rule mset_values) simp

end

lemma sort_mset: "mset vs = mset ws \<Longrightarrow> sort vs = sort (ws :: string list)"
  by (metis mset_sort properties_for_sort sorted_sort)

interpretation wc: order_free wc_Reduce
  by unfold_locales (drule mset_eq_length, simp add: wc_Reduce_def)

interpretation indexer: order_free indexer_Reduce
  by unfold_locales (drule sort_mset, simp add: indexer_Reduce_def sort_Strings_def)

interpretation crash: order_free "crash_Reduce rr ms"
  by unfold_locales (drule sort_mset, simp add: crash_Reduce_def sort_Strings_def)

interpretation nocrash: order_free "nocrash_Reduce rr"
  by unfold_locales (drule sort_mset, simp add: nocrash_Reduce_def sort_Strings_def)

interpretation mtiming: order_free mtiming_Reduce
  by unfold_locales (drule sort_mset, simp add: mtiming_Reduce_def sort_Strings_def)

end
