(* ===== verification/Mr_Coordinator.thy ===== *)
theory Mr_Coordinator
  imports Mr_Apps
begin

text \<open>
  \<open>mr/coordinator.go\<close> and the messages of \<open>mr/rpc.go\<close>. A handler runs under the coordinator's
  mutex, so it is a function on the coordinator's record. A \<open>time.Time\<close> is a number of
  nanoseconds, 0 being the zero time. A handler that waits on the condition variable is \<open>None\<close>.
\<close>

section \<open>Messages\<close>

record ExampleArgs =
  ea_X :: int

record ExampleReply =
  er_Y :: int

type_synonym TaskTyppe = int

definition TaskMap :: TaskTyppe where "TaskMap = 1"
definition TaskReduce :: TaskTyppe where "TaskReduce = 2"
definition TaskDone :: TaskTyppe where "TaskDone = 3"

record GetTaskReply =
  gr_NumsMap :: int
  gr_NumsReduce :: int
  gr_TaskNum :: int
  gr_Type :: TaskTyppe
  gr_Filename :: string

definition zero_GetTaskReply :: GetTaskReply where
  "zero_GetTaskReply = \<lparr>gr_NumsMap = 0, gr_NumsReduce = 0, gr_TaskNum = 0, gr_Type = 0, gr_Filename = ''''\<rparr>"

record FinishedNotificationArgs =
  fa_TaskNum :: int
  fa_Type :: TaskTyppe

section \<open>The coordinator\<close>

record Coordinator =
  co_nMaps :: int
  co_nReduce :: int
  co_mapTaskFilename :: "string list"
  co_mapFinished :: "bool list"
  co_mapTaskIssuedTime :: "int list"
  co_reduceFinished :: "bool list"
  co_reduceTaskIssuedTime :: "int list"
  co_isDone :: bool

definition IsZero :: "int \<Rightarrow> bool" where
  "IsZero t \<longleftrightarrow> t = 0"

text \<open>\<open>time.Since(t).Seconds() > 10\<close> at time \<open>now\<close>.\<close>

definition timed_out :: "int \<Rightarrow> int \<Rightarrow> bool" where
  "timed_out now t \<longleftrightarrow> now - t > 10 * 1000000000"

text \<open>The loop over one kind of task: the first one that is not finished and can be issued.\<close>

fun find_task :: "int \<Rightarrow> int list \<Rightarrow> int \<Rightarrow> bool list \<Rightarrow> int option go" where
  "find_task now issued idx [] = Inr None"
| "find_task now issued idx (isDone # rest) =
     (if \<not> isDone
      then go_bind (go_nth issued idx) (\<lambda>t.
             if IsZero t \<or> timed_out now t then Inr (Some idx)
             else find_task now issued (idx + 1) rest)
      else find_task now issued (idx + 1) rest)"

text \<open>
  \<open>mapDone\<close> and \<open>reduceDone\<close> are set to true and never changed (the loop assigns to its own
  variable \<open>isDone\<close> instead), so the branches that wait are never taken.
\<close>

definition GetTask ::
  "int \<Rightarrow> Coordinator \<Rightarrow> GetTaskReply \<Rightarrow> (Coordinator \<times> GetTaskReply) option go" where
  "GetTask now c reply0 =
     (let reply = reply0\<lparr>gr_NumsMap := co_nMaps c, gr_NumsReduce := co_nReduce c\<rparr>;
          mapDone = True;
          reduceDone = True
      in
      go_bind (find_task now (co_mapTaskIssuedTime c) 0 (co_mapFinished c)) (\<lambda>mtask.
      case mtask of
        Some index \<Rightarrow>
          go_bind (go_nth (co_mapTaskFilename c) index) (\<lambda>fname.
            Inr (Some (c, reply\<lparr>gr_Filename := fname, gr_TaskNum := index, gr_Type := TaskMap\<rparr>)))
      | None \<Rightarrow>
          if mapDone
          then go_bind (find_task now (co_reduceTaskIssuedTime c) 0 (co_reduceFinished c)) (\<lambda>rtask.
               case rtask of
                 Some index \<Rightarrow>
                   Inr (Some (c, reply\<lparr>gr_Filename := '''', gr_TaskNum := index, gr_Type := TaskReduce\<rparr>))
               | None \<Rightarrow>
                   if reduceDone
                   then Inr (Some (c\<lparr>co_isDone := True\<rparr>, reply\<lparr>gr_Type := TaskDone\<rparr>))
                   else Inr None)
          else Inr None))"

definition FinishNotify :: "Coordinator \<Rightarrow> FinishedNotificationArgs \<Rightarrow> Coordinator go" where
  "FinishNotify c args =
     (if fa_Type args = TaskMap
      then go_bind (go_set (co_mapFinished c) (fa_TaskNum args) False) (\<lambda>fin.
             Inr (c\<lparr>co_mapFinished := fin\<rparr>))
      else if fa_Type args = TaskReduce
      then go_bind (go_set (co_reduceFinished c) (fa_TaskNum args) False) (\<lambda>fin.
             Inr (c\<lparr>co_reduceFinished := fin\<rparr>))
      else Inr c)"

definition Example :: "ExampleArgs \<Rightarrow> ExampleReply" where
  "Example args = \<lparr>er_Y = ea_X args + 1\<rparr>"

definition Coordinator_Done :: "Coordinator \<Rightarrow> bool" where
  "Coordinator_Done c = (let ret = False in ret)"

definition coordinatorSock :: "int \<Rightarrow> string" where
  "coordinatorSock uid = ''/var/tmp/824-mr-'' @ Itoa uid"

text \<open>\<open>make\<close> with a negative length panics; \<open>listen\<close> is the error of \<open>net.Listen\<close>, if any.\<close>

definition Coordinator_server :: "int \<Rightarrow> string option \<Rightarrow> string go" where
  "Coordinator_server uid listen =
     (let sockname = coordinatorSock uid
      in case listen of Some e \<Rightarrow> Inl (Fatal (''listen error:'' @ e)) | None \<Rightarrow> Inr sockname)"

definition MakeCoordinator :: "int \<Rightarrow> string option \<Rightarrow> string list \<Rightarrow> int \<Rightarrow> Coordinator go" where
  "MakeCoordinator uid listen files nReduce =
     (if nReduce < 0 then Inl SliceOutOfRange
      else
        let c = \<lparr>co_nMaps = int (length files), co_nReduce = nReduce, co_mapTaskFilename = files,
                 co_mapFinished = replicate (length files) False,
                 co_mapTaskIssuedTime = replicate (length files) 0,
                 co_reduceFinished = replicate (nat nReduce) False,
                 co_reduceTaskIssuedTime = replicate (nat nReduce) 0,
                 co_isDone = False\<rparr>
        in go_bind (Coordinator_server uid listen) (\<lambda>_. Inr c))"

section \<open>What the handlers do\<close>

definition coordinator_wf :: "Coordinator \<Rightarrow> bool" where
  "coordinator_wf c \<longleftrightarrow>
     length (co_mapTaskFilename c) = length (co_mapFinished c) \<and>
     length (co_mapTaskIssuedTime c) = length (co_mapFinished c) \<and>
     length (co_reduceTaskIssuedTime c) = length (co_reduceFinished c)"

text \<open>A task that is neither finished nor being worked on.\<close>

definition issuable :: "int \<Rightarrow> int list \<Rightarrow> bool list \<Rightarrow> nat \<Rightarrow> bool" where
  "issuable now issued fin i \<longleftrightarrow>
     i < length fin \<and> \<not> fin ! i \<and> (issued ! i = 0 \<or> now - issued ! i > 10 * 1000000000)"

text \<open>The least index with a property below a bound.\<close>

definition least_below :: "nat \<Rightarrow> (nat \<Rightarrow> bool) \<Rightarrow> nat option" where
  "least_below n P = find P [0..<n]"

lemma least_below_None: "least_below n P = None \<longleftrightarrow> (\<forall>i < n. \<not> P i)"
  by (auto simp: least_below_def find_None_iff)

lemma least_below_Some: "least_below n P = Some i \<longleftrightarrow> i < n \<and> P i \<and> (\<forall>j < i. \<not> P j)"
proof -
  have "find P [0..<n] = Some i \<longleftrightarrow>
      (\<exists>k < length [0..<n]. P ([0..<n] ! k) \<and> i = [0..<n] ! k \<and> (\<forall>j < k. \<not> P ([0..<n] ! j)))"
    by (rule find_Some_iff)
  also have "\<dots> \<longleftrightarrow> i < n \<and> P i \<and> (\<forall>j < i. \<not> P j)" by auto
  finally show ?thesis unfolding least_below_def .
qed

lemma find_task_least:
  "length issued = length (done @ fin) \<Longrightarrow>
   find_task now issued (int (length done)) fin =
     Inr (map_option int (find (issuable now issued (done @ fin)) [length done..<length (done @ fin)]))"
proof (induction fin arbitrary: "done")
  case (Cons b fin)
  have u: "[length done..<length (done @ b # fin)] = length done # [Suc (length done)..<length (done @ b # fin)]"
    by (simp add: upt_conv_Cons del: upt_Suc)
  have IH: "find_task now issued (int (length done) + 1) fin = Inr (map_option int
      (find (issuable now issued (done @ b # fin)) [Suc (length done)..<length (done @ b # fin)]))"
    using Cons.IH [of "done @ [b]"] Cons.prems by (simp add: ac_simps)
  have "issuable now issued (done @ b # fin) (length done) \<longleftrightarrow>
      \<not> b \<and> (IsZero (issued ! length done) \<or> timed_out now (issued ! length done))"
    by (simp add: issuable_def IsZero_def timed_out_def)
  moreover have "go_nth issued (int (length done)) = Inr (issued ! length done)"
    using Cons.prems by (simp add: go_nth_def)
  ultimately show ?case unfolding u find_task.simps IH find.simps by simp
qed simp

lemma find_task_first:
  "length issued = length fin \<Longrightarrow>
   find_task now issued 0 fin = Inr (map_option int (least_below (length fin) (issuable now issued fin)))"
  using find_task_least [of issued "[]" fin now] by (simp add: least_below_def)

text \<open>The reply of \<open>GetTask\<close> for a given choice of tasks.\<close>

definition task_reply :: "Coordinator \<Rightarrow> TaskTyppe \<Rightarrow> int \<Rightarrow> string \<Rightarrow> GetTaskReply" where
  "task_reply c ty n fname = \<lparr>gr_NumsMap = co_nMaps c, gr_NumsReduce = co_nReduce c,
     gr_TaskNum = n, gr_Type = ty, gr_Filename = fname\<rparr>"

lemma GetTask_cases:
  assumes "coordinator_wf c"
  shows "GetTask now c zero_GetTaskReply = Inr (Some
    (case least_below (length (co_mapFinished c)) (issuable now (co_mapTaskIssuedTime c) (co_mapFinished c)) of
       Some i \<Rightarrow> (c, task_reply c TaskMap (int i) (co_mapTaskFilename c ! i))
     | None \<Rightarrow>
         (case least_below (length (co_reduceFinished c))
                 (issuable now (co_reduceTaskIssuedTime c) (co_reduceFinished c)) of
            Some i \<Rightarrow> (c, task_reply c TaskReduce (int i) '''')
          | None \<Rightarrow> (c\<lparr>co_isDone := True\<rparr>, task_reply c TaskDone 0 ''''))))"
proof -
  have "go_nth (co_mapTaskFilename c) (int i) = Inr (co_mapTaskFilename c ! i)"
    if "least_below (length (co_mapFinished c)) P = Some i" for i P
    using that assms by (auto simp: least_below_Some coordinator_wf_def go_nth_def)
  then show ?thesis
    using assms
    by (auto simp: GetTask_def Let_def coordinator_wf_def find_task_first task_reply_def
        zero_GetTaskReply_def split: option.split)
qed

section \<open>Runs of the coordinator\<close>

text \<open>Calls from any number of workers, at any times and with any arguments.\<close>

inductive coordinator_step :: "Coordinator \<Rightarrow> Coordinator \<Rightarrow> bool" where
  step_GetTask: "GetTask now c reply = Inr (Some (c', reply')) \<Longrightarrow> coordinator_step c c'"
| step_FinishNotify: "FinishNotify c args = Inr c' \<Longrightarrow> coordinator_step c c'"

inductive_cases coordinator_stepE: "coordinator_step c c'"

definition unstarted :: "string list \<Rightarrow> int \<Rightarrow> Coordinator \<Rightarrow> bool" where
  "unstarted files nReduce c \<longleftrightarrow> co_mapTaskFilename c = files \<and>
     co_mapFinished c = replicate (length files) False \<and>
     co_mapTaskIssuedTime c = replicate (length files) 0 \<and>
     co_reduceFinished c = replicate (nat nReduce) False \<and>
     co_reduceTaskIssuedTime c = replicate (nat nReduce) 0 \<and>
     co_nMaps c = int (length files) \<and> co_nReduce c = nReduce"

lemma unstarted_wf: "unstarted files nReduce c \<Longrightarrow> coordinator_wf c"
  by (simp add: unstarted_def coordinator_wf_def)

lemma replicate_False: "(replicate n False)[i := False] = replicate n False"
  by (metis list_update_id nth_replicate linorder_not_less list_update_beyond length_replicate)

lemma GetTask_unchanged: "GetTask now c reply = Inr (Some (c', reply')) \<Longrightarrow> c' = c \<or> c' = c\<lparr>co_isDone := True\<rparr>"
  by (auto simp: GetTask_def Let_def go_bind_Inr_iff split: option.splits)

lemma GetTask_unstarted:
  "unstarted files nReduce c \<Longrightarrow> GetTask now c reply = Inr (Some (c', reply')) \<Longrightarrow> unstarted files nReduce c'"
  using GetTask_unchanged [of now c reply c' reply'] by (auto simp: unstarted_def)

lemma FinishNotify_unstarted:
  "unstarted files nReduce c \<Longrightarrow> FinishNotify c args = Inr c' \<Longrightarrow> unstarted files nReduce c'"
  by (auto simp: FinishNotify_def unstarted_def go_bind_Inr_iff go_set_Inr_iff replicate_False
      split: if_splits)

interpretation coord: inductive_invariant
  "\<lambda>c. \<exists>uid listen. MakeCoordinator uid listen files nReduce = Inr c" coordinator_step
  "unstarted files nReduce"
proof
  fix s assume "\<exists>uid listen. MakeCoordinator uid listen files nReduce = Inr s"
  then show "unstarted files nReduce s"
    by (auto simp: MakeCoordinator_def unstarted_def Let_def go_bind_Inr_iff split: if_splits)
next
  fix s t assume "unstarted files nReduce s" "coordinator_step s t"
  then show "unstarted files nReduce t"
    by (auto elim!: coordinator_stepE dest: GetTask_unstarted FinishNotify_unstarted)
qed

lemma unstarted_GetTask:
  assumes "unstarted files nReduce c" and "files \<noteq> []"
  shows "GetTask now c zero_GetTaskReply = Inr (Some (c, task_reply c TaskMap 0 (hd files)))"
proof -
  have "least_below (length (co_mapFinished c)) (issuable now (co_mapTaskIssuedTime c) (co_mapFinished c)) = Some 0"
    using assms by (simp add: least_below_Some issuable_def unstarted_def)
  then show ?thesis
    using GetTask_cases [OF unstarted_wf [OF assms(1)]] assms by (simp add: unstarted_def hd_conv_nth)
qed

section \<open>Properties\<close>

text \<open>
  Assignment. On a well-formed coordinator \<open>GetTask\<close> neither panics nor waits. It hands out
  the first map task that is unfinished and was never issued or was issued more than ten seconds
  ago; if there is none, the first such reduce task, even when maps are still unfinished; and if
  there is none either, it answers \<open>Done\<close> and marks the job done. It never records that a task
  was issued.
\<close>

theorem GetTask_assigns:
  assumes "coordinator_wf c"
  shows "\<exists>c' reply. GetTask now c zero_GetTaskReply = Inr (Some (c', reply)) \<and>
    co_mapTaskIssuedTime c' = co_mapTaskIssuedTime c \<and>
    (let m = issuable now (co_mapTaskIssuedTime c) (co_mapFinished c);
         r = issuable now (co_reduceTaskIssuedTime c) (co_reduceFinished c)
     in (\<exists>i. m i \<and> (\<forall>j < i. \<not> m j) \<and> c' = c \<and> reply = task_reply c TaskMap (int i) (co_mapTaskFilename c ! i)) \<or>
        (\<exists>i. (\<forall>j. \<not> m j) \<and> r i \<and> (\<forall>j < i. \<not> r j) \<and> c' = c \<and> reply = task_reply c TaskReduce (int i) '''') \<or>
        (\<forall>j. \<not> m j \<and> \<not> r j) \<and> c' = c\<lparr>co_isDone := True\<rparr> \<and> reply = task_reply c TaskDone 0 '''')"
proof -
  let ?first = "\<lambda>fin issued. least_below (length fin) (issuable now issued fin)"
  have none: "?first fin issued = None \<Longrightarrow> \<not> issuable now issued fin j" for fin issued j
    unfolding least_below_None by (auto simp: issuable_def)
  show ?thesis
  proof (cases "?first (co_mapFinished c) (co_mapTaskIssuedTime c)")
    case (Some i)
    show ?thesis unfolding GetTask_cases [OF assms] Let_def Some option.case
      by (rule exI, rule exI, rule conjI [OF refl], rule conjI [OF refl], rule disjI1)
        (use Some in \<open>auto simp: least_below_Some\<close>)
  next
    case None
    note m = None
    show ?thesis
    proof (cases "?first (co_reduceFinished c) (co_reduceTaskIssuedTime c)")
      case (Some i)
      show ?thesis unfolding GetTask_cases [OF assms] Let_def m Some option.case
        by (rule exI, rule exI, rule conjI [OF refl], rule conjI [OF refl], rule disjI2, rule disjI1)
          (use Some none [OF m] in \<open>auto simp: least_below_Some\<close>)
    next
      case None
      then show ?thesis unfolding GetTask_cases [OF assms] Let_def m None option.case
        by (intro exI conjI disjI2 refl) (use none [OF m] none [OF None] in simp_all)
    qed
  qed
qed

definition sample_coordinator :: Coordinator where
  "sample_coordinator = \<lparr>co_nMaps = 1, co_nReduce = 2, co_mapTaskFilename = [''a.txt''],
     co_mapFinished = [False], co_mapTaskIssuedTime = [5], co_reduceFinished = [True, False],
     co_reduceTaskIssuedTime = [0, 0], co_isDone = False\<rparr>"

text \<open>The map task was issued a moment ago and is not finished, and a reduce task is handed out.\<close>

theorem GetTask_assigns_witness:
  "GetTask 6 sample_coordinator zero_GetTaskReply =
     Inr (Some (sample_coordinator, task_reply sample_coordinator TaskReduce 1 ''''))"
proof -
  let ?m = "issuable 6 (co_mapTaskIssuedTime sample_coordinator) (co_mapFinished sample_coordinator)"
  let ?r = "issuable 6 (co_reduceTaskIssuedTime sample_coordinator) (co_reduceFinished sample_coordinator)"
  have m: "\<not> ?m i" for i by (cases i) (simp_all add: issuable_def sample_coordinator_def)
  have r: "?r i \<longleftrightarrow> i = 1" for i
    by (cases i) (auto simp: issuable_def sample_coordinator_def less_Suc_eq)
  have "coordinator_wf sample_coordinator" by (simp add: coordinator_wf_def sample_coordinator_def)
  from GetTask_assigns [OF this, of 6] show ?thesis unfolding Let_def using m r by force
qed

text \<open>
  C36. The job makes no progress. Whatever workers ask and report, in every state a coordinator
  with at least one input file can reach, \<open>GetTask\<close> hands out map task 0 again, at every time, and
  \<open>Done\<close> is false: a report of completion sets the finished flag to false, and \<open>Done\<close> does not
  look at the flags.
\<close>

theorem coordinator_never_progresses:
  assumes "reaches (\<lambda>c. \<exists>uid listen. MakeCoordinator uid listen files nReduce = Inr c) coordinator_step c"
    and "files \<noteq> []"
  shows "(\<exists>reply. GetTask now c zero_GetTaskReply = Inr (Some (c, reply)) \<and>
    gr_Type reply = TaskMap \<and> gr_TaskNum reply = 0 \<and> gr_Filename reply = hd files) \<and>
    \<not> Coordinator_Done c"
  using unstarted_GetTask [OF coord.invar_reaches [OF assms(1)] assms(2), of now]
  by (simp add: task_reply_def Coordinator_Done_def)

theorem coordinator_never_progresses_witness:
  "\<exists>c c'. MakeCoordinator 0 None [''a.txt''] 1 = Inr c \<and>
     FinishNotify c \<lparr>fa_TaskNum = 0, fa_Type = TaskMap\<rparr> = Inr c' \<and>
     (\<exists>reply. GetTask 7 c' zero_GetTaskReply = Inr (Some (c', reply)) \<and> gr_Filename reply = ''a.txt'')"
proof -
  obtain c where c: "MakeCoordinator 0 None [''a.txt''] 1 = Inr c"
    by (simp add: MakeCoordinator_def Coordinator_server_def Let_def)
  obtain c' where c': "FinishNotify c \<lparr>fa_TaskNum = 0, fa_Type = TaskMap\<rparr> = Inr c'"
    using c by (auto simp: MakeCoordinator_def Coordinator_server_def FinishNotify_def go_set_def Let_def)
  have "reaches (\<lambda>c. \<exists>uid listen. MakeCoordinator uid listen [''a.txt''] 1 = Inr c) coordinator_step c'"
    by (rule reaches_step [where s = c], rule reaches_init) (use c step_FinishNotify [OF c'] in blast)+
  from coordinator_never_progresses [OF this, of 7] show ?thesis using c c' by auto
qed

end
