(* ===== verification/Mr_Sequential.thy ===== *)
theory Mr_Sequential
  imports Mr_Apps
begin

text \<open>
  \<open>main/mrsequential.go\<close>: read every input, map it, sort the pairs by key, and call Reduce once
  for each run of equal keys. The file system is a map from names to contents, and \<open>sort.Sort\<close>
  is an argument, because it is not stable: all it promises is a permutation that is sorted by
  key. The properties say that the output has one line per key, in order, and what the line
  holds for word count and for the index.
\<close>

section \<open>The program\<close>

type_synonym filesystem = "string \<rightharpoonup> string"

text \<open>The mapping loop over the input files.\<close>

fun map_files :: "map_fn \<Rightarrow> filesystem \<Rightarrow> string list \<Rightarrow> KeyValue list \<Rightarrow> KeyValue list go" where
  "map_files mapf fs [] intermediate = Inr intermediate"
| "map_files mapf fs (filename # rest) intermediate =
     (case fs filename of
        None \<Rightarrow> Inl (Fatal (''cannot open '' @ filename))
      | Some content \<Rightarrow>
          go_bind (mapf filename content) (\<lambda>kva. map_files mapf fs rest (intermediate @ kva)))"

text \<open>The inner loop that finds the end \<open>j\<close> of the run that starts at \<open>i\<close>.\<close>

function run_end :: "KeyValue list \<Rightarrow> nat \<Rightarrow> nat \<Rightarrow> nat" where
  "run_end kvs i j =
     (if j < length kvs \<and> kv_Key (kvs ! j) = kv_Key (kvs ! i) then run_end kvs i (j + 1) else j)"
  by auto
termination
  by (relation "measure (\<lambda>(kvs, i, j). length kvs - j)") auto

declare run_end.simps [simp del]

lemma run_end_ge: "j \<le> run_end kvs i j"
proof (induction kvs i j rule: run_end.induct)
  case (1 kvs i j)
  then show ?case by (subst run_end.simps) auto
qed

lemma run_end_le: "j \<le> length kvs \<Longrightarrow> run_end kvs i j \<le> length kvs"
proof (induction kvs i j rule: run_end.induct)
  case (1 kvs i j)
  then show ?case by (subst run_end.simps) auto
qed

definition output_line :: "string \<Rightarrow> string \<Rightarrow> string" where
  "output_line key res = key @ '' '' @ res @ [CHR 0x0A]"

text \<open>The reduce loop; \<open>out\<close> is what has been written so far.\<close>

function reduce_loop :: "reduce_fn \<Rightarrow> KeyValue list \<Rightarrow> nat \<Rightarrow> string \<Rightarrow> string go" where
  "reduce_loop reducef kvs i out =
     (if i < length kvs
      then let j = run_end kvs i (i + 1);
               vals = map (\<lambda>k. kv_Value (kvs ! k)) [i..<j]
           in go_bind (reducef (kv_Key (kvs ! i)) vals) (\<lambda>res.
                reduce_loop reducef kvs j (out @ output_line (kv_Key (kvs ! i)) res))
      else Inr out)"
  by auto
termination
proof (relation "measure (\<lambda>(reducef, kvs, i, out). length kvs - i)")
  fix reducef :: reduce_fn and kvs i out x xa xb
  assume "i < length kvs" "x = run_end kvs i (i + 1)"
  moreover have "i + 1 \<le> run_end kvs i (i + 1)" by (rule run_end_ge)
  ultimately show "((reducef, kvs, x, out @ output_line (kv_Key (kvs ! i)) xb), reducef, kvs, i, out)
      \<in> measure (\<lambda>(reducef, kvs, i, out). length kvs - i)"
    by simp
qed simp

declare reduce_loop.simps [simp del]

text \<open>\<open>srt\<close> is \<open>sort.Sort(ByKey(...))\<close>; \<open>created\<close> says whether \<open>os.Create\<close> succeeded. A run that ends early
  has no result: the lines that it may have written to \<open>mr-out-0\<close> before are not recorded.\<close>

definition mrsequential ::
  "(KeyValue list \<Rightarrow> KeyValue list) \<Rightarrow> bool \<Rightarrow> (string \<Rightarrow> (map_fn \<times> reduce_fn) go) \<Rightarrow>
   string list \<Rightarrow> filesystem \<Rightarrow> filesystem go" where
  "mrsequential srt created loadPlugin args fs =
     (if length args < 3 then Inl (Exit 1)
      else
        go_bind (loadPlugin (args ! 1)) (\<lambda>(mapf, reducef).
        go_bind (map_files mapf fs (drop 2 args) []) (\<lambda>intermediate.
        go_bind (reduce_loop reducef (srt intermediate) 0 []) (\<lambda>out.
        Inr (if created then fs(''mr-out-0'' \<mapsto> out) else fs)))))"

text \<open>\<open>plugin\<close> is the symbol table of the shared object, if it can be opened.\<close>

definition loadPlugin ::
  "(string \<rightharpoonup> (map_fn option \<times> reduce_fn option)) \<Rightarrow> string \<Rightarrow> (map_fn \<times> reduce_fn) go" where
  "loadPlugin plugin filename =
     (case plugin filename of
        None \<Rightarrow> Inl (Fatal (''cannot load plugin '' @ filename))
      | Some (xmapf, xreducef) \<Rightarrow>
          (case xmapf of
             None \<Rightarrow> Inl (Fatal (''cannot find Map in '' @ filename))
           | Some mapf \<Rightarrow>
               (case xreducef of
                  None \<Rightarrow> Inl (Fatal (''cannot find Reduce in '' @ filename))
                | Some reducef \<Rightarrow> Inr (mapf, reducef))))"

definition sort_by_key :: "(KeyValue list \<Rightarrow> KeyValue list) \<Rightarrow> bool" where
  "sort_by_key srt \<longleftrightarrow> (\<forall>kvs. mset (srt kvs) = mset kvs \<and> sorted (map kv_Key (srt kvs)))"

section \<open>Runs of equal keys\<close>

text \<open>The same loop on the list that is left, and the values of one key.\<close>

abbreviation has_key :: "string \<Rightarrow> KeyValue \<Rightarrow> bool" where
  "has_key k \<equiv> \<lambda>x. kv_Key x = k"

function reduce_runs :: "reduce_fn \<Rightarrow> KeyValue list \<Rightarrow> string \<Rightarrow> string go" where
  "reduce_runs reducef [] out = Inr out"
| "reduce_runs reducef (x # xs) out =
     go_bind (reducef (kv_Key x) (map kv_Value (x # takeWhile (has_key (kv_Key x)) xs))) (\<lambda>res.
       reduce_runs reducef (dropWhile (has_key (kv_Key x)) xs) (out @ output_line (kv_Key x) res))"
  by pat_completeness auto
termination
  by (relation "measure (\<lambda>(_, xs, _). length xs)") (auto simp: less_Suc_eq_le length_dropWhile_le)

definition values_of :: "KeyValue list \<Rightarrow> string \<Rightarrow> string list" where
  "values_of kvs k = map kv_Value (filter (has_key k) kvs)"

lemma run_end_takeWhile:
  "j \<le> length kvs \<Longrightarrow> run_end kvs i j = j + length (takeWhile (has_key (kv_Key (kvs ! i))) (drop j kvs))"
proof (induction kvs i j rule: run_end.induct)
  case (1 kvs i j)
  show ?case
  proof (cases "j < length kvs")
    case True
    then show ?thesis using 1 by (subst run_end.simps) (simp add: Cons_nth_drop_Suc [symmetric])
  next
    case False
    then show ?thesis by (subst run_end.simps) simp
  qed
qed

lemma map_nth_upt: "j \<le> length xs \<Longrightarrow> map (\<lambda>k. f (xs ! k)) [i..<j] = map f (take (j - i) (drop i xs))"
  by (rule nth_equalityI) auto

lemma reduce_loop_runs:
  "reduce_loop reducef kvs i out = reduce_runs reducef (drop i kvs) out"
proof (induction reducef kvs i out rule: reduce_loop.induct)
  case (1 reducef kvs i out)
  show ?case
  proof (cases "i < length kvs")
    case True
    define tw where "tw = takeWhile (has_key (kv_Key (kvs ! i))) (drop (Suc i) kvs)"
    have j: "run_end kvs i (i + 1) = Suc i + length tw"
      using run_end_takeWhile [of "i + 1" kvs i] True by (simp add: tw_def)
    have le: "Suc i + length tw \<le> length kvs"
      using run_end_le [of "i + 1" kvs i] True j by simp
    have d: "drop i kvs = kvs ! i # drop (Suc i) kvs" using True by (simp add: Cons_nth_drop_Suc)
    have "take (length tw) (drop (Suc i) kvs) = tw"
      unfolding tw_def by (metis takeWhile_eq_take)
    then have v: "map (\<lambda>k. kv_Value (kvs ! k)) [i..<Suc i + length tw] = map kv_Value (kvs ! i # tw)"
      unfolding map_nth_upt [OF le] d by (simp add: take_Suc_Cons)
    have "drop (Suc i + length tw) kvs = dropWhile (has_key (kv_Key (kvs ! i))) (drop (Suc i) kvs)"
      unfolding tw_def by (simp add: dropWhile_eq_drop ac_simps)
    moreover have "reduce_loop reducef kvs i out =
        go_bind (reducef (kv_Key (kvs ! i)) (map kv_Value (kvs ! i # tw))) (\<lambda>res.
          reduce_loop reducef kvs (Suc i + length tw) (out @ output_line (kv_Key (kvs ! i)) res))"
      using True unfolding reduce_loop.simps [of reducef kvs i out] Let_def j v by simp
    moreover have "reduce_loop reducef kvs (Suc i + length tw) (out @ output_line (kv_Key (kvs ! i)) res)
        = reduce_runs reducef (drop (Suc i + length tw) kvs) (out @ output_line (kv_Key (kvs ! i)) res)"
      if "reducef (kv_Key (kvs ! i)) (map kv_Value (kvs ! i # tw)) = Inr res" for res
      using "1.IH" [OF True j [symmetric] refl] that unfolding v by blast
    ultimately show ?thesis
      unfolding d reduce_runs.simps tw_def [symmetric] by (simp cong: go_bind_cong)
  next
    case False
    then show ?thesis by (subst reduce_loop.simps) simp
  qed
qed

text \<open>In a list sorted by key the first run holds all pairs of the first key.\<close>

lemma sorted_run:
  assumes "sorted (map kv_Key (x # xs))"
  shows "takeWhile (has_key (kv_Key x)) xs = filter (has_key (kv_Key x)) xs"
    and "dropWhile (has_key (kv_Key x)) xs = filter (\<lambda>y. kv_Key y \<noteq> kv_Key x) xs"
  using assms
proof (induction xs)
  case (Cons y ys)
  {
    case 1
    then show ?case
    proof (cases "kv_Key y = kv_Key x")
      case False
      with 1 have "\<forall>z \<in> set ys. kv_Key z \<noteq> kv_Key x" by fastforce
      then show ?thesis using False by (simp add: filter_empty_conv)
    qed (use Cons.IH in auto)
  next
    case 2
    then show ?case
    proof (cases "kv_Key y = kv_Key x")
      case False
      with 2 have "\<forall>z \<in> set ys. kv_Key z \<noteq> kv_Key x" by fastforce
      then show ?thesis using False by (simp add: filter_True)
    qed (use Cons.IH in auto)
  }
qed simp_all

lemma sorted_list_of_set_least:
  assumes "finite S" and "\<And>y. y \<in> S \<Longrightarrow> (x :: 'a :: linorder) < y"
  shows "sorted_list_of_set (insert x S) = x # sorted_list_of_set S"
proof (rule sorted_distinct_set_unique)
  show "sorted (x # sorted_list_of_set S)" "distinct (x # sorted_list_of_set S)"
    using assms by (auto simp: less_imp_le)
  show "set (sorted_list_of_set (insert x S)) = set (x # sorted_list_of_set S)"
    using assms(1) by (simp only: set_sorted_list_of_set finite_insert list.set)
qed (rule sorted_sorted_list_of_set distinct_sorted_list_of_set)+

lemma reduce_runs_keys:
  assumes "sorted (map kv_Key kvs)" and "\<And>k vs. reducef k vs = Inr (r k vs)"
  shows "reduce_runs reducef kvs out = Inr (out @ concat (map (\<lambda>k. output_line k (r k (values_of kvs k)))
    (sorted_list_of_set (kv_Key ` set kvs))))"
  using assms(1)
proof (induction "length kvs" arbitrary: kvs out rule: less_induct)
  case less
  show ?case
  proof (cases kvs)
    case (Cons x xs)
    define ys where "ys = filter (\<lambda>y. kv_Key y \<noteq> kv_Key x) xs"
    note run = sorted_run [of x xs, folded ys_def] less.prems [unfolded Cons]
    have le: "\<And>y. y \<in> set xs \<Longrightarrow> kv_Key x \<le> kv_Key y" using run(3) by simp
    have "sorted (map kv_Key ys)" "length ys < length kvs"
      using run(3) by (simp_all add: ys_def sorted_filter Cons less_Suc_eq_le)
    note IH = less.hyps [OF this(2,1)]
    have keys: "kv_Key ` set kvs = insert (kv_Key x) (kv_Key ` set ys)"
      by (auto simp: Cons ys_def)
    have "kv_Key x < k" if "k \<in> kv_Key ` set ys" for k
      using that le by (force simp: ys_def)
    then have s: "sorted_list_of_set (kv_Key ` set kvs) = kv_Key x # sorted_list_of_set (kv_Key ` set ys)"
      unfolding keys by (intro sorted_list_of_set_least) auto
    have same: "map (\<lambda>k. output_line k (r k (values_of kvs k))) (sorted_list_of_set (kv_Key ` set ys)) =
        map (\<lambda>k. output_line k (r k (values_of ys k))) (sorted_list_of_set (kv_Key ` set ys))"
    proof (rule map_cong [OF refl])
      fix k assume "k \<in> set (sorted_list_of_set (kv_Key ` set ys))"
      then have "k \<noteq> kv_Key x" by (auto simp: ys_def)
      then have "filter (has_key k) kvs = filter (has_key k) ys"
        by (auto simp: ys_def Cons intro!: filter_cong)
      then show "output_line k (r k (values_of kvs k)) = output_line k (r k (values_of ys k))"
        by (simp add: values_of_def)
    qed
    have "values_of kvs (kv_Key x) = map kv_Value (x # filter (has_key (kv_Key x)) xs)"
      by (simp add: values_of_def Cons)
    then have "reduce_runs reducef kvs out =
        reduce_runs reducef ys (out @ output_line (kv_Key x) (r (kv_Key x) (values_of kvs (kv_Key x))))"
      unfolding Cons reduce_runs.simps run(1) [OF run(3)] run(2) [OF run(3)] assms(2) by simp
    then show ?thesis unfolding IH s list.map same by simp
  qed simp
qed

section \<open>The output\<close>

lemma map_files_all:
  assumes "\<And>f. f \<in> set files \<Longrightarrow> fs f = Some (content f)"
    and "\<And>f. f \<in> set files \<Longrightarrow> mapf f (content f) = Inr (mf f)"
  shows "map_files mapf fs files acc = Inr (acc @ concat (map mf files))"
  using assms by (induction files arbitrary: acc) auto

context order_free
begin

text \<open>For a Reduce function that does not look at the order, the choice of the sort is invisible.\<close>

lemma sorted_output:
  assumes srt: "sort_by_key srt" and total: "\<And>k vs. red k vs = Inr (r k vs)"
  shows "reduce_loop red (srt kvs) 0 [] =
    Inr (concat (map (\<lambda>k. output_line k (r k (values_of kvs k))) (sorted_list_of_set (kv_Key ` set kvs))))"
proof -
  have s: "mset (srt kvs) = mset kvs" "sorted (map kv_Key (srt kvs))"
    using srt by (simp_all add: sort_by_key_def)
  have "mset (values_of (srt kvs) k) = mset (values_of kvs k)" for k
    unfolding values_of_def mset_map mset_filter s(1) ..
  then have "r k (values_of (srt kvs) k) = r k (values_of kvs k)" for k
    using mset_values [of "values_of (srt kvs) k" "values_of kvs k" k] total by simp
  moreover have "set (srt kvs) = set kvs" using s(1) by (rule mset_eq_setD)
  ultimately show ?thesis
    unfolding reduce_loop_runs drop_0 reduce_runs_keys [OF s(2) total] by simp
qed

end

text \<open>The program on files that all exist, with an application that never exits.\<close>

lemma mrsequential_run:
  assumes "order_free red" and "sort_by_key srt" and "\<And>k vs. red k vs = Inr (r k vs)"
    and "plugin so = Some (Some mapf, Some red)" and "files \<noteq> []"
    and "\<And>f. f \<in> set files \<Longrightarrow> fs f = Some (content f)"
    and "\<And>f. f \<in> set files \<Longrightarrow> mapf f (content f) = Inr (mf f)"
    and "kvs = concat (map mf files)"
  shows "mrsequential srt True (loadPlugin plugin) (prog # so # files) fs =
    Inr (fs(''mr-out-0'' \<mapsto> concat (map (\<lambda>k. output_line k (r k (values_of kvs k)))
      (sorted_list_of_set (kv_Key ` set kvs)))))"
  using assms(4,5) map_files_all [of files fs content mapf mf "[]"] assms(6,7)
    order_free.sorted_output [OF assms(1,2,3), of kvs]
  by (simp add: mrsequential_def loadPlugin_def assms(8) Suc_le_eq not_less)

abbreviation words :: "string \<Rightarrow> string list" where
  "words s \<equiv> FieldsFunc s (\<lambda>r. \<not> IsLetter r)"

abbreviation letters_at :: "string \<Rightarrow> string \<Rightarrow> nat \<Rightarrow> bool" where
  "letters_at \<equiv> word_at (\<lambda>r. \<not> IsLetter r)"

text \<open>The words of a set of files, and how often a word occurs in a list of files.\<close>

definition all_words :: "(string \<Rightarrow> string) \<Rightarrow> string list \<Rightarrow> string set" where
  "all_words content files = {w. w \<noteq> [] \<and> (\<exists>f \<in> set files. \<exists>i. letters_at (content f) w i)}"

definition occurrences :: "(string \<Rightarrow> string) \<Rightarrow> string list \<Rightarrow> string \<Rightarrow> nat" where
  "occurrences content files w = (\<Sum>f \<leftarrow> files. card {i. letters_at (content f) w i})"

lemma in_words: "w \<in> set (words s) \<longleftrightarrow> w \<noteq> [] \<and> (\<exists>i. letters_at s w i)"
proof (cases "w = []")
  case True
  then show ?thesis using FieldsFunc_words [of w s] by blast
next
  case False
  have "w \<in> set (words s) \<longleftrightarrow> count_list (words s) w \<noteq> 0" by (simp add: count_list_0_iff)
  also have "\<dots> \<longleftrightarrow> {i. letters_at s w i} \<noteq> {}"
    unfolding FieldsFunc_count [OF False] by (simp add: word_at_finite card_eq_0_iff)
  finally show ?thesis using False by blast
qed

lemma all_words_eq: "all_words content files = (\<Union>f \<in> set files. set (words (content f)))"
  unfolding all_words_def by (simp add: set_eq_iff in_words)

lemma wc_values:
  assumes "w \<noteq> []"
  shows "length (values_of (concat (map (\<lambda>f. map (\<lambda>w. kv_pair w ''1'') (words (content f))) files)) w) =
    occurrences content files w"
proof (induction files)
  case (Cons f files)
  have "length (filter (has_key w) (map (\<lambda>w. kv_pair w ''1'') xs)) = count_list xs w" for xs
    by (induction xs) auto
  then show ?case
    using Cons FieldsFunc_count [OF assms] by (simp add: values_of_def occurrences_def)
qed (simp add: values_of_def occurrences_def)

lemma finite_all_words: "finite (all_words content files)"
  unfolding all_words_eq by simp

section \<open>Properties\<close>

text \<open>
  C35. Word count. On input files that exist, and with any sort that orders the pairs by key,
  \<open>mrsequential wc.so files...\<close> writes to \<open>mr-out-0\<close> exactly one line for every word of the
  files, in ascending order, with the number of places in the files where the word stands as a
  maximal run of letters; it writes nothing else.
\<close>

theorem word_count_correct:
  assumes "sort_by_key srt" and "plugin so = Some (Some wc_Map, Some wc_Reduce)" and "files \<noteq> []"
    and "\<forall>f \<in> set files. fs f = Some (content f)"
  shows "mrsequential srt True (loadPlugin plugin) (prog # so # files) fs =
    Inr (fs(''mr-out-0'' \<mapsto> concat (map (\<lambda>w. output_line w (Itoa (int (occurrences content files w))))
      (sorted_list_of_set (all_words content files)))))"
proof -
  define kvs where "kvs = concat (map (\<lambda>f. map (\<lambda>w. kv_pair w ''1'') (words (content f))) files)"
  have keys: "kv_Key ` set kvs = all_words content files"
    by (auto simp: kvs_def all_words_eq image_iff)
  have "output_line w (Itoa (int (length (values_of kvs w)))) =
      output_line w (Itoa (int (occurrences content files w)))"
    if "w \<in> set (sorted_list_of_set (all_words content files))" for w
    using that wc_values [of w content files] finite_all_words by (simp add: kvs_def all_words_def)
  then have lines: "map (\<lambda>w. output_line w (Itoa (int (length (values_of kvs w)))))
      (sorted_list_of_set (all_words content files)) =
      map (\<lambda>w. output_line w (Itoa (int (occurrences content files w))))
      (sorted_list_of_set (all_words content files))"
    by (rule map_cong [OF refl])
  have "mrsequential srt True (loadPlugin plugin) (prog # so # files) fs =
    Inr (fs(''mr-out-0'' \<mapsto> concat (map (\<lambda>k. output_line k (Itoa (int (length (values_of kvs k)))))
      (sorted_list_of_set (kv_Key ` set kvs)))))"
    by (rule mrsequential_run [where content = content
          and red = wc_Reduce and mapf = wc_Map
          and mf = "\<lambda>f. map (\<lambda>w. kv_pair w ''1'') (words (content f))"])
      (use assms in \<open>simp_all add: wc.order_free_axioms kvs_def wc_Reduce_def wc_Map_def\<close>)
  then show ?thesis unfolding keys lines .
qed

definition sample_fs :: "string \<rightharpoonup> string" where
  "sample_fs = [''a.txt'' \<mapsto> ''to be, or not to be'', ''b.txt'' \<mapsto> ''be'']"

lemma sort_key_ok: "sort_by_key (sort_key kv_Key)"
  by (simp add: sort_by_key_def)

lemma occurrences_count:
  "w \<noteq> [] \<Longrightarrow> occurrences content files w = (\<Sum>f \<leftarrow> files. count_list (words (content f)) w)"
  by (simp add: occurrences_def FieldsFunc_count)

lemma sample_words:
  "words ''to be, or not to be'' = [''to'', ''be'', ''or'', ''not'', ''to'', ''be'']" "words ''be'' = [''be'']"
  by code_simp+

lemma sample_word_list:
  "sorted_list_of_set {''to'', ''be'', ''or'', ''not''} = [''be'', ''not'', ''or'', ''to'']"
  by code_simp

theorem word_count_correct_witness:
  "mrsequential (sort_key kv_Key) True (loadPlugin [''wc.so'' \<mapsto> (Some wc_Map, Some wc_Reduce)])
     [''mrsequential'', ''wc.so'', ''a.txt'', ''b.txt''] sample_fs =
   Inr (sample_fs(''mr-out-0'' \<mapsto> concat (map (\<lambda>(w, n). output_line w (Itoa n))
     [(''be'', 3), (''not'', 1), (''or'', 1), (''to'', 2)])))"
proof -
  let ?c = "\<lambda>f. the (sample_fs f)"
  have "all_words ?c [''a.txt'', ''b.txt''] = {''to'', ''be'', ''or'', ''not''}"
    by (auto simp: all_words_eq sample_fs_def sample_words)
  then show ?thesis
    using word_count_correct [OF sort_key_ok, of "[''wc.so'' \<mapsto> (Some wc_Map, Some wc_Reduce)]" "''wc.so''"
        "[''a.txt'', ''b.txt'']" sample_fs ?c "''mrsequential''"]
    by (simp add: sample_word_list occurrences_count) (simp add: sample_fs_def sample_words)
qed

text \<open>
  Inverted index. With any order of the words within a file and any sort by key, the index
  has one line for every word, in ascending order: the number of files the word stands in and
  their names, in ascending order, separated by commas.
\<close>

theorem index_correct:
  assumes "sort_by_key srt" and "\<And>ws. mset (ord ws) = mset ws"
    and "plugin so = Some (Some (indexer_Map ord), Some indexer_Reduce)" and "files \<noteq> []"
    and "\<forall>f \<in> set files. fs f = Some (content f)"
  shows "mrsequential srt True (loadPlugin plugin) (prog # so # files) fs =
    Inr (fs(''mr-out-0'' \<mapsto> concat (map (\<lambda>w.
      let holders = filter (\<lambda>f. \<exists>i. letters_at (content f) w i) files
      in output_line w (Itoa (int (length holders)) @ '' '' @ strings_Join (sort holders) '',''))
      (sorted_list_of_set (all_words content files)))))"
proof -
  define mf where "mf = (\<lambda>f. map (\<lambda>w. kv_pair w f) (ord (remdups (words (content f)))))"
  define r where "r = (\<lambda>(k :: string) vs. Itoa (int (length vs)) @ '' '' @ strings_Join (sort vs) '','')"
  have set_ord: "set (ord ws) = set ws" "distinct (ord ws) = distinct ws" for ws
    using assms(2) [of ws] mset_eq_setD mset_eq_imp_distinct_iff by blast+
  have keys: "kv_Key ` set (concat (map mf files)) = all_words content files"
    by (auto simp: mf_def all_words_eq set_ord image_iff)
  have one: "map kv_Value (filter (has_key w) (mf f)) = (if w \<in> set (words (content f)) then [f] else [])"
    for w f
  proof -
    have "map kv_Value (filter (has_key w) (map (\<lambda>w. kv_pair w f) xs)) = (if w \<in> set xs then [f] else [])"
      if "distinct xs" for xs
      using that by (induction xs) auto
    from this [of "ord (remdups (words (content f)))"] show ?thesis by (simp add: mf_def set_ord)
  qed
  have vals: "values_of (concat (map mf files)) w = filter (\<lambda>f. w \<in> set (words (content f))) files" for w
    by (induction files) (simp_all add: values_of_def one)
  have "mrsequential srt True (loadPlugin plugin) (prog # so # files) fs =
    Inr (fs(''mr-out-0'' \<mapsto> concat (map (\<lambda>k. output_line k (r k (values_of (concat (map mf files)) k)))
      (sorted_list_of_set (kv_Key ` set (concat (map mf files)))))))"
    by (rule mrsequential_run [where content = content and red = indexer_Reduce
          and mapf = "indexer_Map ord" and mf = mf])
      (use assms in \<open>simp_all add: indexer.order_free_axioms indexer_Reduce_def indexer_Map_def mf_def
         r_def sort_Strings_def Let_def\<close>)
  moreover have "map (\<lambda>k. output_line k (r k (values_of (concat (map mf files)) k)))
      (sorted_list_of_set (all_words content files)) = map (\<lambda>w.
      let holders = filter (\<lambda>f. \<exists>i. letters_at (content f) w i) files
      in output_line w (Itoa (int (length holders)) @ '' '' @ strings_Join (sort holders) '',''))
      (sorted_list_of_set (all_words content files))"
    by (rule map_cong [OF refl])
      (use finite_all_words in \<open>simp add: vals in_words r_def Let_def all_words_def\<close>)
  ultimately show ?thesis unfolding keys by (simp only:)
qed

lemma stands_in: "w \<noteq> [] \<Longrightarrow> (\<exists>i. letters_at s w i) \<longleftrightarrow> w \<in> set (words s)"
  by (simp add: in_words)

lemma sample_sort: "sort [''a.txt'', ''b.txt''] = [''a.txt'', ''b.txt'']"
  by code_simp

lemma sample_holders:
  defines "holders \<equiv> \<lambda>w. filter (\<lambda>f. \<exists>i. letters_at (the (sample_fs f)) w i) [''a.txt'', ''b.txt'']"
  shows "holders ''be'' = [''a.txt'', ''b.txt'']" "holders ''not'' = [''a.txt'']"
    "holders ''or'' = [''a.txt'']" "holders ''to'' = [''a.txt'']"
  unfolding holders_def stands_in [OF list.simps(3)]
  by (simp_all add: sample_fs_def sample_words)

theorem index_correct_witness:
  "mrsequential (sort_key kv_Key) True (loadPlugin [''i.so'' \<mapsto> (Some (indexer_Map rev), Some indexer_Reduce)])
     [''mrsequential'', ''i.so'', ''a.txt'', ''b.txt''] sample_fs =
   Inr (sample_fs(''mr-out-0'' \<mapsto> concat (map (\<lambda>(w, n, fs). output_line w (Itoa n @ '' '' @ fs))
     [(''be'', 2, ''a.txt,b.txt''), (''not'', 1, ''a.txt''), (''or'', 1, ''a.txt''), (''to'', 1, ''a.txt'')])))"
proof -
  let ?c = "\<lambda>f. the (sample_fs f)"
  have rev: "mset (rev ws) = mset ws" for ws :: "string list" by simp
  have "all_words ?c [''a.txt'', ''b.txt''] = {''to'', ''be'', ''or'', ''not''}"
    by (auto simp: all_words_eq sample_fs_def sample_words)
  moreover have "\<forall>f \<in> set [''a.txt'', ''b.txt'']. sample_fs f = Some (?c f)"
    by (simp add: sample_fs_def)
  ultimately show ?thesis
    using index_correct [OF sort_key_ok rev, of "[''i.so'' \<mapsto> (Some (indexer_Map rev), Some indexer_Reduce)]"
        "''i.so''" "[''a.txt'', ''b.txt'']" sample_fs ?c "''mrsequential''"]
    by (simp add: sample_sort sample_holders Let_def sample_word_list del: filter.simps)
qed

end
