(* ===== verification/Mr_Worker.thy ===== *)
theory Mr_Worker
  imports Mr_Coordinator Mr_Sequential
begin

text \<open>
  \<open>mr/worker.go\<close>: the hash that would choose a reduce bucket, the map side of a worker on a file
  system, and the worker's loop against a coordinator. \<open>ReduceWorker\<close> has an empty body in the
  source (and a signature that does not parse), so here it does nothing.
\<close>

section \<open>ihash\<close>

text \<open>\<open>hash/fnv\<close>'s 32-bit FNV-1a.\<close>

definition fnv32a :: "string \<Rightarrow> 32 word" where
  "fnv32a s = foldl (\<lambda>h c. (xor h (of_nat (of_char c))) * 16777619) 2166136261 s"

definition ihash :: "string \<Rightarrow> int" where
  "ihash key = uint (and (fnv32a key) 0x7fffffff)"

section \<open>Map tasks\<close>

definition getFinalMapName :: "int \<Rightarrow> string" where
  "getFinalMapName taskNum = ''temp-file-'' @ Itoa taskNum"

text \<open>\<open>json.Encoder.Encode\<close> of a key/value pair, for ASCII text.\<close>

definition hex_digit :: "nat \<Rightarrow> char" where
  "hex_digit n = (if n < 10 then digit n else char_of (87 + n))"

definition json_char :: "char \<Rightarrow> string" where
  "json_char c =
     (let n = of_char c :: nat in
      if n = 34 \<or> n = 92 then [CHR 0x5C, c]
      else if n = 10 then [CHR 0x5C, CHR ''n'']
      else if n = 13 then [CHR 0x5C, CHR ''r'']
      else if n = 9 then [CHR 0x5C, CHR ''t'']
      else if n < 32 \<or> n = 60 \<or> n = 62 \<or> n = 38
      then CHR 0x5C # ''u00'' @ [hex_digit (n div 16), hex_digit (n mod 16)]
      else [c])"

definition json_string :: "string \<Rightarrow> string" where
  "json_string s = CHR 0x22 # concat (map json_char s) @ [CHR 0x22]"

definition json_KeyValue :: "KeyValue \<Rightarrow> string" where
  "json_KeyValue kv =
     ''{'' @ json_string ''Key'' @ '':'' @ json_string (kv_Key kv) @ '','' @
     json_string ''Value'' @ '':'' @ json_string (kv_Value kv) @ ''}'' @ [CHR 0x0A]"

text \<open>The name \<open>ioutil.TempFile\<close> returns, if it succeeds, and whether the rename succeeds (its
  error is ignored).\<close>

record worker_env =
  we_temp :: "string option"
  we_renamed :: bool

definition rename_file :: "string \<Rightarrow> string \<Rightarrow> filesystem \<Rightarrow> filesystem" where
  "rename_file old new fs = (if old = new then fs else (fs(old := None))(new := fs old))"

definition MapWorker :: "worker_env \<Rightarrow> GetTaskReply \<Rightarrow> map_fn \<Rightarrow> filesystem \<Rightarrow> filesystem go" where
  "MapWorker env getReply mapf fs =
     (case fs (gr_Filename getReply) of
        None \<Rightarrow> Inl (Fatal (''cannot open '' @ gr_Filename getReply))
      | Some content \<Rightarrow>
          go_bind (mapf (gr_Filename getReply) content) (\<lambda>kva.
          case we_temp env of
            None \<Rightarrow> Inl NilDereference
          | Some tempFileName \<Rightarrow>
              let fs1 = fs(tempFileName \<mapsto> concat (map json_KeyValue kva))
              in Inr (if we_renamed env
                      then rename_file tempFileName (getFinalMapName (gr_TaskNum getReply)) fs1
                      else fs1)))"

definition ReduceWorker :: "GetTaskReply \<Rightarrow> reduce_fn \<Rightarrow> filesystem \<Rightarrow> filesystem go" where
  "ReduceWorker reply reducef fs = Inr fs"

section \<open>The worker's loop\<close>

text \<open>One iteration, from the reply of \<open>GetTask\<close> to the report it sends.\<close>

definition Worker_iter ::
  "worker_env \<Rightarrow> map_fn \<Rightarrow> reduce_fn \<Rightarrow> GetTaskReply \<Rightarrow> filesystem \<Rightarrow>
   (filesystem \<times> FinishedNotificationArgs) go" where
  "Worker_iter env mapf reducef reply fs =
     go_bind (if gr_Type reply = TaskMap then MapWorker env reply mapf fs
              else if gr_Type reply = TaskReduce then ReduceWorker reply reducef fs
              else if gr_Type reply = TaskDone then Inl (Exit 0)
              else Inr fs) (\<lambda>fs'.
       Inr (fs', \<lparr>fa_TaskNum = gr_TaskNum reply, fa_Type = gr_Type reply\<rparr>))"

text \<open>
  \<open>call\<close>: \<open>dial\<close> is the error of \<open>rpc.DialHTTP\<close>, \<open>rpc\<close> the handler's effect or the error of the
  call; a failed call leaves the reply as it was.
\<close>

definition mr_call :: "string option \<Rightarrow> (string + 'r) \<Rightarrow> 'r \<Rightarrow> (bool \<times> 'r) go" where
  "mr_call dial rpc reply0 =
     (case dial of
        Some e \<Rightarrow> Inl (Fatal (''dialing:'' @ e))
      | None \<Rightarrow> (case rpc of Inr r \<Rightarrow> Inr (True, r) | Inl e \<Rightarrow> Inr (False, reply0)))"

definition CallExample :: "string option \<Rightarrow> (string + unit) \<Rightarrow> string go" where
  "CallExample dial outcome =
     (let args = \<lparr>ea_X = 99\<rparr>; reply0 = \<lparr>er_Y = 0\<rparr>
      in go_bind (mr_call dial (map_sum id (\<lambda>_. Example args) outcome) reply0) (\<lambda>(ok, reply).
           Inr (if ok then ''reply.Y '' @ Itoa (er_Y reply) else ''call failed!'')))"

text \<open>
  Iterations of one worker against a coordinator it can always reach. Each comes with the time
  of the call and what the system answers the worker. A call that waits stops the run.
\<close>

fun Worker ::
  "map_fn \<Rightarrow> reduce_fn \<Rightarrow> (int \<times> worker_env) list \<Rightarrow> Coordinator \<times> filesystem \<Rightarrow>
   (Coordinator \<times> filesystem) go" where
  "Worker mapf reducef [] (c, fs) = Inr (c, fs)"
| "Worker mapf reducef ((now, env) # its) (c, fs) =
     go_bind (GetTask now c zero_GetTaskReply) (\<lambda>res.
     case res of
       None \<Rightarrow> Inr (c, fs)
     | Some (c1, r) \<Rightarrow>
         go_bind (mr_call None (Inr r) zero_GetTaskReply) (\<lambda>(ok, reply).
         go_bind (Worker_iter env mapf reducef reply fs) (\<lambda>(fs1, finishArgs).
         go_bind (FinishNotify c1 finishArgs) (\<lambda>c2.
         Worker mapf reducef its (c2, fs1)))))"

section \<open>Reading a map output back\<close>

text \<open>The reader of one escaped character, and of a string up to its closing quote.\<close>

definition hex_value :: "char \<Rightarrow> nat" where
  "hex_value c = (let n = of_char c :: nat in if n < 58 then n - 48 else n - 87)"

fun json_unescape :: "string \<Rightarrow> char \<times> string" where
  "json_unescape (c # d # cs) =
     (if c = CHR 0x5C
      then if d = CHR ''n'' then (CHR 0x0A, cs) else if d = CHR ''r'' then (CHR 0x0D, cs)
           else if d = CHR ''t'' then (CHR 0x09, cs)
           else if d = CHR ''u''
           then (char_of (16 * hex_value (cs ! 2) + hex_value (cs ! 3)), drop 4 cs)
           else (d, cs)
      else (c, d # cs))"
| "json_unescape [c] = (c, [])"
| "json_unescape [] = (CHR 0x00, [])"

lemma hex_value_digit: "n < 16 \<Longrightarrow> hex_value (hex_digit n) = n"
  by (simp add: hex_value_def hex_digit_def digit_def)

lemma of_char_eq: "of_char c = (n :: nat) \<Longrightarrow> c = char_of n"
  by (metis char_of_char)

lemma special_chars: "char_of (34 :: nat) = CHR 0x22" "char_of (92 :: nat) = CHR 0x5C"
  "char_of (10 :: nat) = CHR 0x0A" "char_of (13 :: nat) = CHR 0x0D" "char_of (9 :: nat) = CHR 0x09"
  by code_simp+

lemma json_char_unescape:
  assumes "rest \<noteq> []"
  shows "json_unescape (json_char c @ rest) = (c, rest)"
proof -
  define n where "n = (of_char c :: nat)"
  have c: "c = char_of n" by (simp add: n_def)
  consider "n = 34 \<or> n = 92" | "n = 10" | "n = 13" | "n = 9"
    | "n \<notin> {9, 10, 13, 34, 92}" "n < 32 \<or> n = 60 \<or> n = 62 \<or> n = 38"
    | "n \<notin> {34, 92}" "\<not> n < 32" "n \<noteq> 60" "n \<noteq> 62" "n \<noteq> 38"
    by fastforce
  then show ?thesis
  proof cases
    case 1
    then show ?thesis
    proof
      assume "n = 34"
      then have "c = CHR 0x22" using c special_chars by simp
      then show ?thesis by (simp add: json_char_def)
    next
      assume "n = 92"
      then have "c = CHR 0x5C" using c special_chars by simp
      then show ?thesis by (simp add: json_char_def)
    qed
  next
    case 5
    have "json_char c = CHR 0x5C # ''u00'' @ [hex_digit (n div 16), hex_digit (n mod 16)]"
      using 5 by (simp add: json_char_def Let_def flip: n_def)
    moreover have "hex_value (hex_digit (n div 16)) = n div 16" "hex_value (hex_digit (n mod 16)) = n mod 16"
      using 5 by (auto intro!: hex_value_digit)
    moreover have "16 * (n div 16) + n mod 16 = n" by simp
    ultimately show ?thesis using c by simp
  next
    case 6
    then have "json_char c = [c]" by (simp add: json_char_def Let_def flip: n_def)
    moreover have "c \<noteq> CHR 0x5C" using 6 n_def by auto
    ultimately show ?thesis using assms by (cases rest) auto
  qed (simp_all add: c json_char_def Let_def special_chars)
qed

lemma json_char_start: "json_char c @ xs \<noteq> CHR 0x22 # ys"
proof
  assume a: "json_char c @ xs = CHR 0x22 # ys"
  show False
  proof (cases "of_char c = (34 :: nat)")
    case True
    then show False using a by (simp add: json_char_def Let_def)
  next
    case False
    then have "c \<noteq> CHR 0x22" by auto
    then show False using a False by (auto simp: json_char_def Let_def split: if_splits)
  qed
qed

lemma json_chars_inject:
  "concat (map json_char s) @ CHR 0x22 # xs = concat (map json_char t) @ CHR 0x22 # ys \<Longrightarrow> s = t \<and> xs = ys"
proof (induction s arbitrary: t)
  case Nil
  show ?case
  proof (cases t)
    case (Cons d t')
    then have "json_char d @ (concat (map json_char t') @ CHR 0x22 # ys) = CHR 0x22 # xs"
      using Nil by simp
    then show ?thesis using json_char_start by blast
  qed (use Nil in simp)
next
  case (Cons c s)
  show ?case
  proof (cases t)
    case Nil
    then show ?thesis using Cons.prems json_char_start by (simp add: append_assoc)
  next
    case (Cons d t')
    let ?x = "concat (map json_char s) @ CHR 0x22 # xs" and ?y = "concat (map json_char t') @ CHR 0x22 # ys"
    have eq: "json_char c @ ?x = json_char d @ ?y" using Cons.prems Cons by simp
    have "json_unescape (json_char c @ ?x) = (c, ?x)" by (rule json_char_unescape) simp
    moreover have "json_unescape (json_char d @ ?y) = (d, ?y)" by (rule json_char_unescape) simp
    ultimately have "(c, ?x) = (d, ?y)" unfolding eq by (rule trans [OF sym])
    then have same: "c = d \<and> ?x = ?y" unfolding prod.inject .
    from Cons.IH [OF conjunct2 [OF this]] have "s = t' \<and> xs = ys" .
    with same show ?thesis using Cons by blast
  qed
qed

lemma json_string_inject: "json_string s @ xs = json_string t @ ys \<Longrightarrow> s = t \<and> xs = ys"
  by (rule json_chars_inject) (simp add: json_string_def)

lemma json_KeyValue_inject: "json_KeyValue k @ xs = json_KeyValue l @ ys \<Longrightarrow> k = l \<and> xs = ys"
proof -
  assume a: "json_KeyValue k @ xs = json_KeyValue l @ ys"
  have q: "json_string s @ '','' @ json_string ''Value'' @ u = json_string s' @ '','' @ json_string ''Value'' @ u'
      \<Longrightarrow> s = s' \<and> u = u'" for s s' u u'
    using json_string_inject [of s "'','' @ json_string ''Value'' @ u" s' "'','' @ json_string ''Value'' @ u'"]
    by simp
  have "json_string (kv_Key k) @ '','' @ json_string ''Value'' @ '':'' @ json_string (kv_Value k) @ ''}'' @ CHR 0x0A # xs
      = json_string (kv_Key l) @ '','' @ json_string ''Value'' @ '':'' @ json_string (kv_Value l) @ ''}'' @ CHR 0x0A # ys"
    using a unfolding json_KeyValue_def by (simp only: append_assoc append_Cons append_Nil same_append_eq list.inject simp_thms)
  from q [OF this] have key: "kv_Key k = kv_Key l"
    and "json_string (kv_Value k) @ ''}'' @ CHR 0x0A # xs = json_string (kv_Value l) @ ''}'' @ CHR 0x0A # ys"
    by simp_all
  from json_string_inject [OF this(2)] key show "k = l \<and> xs = ys" by simp
qed

lemma json_lines_inject: "concat (map json_KeyValue ks) = concat (map json_KeyValue ls) \<Longrightarrow> ks = ls"
proof (induction ks arbitrary: ls)
  case Nil
  then show ?case by (cases ls) (simp_all add: json_KeyValue_def)
next
  case (Cons k ks)
  show ?case
  proof (cases ls)
    case Nil
    then show ?thesis using Cons.prems by (simp add: json_KeyValue_def)
  next
    case (Cons l ls')
    then show ?thesis using Cons.IH [of ls'] Cons.prems json_KeyValue_inject [of k _ l] by simp
  qed
qed

section \<open>Properties\<close>

lemma ihash_range: "0 \<le> ihash key \<and> ihash key < 2 ^ 31"
proof -
  have "uint (and (fnv32a key) 0x7fffffff) \<le> uint (0x7fffffff :: 32 word)"
    by (simp add: unsigned_and_eq AND_upper2)
  then show ?thesis by (simp add: ihash_def)
qed

text \<open>A published value of the hash: FNV-1a of one letter is \<open>0xe40c292c\<close>, here without its sign bit.\<close>

lemma ihash_letter: "ihash ''a'' = 0x640c292c"
  by code_simp

text \<open>A system that answers a worker: a fresh temporary name, and a rename that works.\<close>

definition env_ok :: "string \<Rightarrow> string \<Rightarrow> filesystem \<Rightarrow> worker_env \<Rightarrow> bool" where
  "env_ok input final fs env \<longleftrightarrow> we_renamed env \<and>
     (\<exists>tmp. we_temp env = Some tmp \<and> fs tmp = None \<and> tmp \<noteq> final \<and> tmp \<noteq> input)"

lemma MapWorker_run:
  assumes "fs (gr_Filename reply) = Some content" and "mapf (gr_Filename reply) content = Inr kva"
    and "env_ok (gr_Filename reply) (getFinalMapName (gr_TaskNum reply)) fs env"
  shows "MapWorker env reply mapf fs =
    Inr (fs(getFinalMapName (gr_TaskNum reply) \<mapsto> concat (map json_KeyValue kva)))"
  using assms by (auto simp: MapWorker_def env_ok_def rename_file_def fun_eq_iff)

text \<open>
  A map task. When the input exists, the application maps it to \<open>kva\<close>, and the system
  supplies a fresh temporary file that can be renamed, \<open>MapWorker\<close> changes the file system in one
  place: the task's file holds the pairs, one JSON object per line, and no other list of pairs
  has this text, so a reader gets back exactly \<open>kva\<close>, in order.
\<close>

theorem MapWorker_writes_pairs:
  assumes "fs (gr_Filename reply) = Some content" and "mapf (gr_Filename reply) content = Inr kva"
    and "env_ok (gr_Filename reply) (getFinalMapName (gr_TaskNum reply)) fs env"
  shows "\<exists>txt. MapWorker env reply mapf fs = Inr (fs(getFinalMapName (gr_TaskNum reply) \<mapsto> txt)) \<and>
    (\<forall>kvs. txt = concat (map json_KeyValue kvs) \<longleftrightarrow> kvs = kva)"
  using MapWorker_run [of fs reply content mapf kva env, OF assms] json_lines_inject by blast

definition sample_reply :: GetTaskReply where
  "sample_reply = \<lparr>gr_NumsMap = 2, gr_NumsReduce = 1, gr_TaskNum = 0, gr_Type = TaskMap, gr_Filename = ''b.txt''\<rparr>"

definition sample_worker_env :: worker_env where
  "sample_worker_env = \<lparr>we_temp = Some ''/tmp/map1'', we_renamed = True\<rparr>"

lemma sample_env_ok: "env_ok ''b.txt'' (getFinalMapName 0) sample_fs sample_worker_env"
  by (simp add: env_ok_def sample_worker_env_def sample_fs_def getFinalMapName_def)

theorem MapWorker_writes_pairs_witness:
  "\<exists>txt. MapWorker sample_worker_env sample_reply wc_Map sample_fs = Inr (sample_fs(getFinalMapName 0 \<mapsto> txt)) \<and>
     (\<forall>kvs. txt = concat (map json_KeyValue kvs) \<longleftrightarrow> kvs = [kv_pair ''be'' ''1''])"
  using MapWorker_writes_pairs [of sample_fs sample_reply "''be''" wc_Map "[kv_pair ''be'' ''1'']" sample_worker_env]
    sample_env_ok
  by (simp add: sample_reply_def wc_Map_def sample_words) (simp add: sample_fs_def)

text \<open>
  A worker never ends. Started with a fresh coordinator on a job whose first input exists, a
  worker that is always answered repeats map task 0: after any number of iterations, at any
  times, it is still running, the coordinator is where it started, and the first task's file is
  the only one that was written, even when the job has other files and all reduces are due.
\<close>

theorem worker_repeats_first_task:
  assumes "MakeCoordinator uid listen files nReduce = Inr c" and "files \<noteq> []"
    and "fs (hd files) = Some content" and "mapf (hd files) content = Inr kva"
    and "getFinalMapName 0 \<noteq> hd files"
    and "\<forall>(now, env) \<in> set its. env_ok (hd files) (getFinalMapName 0) fs env" and "its \<noteq> []"
  shows "Worker mapf reducef its (c, fs) =
    Inr (c, fs(getFinalMapName 0 \<mapsto> concat (map json_KeyValue kva))) \<and> \<not> Coordinator_Done c"
proof -
  let ?fs = "fs(getFinalMapName 0 \<mapsto> concat (map json_KeyValue kva))"
  have "unstarted files nReduce c" using assms(1) by (intro coord.invar_init) blast
  note get = unstarted_GetTask [OF this assms(2)]
  have fin: "FinishNotify c \<lparr>fa_TaskNum = 0, fa_Type = TaskMap\<rparr> = Inr c"
    using assms(2) \<open>unstarted files nReduce c\<close>
    by (simp add: FinishNotify_def go_set_def unstarted_def replicate_False)
  have step: "Worker mapf reducef ((now, env) # its') (c, g) = Worker mapf reducef its' (c, ?fs)"
    if g: "g = fs \<or> g = ?fs" and env: "env_ok (hd files) (getFinalMapName 0) fs env" for now env its' g
  proof -
    have "env_ok (hd files) (getFinalMapName 0) g env" "g (hd files) = Some content"
      "g(getFinalMapName 0 \<mapsto> concat (map json_KeyValue kva)) = ?fs"
      using g env assms(3,5) by (auto simp: env_ok_def)
    then have "MapWorker env (task_reply c TaskMap 0 (hd files)) mapf g = Inr ?fs"
      using MapWorker_run [of g "task_reply c TaskMap 0 (hd files)" content mapf kva env] assms(4)
      by (simp add: task_reply_def)
    then show ?thesis
      using get [of now] fin by (simp add: mr_call_def Worker_iter_def task_reply_def)
  qed
  have "Worker mapf reducef its' (c, ?fs) = Inr (c, ?fs)" if "set its' \<subseteq> set its" for its'
    using that
  proof (induction its')
    case (Cons it its')
    obtain now env where it: "it = (now, env)" by (cases it)
    then have "env_ok (hd files) (getFinalMapName 0) fs env" using Cons.prems assms(6) by auto
    then have "Worker mapf reducef (it # its') (c, ?fs) = Worker mapf reducef its' (c, ?fs)"
      unfolding it by (intro step disjI2 refl)
    also have "\<dots> = Inr (c, ?fs)" using Cons.prems by (intro Cons.IH) simp
    finally show ?case .
  qed simp
  note rest = this
  obtain now env its' where its: "its = (now, env) # its'" using assms(7) by (metis list.exhaust surj_pair)
  then have "env_ok (hd files) (getFinalMapName 0) fs env" using assms(6) by auto
  then show ?thesis
    using step [of fs env now its'] rest [of its'] its by (simp add: Coordinator_Done_def subset_insertI del: Worker.simps(2))
qed

theorem worker_repeats_first_task_witness:
  "\<exists>c. MakeCoordinator 0 None [''b.txt'', ''a.txt''] 3 = Inr c \<and>
     Worker wc_Map wc_Reduce [(5, sample_worker_env), (6, sample_worker_env)] (c, sample_fs) =
       Inr (c, sample_fs(getFinalMapName 0 \<mapsto> json_KeyValue (kv_pair ''be'' ''1'')))"
proof -
  obtain c where c: "MakeCoordinator 0 None [''b.txt'', ''a.txt''] 3 = Inr c"
    by (simp add: MakeCoordinator_def Coordinator_server_def Let_def)
  have "sample_fs ''b.txt'' = Some ''be''" by (simp add: sample_fs_def)
  then show ?thesis
    using worker_repeats_first_task [OF c, of sample_fs "''be''" wc_Map "[kv_pair ''be'' ''1'']"
        "[(5, sample_worker_env), (6, sample_worker_env)]" wc_Reduce] sample_env_ok c
    by (simp add: wc_Map_def sample_words getFinalMapName_def)
qed

section \<open>The two programs\<close>

text \<open>
  \<open>main/mrworker.go\<close> and \<open>main/mrcoordinator.go\<close>. The coordinator's main polls \<open>Done\<close> once a
  second; \<open>cs\<close> gives the coordinator's state at each poll, which the handlers change meanwhile.
\<close>

text \<open>\<open>main/mrworker.go\<close> has its own copy of \<open>loadPlugin\<close>.\<close>

definition mrworker_loadPlugin ::
  "(string \<rightharpoonup> (map_fn option \<times> reduce_fn option)) \<Rightarrow> string \<Rightarrow> (map_fn \<times> reduce_fn) go" where
  "mrworker_loadPlugin = loadPlugin"

definition mrworker ::
  "(string \<Rightarrow> (map_fn \<times> reduce_fn) go) \<Rightarrow> string list \<Rightarrow> (int \<times> worker_env) list \<Rightarrow>
   Coordinator \<times> filesystem \<Rightarrow> (Coordinator \<times> filesystem) go" where
  "mrworker load args its s =
     (if length args \<noteq> 2 then Inl (Exit 1)
      else go_bind (load (args ! 1)) (\<lambda>(mapf, reducef). Worker mapf reducef its s))"

partial_function (option) poll_done :: "(nat \<Rightarrow> Coordinator) \<Rightarrow> nat \<Rightarrow> nat option" where
  "poll_done cs i = (if Coordinator_Done (cs i) = False then poll_done cs (i + 1) else Some i)"

definition mrcoordinator ::
  "int \<Rightarrow> string option \<Rightarrow> string list \<Rightarrow> (Coordinator \<Rightarrow> nat \<Rightarrow> Coordinator) \<Rightarrow> unit go option" where
  "mrcoordinator uid listen args later =
     (if length args < 2 then Some (Inl (Exit 1))
      else case MakeCoordinator uid listen (drop 1 args) 10 of
             Inl e \<Rightarrow> Some (Inl e)
           | Inr m \<Rightarrow> map_option (\<lambda>_. Inr ()) (poll_done (later m) 0))"

lemma poll_done_never: "poll_done cs i = None"
proof -
  have "poll_done cs i = Some n \<Longrightarrow> False" for n
    by (rule poll_done.raw_induct [where P = "\<lambda>_ _ _. False"])
      (auto simp: Coordinator_Done_def split: if_splits)
  then show ?thesis by (cases "poll_done cs i") auto
qed

text \<open>
  The coordinator process never exits by itself. Given at least one input file and a socket
  it can listen on, \<open>mrcoordinator\<close> does not return, whatever the workers do meanwhile; it ends
  only with a usage error or when it cannot listen.
\<close>

theorem mrcoordinator_never_returns:
  "mrcoordinator uid listen args later =
     (if length args < 2 then Some (Inl (Exit 1))
      else case listen of
             Some e \<Rightarrow> Some (Inl (Fatal (''listen error:'' @ e)))
           | None \<Rightarrow> None)"
  by (auto simp: mrcoordinator_def MakeCoordinator_def Coordinator_server_def poll_done_never Let_def
      split: option.split)

end
