(* ===== verification/Mr_Timing.thy ===== *)
theory Mr_Timing
  imports Mr_Sequential
begin

text \<open>
  The MapReduce applications that measure how many workers run at once (\<open>mrapps/mtiming.go\<close>,
  \<open>mrapps/rtiming.go\<close>). A worker leaves a file named after its process, reads the directory,
  probes the process of every such name with signal 0, sleeps, and removes its file.

  The process id, the outcome of the writes, the listing of the directory, which processes live,
  what other processes do to the directory meanwhile, and the printed time are arguments.
\<close>

section \<open>Scanning a name\<close>

text \<open>\<open>fmt.Sscanf\<close> with a pattern that ends in \<open>%d\<close>, on ASCII text: the literal part must match,
  white space before the number is skipped, and what follows the number is not looked at.\<close>

definition is_space :: "char \<Rightarrow> bool" where
  "is_space c \<longleftrightarrow> (of_char c :: nat) \<in> {9, 11, 12, 13, 32}"

definition number_token :: "string \<Rightarrow> string" where
  "number_token s =
     (case s of
        c # cs \<Rightarrow> if c = CHR ''+'' \<or> c = CHR ''-'' then c # takeWhile is_digit cs else takeWhile is_digit s
      | [] \<Rightarrow> [])"

definition scan_int :: "string \<Rightarrow> int option" where
  "scan_int s =
     (case ParseInt (number_token (dropWhile is_space s)) of
        (xpid, None) \<Rightarrow> Some xpid | (_, Some _) \<Rightarrow> None)"

definition Sscanf_int :: "string \<Rightarrow> string \<Rightarrow> int option" where
  "Sscanf_int name pat = (if HasPrefix name pat then scan_int (drop (length pat) name) else None)"

section \<open>Counting the workers\<close>

record timing_env =
  te_pid :: int
  te_write :: "string option"
  te_list :: "filesystem \<Rightarrow> string list go"
  te_alive :: "int \<Rightarrow> bool"
  te_sleep :: "filesystem \<Rightarrow> filesystem"
  te_remove :: "string option"

definition worker_file :: "string \<Rightarrow> int \<Rightarrow> string" where
  "worker_file phase pid = ''mr-worker-'' @ phase @ ''-'' @ Itoa pid"

definition worker_pat :: "string \<Rightarrow> string" where
  "worker_pat phase = ''mr-worker-'' @ phase @ ''-''"

fun count_alive :: "(int \<Rightarrow> bool) \<Rightarrow> string \<Rightarrow> string list \<Rightarrow> int \<Rightarrow> int" where
  "count_alive alive phase [] ret = ret"
| "count_alive alive phase (name # names) ret =
     count_alive alive phase names
       (case Sscanf_int name (worker_pat phase) of
          Some xpid \<Rightarrow> if alive xpid then ret + 1 else ret
        | None \<Rightarrow> ret)"

definition nparallel :: "timing_env \<Rightarrow> string \<Rightarrow> filesystem \<Rightarrow> (int \<times> filesystem) go" where
  "nparallel env phase fs =
     (let myfilename = worker_file phase (te_pid env)
      in case te_write env of
           Some e \<Rightarrow> Inl (Fatal e)
         | None \<Rightarrow>
             let fs1 = fs(myfilename \<mapsto> ''x'')
             in go_bind (te_list env fs1) (\<lambda>names.
                  let ret = count_alive (te_alive env) phase names 0;
                      fs2 = te_sleep env fs1
                  in case te_remove env of
                       Some e \<Rightarrow> Inl (Fatal e)
                     | None \<Rightarrow>
                         if fs2 myfilename = None then Inl (Fatal ''no such file or directory'')
                         else Inr (ret, fs2(myfilename := None))))"

text \<open>The function stands in both files.\<close>

definition rtiming_nparallel :: "timing_env \<Rightarrow> string \<Rightarrow> filesystem \<Rightarrow> (int \<times> filesystem) go" where
  "rtiming_nparallel = nparallel"

text \<open>\<open>ts\<close> is the time, printed with one digit after the point.\<close>

definition mtiming_Map ::
  "timing_env \<Rightarrow> string \<Rightarrow> filesystem \<Rightarrow> string \<Rightarrow> string \<Rightarrow> (KeyValue list \<times> filesystem) go" where
  "mtiming_Map env ts fs filename contents =
     go_bind (nparallel env ''map'' fs) (\<lambda>(n, fs').
       Inr ([kv_pair (''times-'' @ Itoa (te_pid env)) ts,
             kv_pair (''parallel-'' @ Itoa (te_pid env)) (Itoa n)], fs'))"

definition rtiming_Reduce ::
  "timing_env \<Rightarrow> filesystem \<Rightarrow> string \<Rightarrow> string list \<Rightarrow> (string \<times> filesystem) go" where
  "rtiming_Reduce env fs key values =
     go_bind (rtiming_nparallel env ''reduce'' fs) (\<lambda>(n, fs'). Inr (Itoa n, fs'))"

section \<open>Names of workers\<close>

lemma digits_token: "\<forall>c \<in> set s. is_digit c \<Longrightarrow> number_token s = s"
proof (cases s)
  case (Cons c cs)
  assume "\<forall>c \<in> set s. is_digit c"
  then have "is_digit c" "takeWhile is_digit s = s" using Cons by (auto simp: takeWhile_eq_all_conv)
  then show ?thesis using Cons by (auto simp: number_token_def is_digit_def)
qed (simp add: number_token_def)

lemma Itoa_token: "number_token (Itoa p) = Itoa p"
proof -
  have d: "\<forall>c \<in> set (itoa_nat n). is_digit c" for n using itoa_nat_digits by (simp add: is_digit_def)
  show ?thesis
  proof (cases "p < 0")
    case True
    then show ?thesis using d by (simp add: Itoa_def number_token_def takeWhile_eq_all_conv)
  next
    case False
    then show ?thesis using d by (simp add: Itoa_def digits_token)
  qed
qed

lemma Itoa_no_space: "dropWhile is_space (Itoa p) = Itoa p"
proof -
  have "\<not> is_space c" if "c \<in> set (itoa_nat n)" for c n
    using itoa_nat_digits [OF that] by (auto simp: is_space_def)
  moreover have "\<not> is_space (CHR ''-'')" by (simp add: is_space_def)
  ultimately have "\<forall>c \<in> set (Itoa p). \<not> is_space c" by (auto simp: Itoa_def)
  then show ?thesis by (cases "Itoa p") auto
qed

text \<open>The scan reads back the process id of a worker's file.\<close>

lemma scan_worker_file:
  assumes "- (2 ^ 63) \<le> p" and "p < 2 ^ 63"
  shows "Sscanf_int (worker_file phase p) (worker_pat phase) = Some p"
  using ParseInt_Itoa [OF assms]
  by (simp add: Sscanf_int_def HasPrefix_def worker_file_def worker_pat_def scan_int_def Itoa_token Itoa_no_space)

lemma count_alive_filter:
  "count_alive alive phase names ret =
     ret + int (length (filter (\<lambda>name. \<exists>p. Sscanf_int name (worker_pat phase) = Some p \<and> alive p) names))"
  by (induction alive phase names ret rule: count_alive.induct) (auto split: option.splits)

section \<open>What is counted\<close>

text \<open>
  In a directory whose names with the prefix of the phase are the files of the workers \<open>W\<close>, the
  count is the number of workers in \<open>W\<close>, and the caller itself, that are alive; when no other
  process touches its file, the caller's file is gone afterwards and all others are as the
  others left them.
\<close>

theorem nparallel_counts:
  assumes env: "te_write env = None" "te_remove env = None"
    and ls: "te_list env (fs(worker_file phase (te_pid env) \<mapsto> ''x'')) = Inr names" "distinct names"
      "set names = insert (worker_file phase (te_pid env)) (dom fs)"
    and W: "\<And>f. f \<in> dom fs \<Longrightarrow> HasPrefix f (worker_pat phase) \<Longrightarrow> f \<in> worker_file phase ` W"
      "worker_file phase ` W \<subseteq> dom fs"
    and pids: "\<And>p. p \<in> insert (te_pid env) W \<Longrightarrow> - (2 ^ 63) \<le> p \<and> p < 2 ^ 63"
    and kept: "te_sleep env (fs(worker_file phase (te_pid env) \<mapsto> ''x'')) (worker_file phase (te_pid env)) \<noteq> None"
  shows "nparallel env phase fs =
    Inr (int (card {p \<in> insert (te_pid env) W. te_alive env p}),
         (te_sleep env (fs(worker_file phase (te_pid env) \<mapsto> ''x'')))(worker_file phase (te_pid env) := None))"
proof -
  let ?me = "te_pid env" and ?scan = "\<lambda>name. Sscanf_int name (worker_pat phase)"
  let ?good = "\<lambda>name. \<exists>p. ?scan name = Some p \<and> te_alive env p"
  let ?A = "{p \<in> insert ?me W. te_alive env p}"
  have scan: "p \<in> insert ?me W \<Longrightarrow> ?scan (worker_file phase p) = Some p" for p
    using scan_worker_file pids by blast
  have inj: "inj_on (worker_file phase) ?A"
    by (rule inj_on_inverseI [of _ "\<lambda>name. the (?scan name)"]) (use scan in auto)
  have "{name \<in> set names. ?good name} = worker_file phase ` ?A"
  proof (intro set_eqI iffI)
    fix name assume "name \<in> {name \<in> set names. ?good name}"
    then obtain p where p: "name \<in> set names" "?scan name = Some p" "te_alive env p" by blast
    then have "HasPrefix name (worker_pat phase)" by (auto simp: Sscanf_int_def split: if_splits)
    then obtain q where q: "name = worker_file phase q" "q \<in> insert ?me W"
      using p(1) ls(3) W(1) by blast
    then have "q = p" using scan [of q] p(2) by simp
    then show "name \<in> worker_file phase ` ?A" using q p(3) by blast
  next
    fix name assume "name \<in> worker_file phase ` ?A"
    then show "name \<in> {name \<in> set names. ?good name}" using scan ls(3) W(2) by auto
  qed
  then have "card {name \<in> set names. ?good name} = card ?A" using card_image [OF inj] by simp
  moreover have "length (filter ?good names) = card (set (filter ?good names))"
    using distinct_card [of "filter ?good names"] ls(2) by simp
  ultimately have "count_alive (te_alive env) phase names 0 = int (card ?A)"
    by (simp add: count_alive_filter)
  then show ?thesis using env ls(1) kept by (auto simp: nparallel_def Let_def)
qed

text \<open>Two live workers that run at the same time and no others count two.\<close>

lemma two_workers_count:
  "nparallel \<lparr>te_pid = 7, te_write = None, te_list = (\<lambda>_. Inr [''mr-worker-map-5'', ''pg.txt'', ''mr-worker-map-7'']),
      te_alive = (\<lambda>_. True), te_sleep = id, te_remove = None\<rparr> ''map''
     [''mr-worker-map-5'' \<mapsto> ''x'', ''pg.txt'' \<mapsto> ''y''] =
   Inr (2, [''mr-worker-map-5'' \<mapsto> ''x'', ''pg.txt'' \<mapsto> ''y''])"
proof -
  have names: "worker_file ''map'' 5 = ''mr-worker-map-5''" "worker_file ''map'' 7 = ''mr-worker-map-7''"
    by code_simp+
  let ?names = "[''mr-worker-map-5'', ''pg.txt'', ''mr-worker-map-7'']"
  let ?env = "\<lparr>te_pid = 7, te_write = None, te_list = (\<lambda>_. Inr ?names),
      te_alive = (\<lambda>_. True), te_sleep = id, te_remove = None\<rparr>"
  let ?fs = "[''mr-worker-map-5'' \<mapsto> ''x'', ''pg.txt'' \<mapsto> ''y'']"
  have "nparallel ?env ''map'' ?fs =
      Inr (int (card {p \<in> insert (te_pid ?env) {5}. te_alive ?env p}),
           (te_sleep ?env (?fs(worker_file ''map'' (te_pid ?env) \<mapsto> ''x'')))(worker_file ''map'' (te_pid ?env) := None))"
    by (rule nparallel_counts [where names = ?names]) (auto simp: names worker_pat_def HasPrefix_def)
  moreover have "{p \<in> insert (7 :: int) {5}. True} = {7, 5}" by auto
  ultimately show ?thesis by (auto simp: names)
qed

end
