(* ===== verification/Shard_Clerk.thy ===== *)
theory Shard_Clerk
  imports Go_Strings
begin

text \<open>
  The configurations of the shard controller, its clerk, and the clerk of the sharded key/value
  service (\<open>shardctrler/common.go\<close>, \<open>client.go\<close>, \<open>server.go\<close>; \<open>shardkv/common.go\<close>, \<open>client.go\<close>).
  Calls are numbered in the order a clerk makes them; \<open>rpc srv t\<close> is the reply to call number \<open>t\<close>
  if it goes to \<open>srv\<close>, and \<open>None\<close> when \<open>Call\<close> returns false. A clerk that tries forever is \<open>None\<close>.
\<close>

section \<open>Configurations and messages\<close>

definition NShards :: int where "NShards = 10"

record Config =
  cf_Num :: int
  cf_Shards :: "int list"
  cf_Groups :: "int \<rightharpoonup> string list"

definition zero_Config :: Config where
  "zero_Config = \<lparr>cf_Num = 0, cf_Shards = replicate (nat NShards) 0, cf_Groups = Map.empty\<rparr>"

record QueryReply =
  qr_WrongLeader :: bool
  qr_Err :: string
  qr_Config :: Config

definition zero_QueryReply :: QueryReply where
  "zero_QueryReply = \<lparr>qr_WrongLeader = False, qr_Err = '''', qr_Config = zero_Config\<rparr>"

text \<open>\<open>JoinReply\<close>, \<open>LeaveReply\<close> and \<open>MoveReply\<close> have the same two fields.\<close>

record ChangeReply =
  cr_WrongLeader :: bool
  cr_Err :: string

record JoinArgs =
  ja_Servers :: "int \<rightharpoonup> string list"

record LeaveArgs =
  la_GIDs :: "int list"

record MoveArgs =
  ma_Shard :: int
  ma_GID :: int

record QueryArgs =
  qa_Num :: int

section \<open>The controller's clerk\<close>

text \<open>One sweep over the servers: the first reply that \<open>ok\<close> accepts, and the number of the next call.\<close>

fun try_servers :: "('e \<Rightarrow> nat \<Rightarrow> 'r option) \<Rightarrow> ('r \<Rightarrow> bool) \<Rightarrow> 'e list \<Rightarrow> nat \<Rightarrow> 'r option \<times> nat" where
  "try_servers rpc ok [] t = (None, t)"
| "try_servers rpc ok (srv # rest) t =
     (case rpc srv t of
        Some reply \<Rightarrow> if ok reply then (Some reply, t + 1) else try_servers rpc ok rest (t + 1)
      | None \<Rightarrow> try_servers rpc ok rest (t + 1))"

partial_function (option) retry ::
  "('e \<Rightarrow> nat \<Rightarrow> 'r option) \<Rightarrow> ('r \<Rightarrow> bool) \<Rightarrow> 'e list \<Rightarrow> nat \<Rightarrow> ('r \<times> nat) option" where
  "retry rpc ok servers t =
     (case try_servers rpc ok servers t of
        (Some reply, t') \<Rightarrow> Some (reply, t')
      | (None, t') \<Rightarrow> retry rpc ok servers t')"

record 'e Clerk =
  ck_servers :: "'e list"

definition MakeClerk :: "'e list \<Rightarrow> 'e Clerk" where
  "MakeClerk servers = \<lparr>ck_servers = servers\<rparr>"

text \<open>\<open>nrand\<close> of a draw below \<open>2^62\<close>.\<close>

definition nrand :: "int \<Rightarrow> int" where
  "nrand draw = (let bigx = draw mod 2 ^ 62 in bigx)"

definition Query ::
  "('e \<Rightarrow> QueryArgs \<Rightarrow> nat \<Rightarrow> QueryReply option) \<Rightarrow> 'e Clerk \<Rightarrow> int \<Rightarrow> nat \<Rightarrow> (Config \<times> nat) option" where
  "Query rpc ck num t =
     (let args = \<lparr>qa_Num = num\<rparr>
      in map_option (\<lambda>(reply, t'). (qr_Config reply, t'))
           (retry (\<lambda>srv. rpc srv args) (\<lambda>reply. qr_WrongLeader reply = False) (ck_servers ck) t))"

definition Join ::
  "('e \<Rightarrow> JoinArgs \<Rightarrow> nat \<Rightarrow> ChangeReply option) \<Rightarrow> 'e Clerk \<Rightarrow> (int \<rightharpoonup> string list) \<Rightarrow> nat \<Rightarrow> nat option" where
  "Join rpc ck servers t =
     (let args = \<lparr>ja_Servers = servers\<rparr>
      in map_option snd
           (retry (\<lambda>srv. rpc srv args) (\<lambda>reply. cr_WrongLeader reply = False) (ck_servers ck) t))"

definition Leave ::
  "('e \<Rightarrow> LeaveArgs \<Rightarrow> nat \<Rightarrow> ChangeReply option) \<Rightarrow> 'e Clerk \<Rightarrow> int list \<Rightarrow> nat \<Rightarrow> nat option" where
  "Leave rpc ck gids t =
     (let args = \<lparr>la_GIDs = gids\<rparr>
      in map_option snd
           (retry (\<lambda>srv. rpc srv args) (\<lambda>reply. cr_WrongLeader reply = False) (ck_servers ck) t))"

definition Move ::
  "('e \<Rightarrow> MoveArgs \<Rightarrow> nat \<Rightarrow> ChangeReply option) \<Rightarrow> 'e Clerk \<Rightarrow> int \<Rightarrow> int \<Rightarrow> nat \<Rightarrow> nat option" where
  "Move rpc ck shard gid t =
     (let args = \<lparr>ma_Shard = shard, ma_GID = gid\<rparr>
      in map_option snd
           (retry (\<lambda>srv. rpc srv args) (\<lambda>reply. cr_WrongLeader reply = False) (ck_servers ck) t))"

text \<open>The controller's handlers have empty bodies: the reply stays as the dispatcher made it.\<close>

definition ShardCtrler_Query :: "QueryArgs \<Rightarrow> QueryReply \<Rightarrow> QueryReply" where
  "ShardCtrler_Query args reply = reply"

definition ShardCtrler_Join :: "JoinArgs \<Rightarrow> ChangeReply \<Rightarrow> ChangeReply" where
  "ShardCtrler_Join args reply = reply"

definition ShardCtrler_Leave :: "LeaveArgs \<Rightarrow> ChangeReply \<Rightarrow> ChangeReply" where
  "ShardCtrler_Leave args reply = reply"

definition ShardCtrler_Move :: "MoveArgs \<Rightarrow> ChangeReply \<Rightarrow> ChangeReply" where
  "ShardCtrler_Move args reply = reply"

section \<open>The clerk of the sharded key/value service\<close>

definition OK :: string where "OK = ''OK''"
definition ErrNoKey :: string where "ErrNoKey = ''ErrNoKey''"
definition ErrWrongGroup :: string where "ErrWrongGroup = ''ErrWrongGroup''"
definition ErrWrongLeader :: string where "ErrWrongLeader = ''ErrWrongLeader''"

record PutAppendArgs =
  pa_Key :: string
  pa_Value :: string
  pa_Op :: string

record PutAppendReply =
  pr_Err :: string

record GetArgs =
  ga_Key :: string

record GetReply =
  gt_Err :: string
  gt_Value :: string

definition key2shard :: "string \<Rightarrow> int" where
  "key2shard key = (let shard = (if length key > 0 then of_char (hd key) else 0) in shard mod NShards)"

text \<open>The end a server name stands for, the service's and the controller's replies.\<close>

record ('e, 'c) shard_env =
  se_make_end :: "string \<Rightarrow> 'e"
  se_Get :: "'e \<Rightarrow> GetArgs \<Rightarrow> nat \<Rightarrow> GetReply option"
  se_PutAppend :: "'e \<Rightarrow> PutAppendArgs \<Rightarrow> nat \<Rightarrow> PutAppendReply option"
  se_Query :: "'c \<Rightarrow> QueryArgs \<Rightarrow> nat \<Rightarrow> QueryReply option"

record 'c ShardClerk =
  sc_sm :: "'c Clerk"
  sc_config :: Config

definition ShardClerk_Make :: "'c list \<Rightarrow> 'c ShardClerk" where
  "ShardClerk_Make ctrlers = \<lparr>sc_sm = MakeClerk ctrlers, sc_config = zero_Config\<rparr>"

text \<open>The inner loop over a group: it returns at an answer and breaks at a wrong group.\<close>

fun try_group ::
  "('e \<Rightarrow> nat \<Rightarrow> 'r option) \<Rightarrow> ('r \<Rightarrow> string) \<Rightarrow> (string \<Rightarrow> bool) \<Rightarrow> (string \<Rightarrow> 'e) \<Rightarrow>
   string list \<Rightarrow> nat \<Rightarrow> 'r option \<times> nat" where
  "try_group rpc er ans make_end [] t = (None, t)"
| "try_group rpc er ans make_end (s # rest) t =
     (case rpc (make_end s) t of
        Some reply \<Rightarrow>
          if ans (er reply) then (Some reply, t + 1)
          else if er reply = ErrWrongGroup then (None, t + 1)
          else try_group rpc er ans make_end rest (t + 1)
      | None \<Rightarrow> try_group rpc er ans make_end rest (t + 1))"

text \<open>One iteration of the outer loop up to the query.\<close>

definition ask_group ::
  "('e \<Rightarrow> nat \<Rightarrow> 'r option) \<Rightarrow> ('r \<Rightarrow> string) \<Rightarrow> (string \<Rightarrow> bool) \<Rightarrow> (string \<Rightarrow> 'e) \<Rightarrow>
   string \<Rightarrow> Config \<Rightarrow> nat \<Rightarrow> ('r option \<times> nat) go" where
  "ask_group rpc er ans make_end key cfg t =
     go_bind (go_nth (cf_Shards cfg) (key2shard key)) (\<lambda>gid.
     case cf_Groups cfg gid of
       Some servers \<Rightarrow> Inr (try_group rpc er ans make_end servers t)
     | None \<Rightarrow> Inr (None, t))"

partial_function (option) shard_loop ::
  "('e \<Rightarrow> nat \<Rightarrow> 'r option) \<Rightarrow> ('r \<Rightarrow> string) \<Rightarrow> (string \<Rightarrow> bool) \<Rightarrow> (string \<Rightarrow> 'e) \<Rightarrow>
   (nat \<Rightarrow> (Config \<times> nat) option) \<Rightarrow> string \<Rightarrow> Config \<Rightarrow> nat \<Rightarrow> ('r \<times> Config \<times> nat) go option" where
  "shard_loop rpc er ans make_end query key cfg t =
     (case ask_group rpc er ans make_end key cfg t of
        Inl e \<Rightarrow> Some (Inl e)
      | Inr (Some reply, t') \<Rightarrow> Some (Inr (reply, cfg, t'))
      | Inr (None, t') \<Rightarrow>
          (case query t' of
             None \<Rightarrow> None
           | Some (cfg', t'') \<Rightarrow> shard_loop rpc er ans make_end query key cfg' t''))"

definition ShardClerk_Get ::
  "('e, 'c) shard_env \<Rightarrow> 'c ShardClerk \<Rightarrow> string \<Rightarrow> nat \<Rightarrow> (string \<times> 'c ShardClerk \<times> nat) go option" where
  "ShardClerk_Get env ck key t =
     (let args = \<lparr>ga_Key = key\<rparr>
      in map_option (map_sum id (\<lambda>(reply, cfg, t'). (gt_Value reply, ck\<lparr>sc_config := cfg\<rparr>, t')))
           (shard_loop (\<lambda>srv. se_Get env srv args) gt_Err (\<lambda>er. er = OK \<or> er = ErrNoKey) (se_make_end env)
              (Query (se_Query env) (sc_sm ck) (- 1)) key (sc_config ck) t))"

definition ShardClerk_PutAppend ::
  "('e, 'c) shard_env \<Rightarrow> 'c ShardClerk \<Rightarrow> string \<Rightarrow> string \<Rightarrow> string \<Rightarrow> nat \<Rightarrow> ('c ShardClerk \<times> nat) go option" where
  "ShardClerk_PutAppend env ck key val oper t =
     (let args = \<lparr>pa_Key = key, pa_Value = val, pa_Op = oper\<rparr>
      in map_option (map_sum id (\<lambda>(reply, cfg, t'). (ck\<lparr>sc_config := cfg\<rparr>, t')))
           (shard_loop (\<lambda>srv. se_PutAppend env srv args) pr_Err (\<lambda>er. er = OK) (se_make_end env)
              (Query (se_Query env) (sc_sm ck) (- 1)) key (sc_config ck) t))"

definition ShardClerk_Put ::
  "('e, 'c) shard_env \<Rightarrow> 'c ShardClerk \<Rightarrow> string \<Rightarrow> string \<Rightarrow> nat \<Rightarrow> ('c ShardClerk \<times> nat) go option" where
  "ShardClerk_Put env ck key val t = ShardClerk_PutAppend env ck key val ''Put'' t"

definition ShardClerk_Append ::
  "('e, 'c) shard_env \<Rightarrow> 'c ShardClerk \<Rightarrow> string \<Rightarrow> string \<Rightarrow> nat \<Rightarrow> ('c ShardClerk \<times> nat) go option" where
  "ShardClerk_Append env ck key val t = ShardClerk_PutAppend env ck key val ''Append'' t"

section \<open>Sweeps\<close>

text \<open>The call with number \<open>t + k\<close> goes to server \<open>k\<close> modulo their number.\<close>

definition nth_call :: "('e \<Rightarrow> nat \<Rightarrow> 'r option) \<Rightarrow> 'e list \<Rightarrow> nat \<Rightarrow> nat \<Rightarrow> 'r option" where
  "nth_call rpc servers t k = rpc (servers ! (k mod length servers)) (t + k)"

abbreviation accepted :: "('r \<Rightarrow> bool) \<Rightarrow> 'r option \<Rightarrow> bool" where
  "accepted ok r \<equiv> (case r of Some reply \<Rightarrow> ok reply | None \<Rightarrow> False)"

lemma try_servers_miss:
  "(\<forall>k < length servers. \<not> accepted ok (rpc (servers ! k) (t + k))) \<Longrightarrow>
   try_servers rpc ok servers t = (None, t + length servers)"
proof (induction servers arbitrary: t)
  case (Cons s servers)
  have "\<not> accepted ok (rpc s t)" using Cons.prems by (metis add_0_right length_greater_0_conv list.discI nth_Cons_0)
  moreover have "\<forall>k < length servers. \<not> accepted ok (rpc (servers ! k) (t + 1 + k))"
    using Cons.prems by (metis Suc_less_eq add.assoc length_Cons nth_Cons_Suc plus_1_eq_Suc)
  ultimately show ?case using Cons.IH [of "t + 1"] by (auto split: option.splits)
qed simp

lemma try_servers_hit:
  "k < length servers \<Longrightarrow> rpc (servers ! k) (t + k) = Some reply \<Longrightarrow> ok reply \<Longrightarrow>
   (\<forall>j < k. \<not> accepted ok (rpc (servers ! j) (t + j))) \<Longrightarrow>
   try_servers rpc ok servers t = (Some reply, t + k + 1)"
proof (induction servers arbitrary: t k)
  case (Cons s servers)
  show ?case
  proof (cases k)
    case (Suc i)
    have "\<not> accepted ok (rpc s t)" using Cons.prems(4) Suc by (metis add_0_right nth_Cons_0 zero_less_Suc)
    moreover have "\<forall>j < i. \<not> accepted ok (rpc (servers ! j) (t + 1 + j))"
      using Cons.prems(4) Suc by (metis Suc_less_eq add.assoc nth_Cons_Suc plus_1_eq_Suc)
    ultimately show ?thesis
      using Cons.IH [of i "t + 1"] Cons.prems Suc by (auto split: option.splits)
  qed (use Cons.prems in auto)
qed simp

lemma retry_first:
  assumes "servers \<noteq> []" and "nth_call rpc servers t k = Some reply" and "ok reply"
    and "\<forall>j < k. \<not> accepted ok (nth_call rpc servers t j)"
  shows "retry rpc ok servers t = Some (reply, t + k + 1)"
  using assms(2-)
proof (induction k arbitrary: t rule: less_induct)
  case (less k)
  let ?n = "length servers"
  show ?case
  proof (cases "k < ?n")
    case True
    then have "try_servers rpc ok servers t = (Some reply, t + k + 1)"
      using less.prems by (intro try_servers_hit) (simp_all add: nth_call_def)
    then show ?thesis by (subst retry.simps) simp
  next
    case False
    have "\<forall>j < ?n. \<not> accepted ok (rpc (servers ! j) (t + j))"
    proof (intro allI impI)
      fix j assume "j < ?n"
      then show "\<not> accepted ok (rpc (servers ! j) (t + j))"
        using spec [OF less.prems(3), of j] False by (simp add: nth_call_def)
    qed
    then have "retry rpc ok servers t = retry rpc ok servers (t + ?n)"
      by (subst retry.simps) (simp add: try_servers_miss)
    also have "\<dots> = Some (reply, t + ?n + (k - ?n) + 1)"
    proof (rule less.IH)
      have shift: "nth_call rpc servers (t + ?n) j = nth_call rpc servers t (j + ?n)" for j
        by (simp add: nth_call_def ac_simps)
      show "nth_call rpc servers (t + ?n) (k - ?n) = Some reply"
        using less.prems(1) False by (simp add: shift)
      show "\<forall>j < k - ?n. \<not> accepted ok (nth_call rpc servers (t + ?n) j)"
        using less.prems(3) by (simp add: shift)
      have "0 < ?n" using assms(1) by simp
      then show "k - ?n < k" using False by linarith
    qed (use less.prems in auto)
    finally show ?thesis using False by simp
  qed
qed

lemma retry_never:
  assumes "\<And>k. \<not> accepted ok (nth_call rpc servers t k)"
  shows "retry rpc ok servers t = None"
proof -
  have "(\<forall>k. \<not> accepted ok (nth_call rpc servers t k)) \<longrightarrow> False"
    if "retry rpc ok servers t = Some y" for y
  proof (rule retry.raw_induct [where P = "\<lambda>rpc ok servers t y.
      (\<forall>k. \<not> accepted ok (nth_call rpc servers t k)) \<longrightarrow> False", OF _ that], intro impI)
    fix again rpc ok servers t y
    assume IH: "\<And>rpc ok servers t y. again rpc ok servers t = Some y \<Longrightarrow>
        (\<forall>k. \<not> accepted ok (nth_call rpc servers t k)) \<longrightarrow> False"
      and res: "(case try_servers rpc ok servers t of (Some reply, t') \<Rightarrow> Some (reply, t')
        | (None, t') \<Rightarrow> again rpc ok servers t') = Some y"
      and no: "\<forall>k. \<not> accepted ok (nth_call rpc servers t k)"
    have "\<forall>k < length servers. \<not> accepted ok (rpc (servers ! k) (t + k))"
    proof (intro allI impI)
      fix k assume "k < length servers"
      then show "\<not> accepted ok (rpc (servers ! k) (t + k))"
        using spec [OF no, of k] by (simp add: nth_call_def)
    qed
    then have "again rpc ok servers (t + length servers) = Some y"
      using res by (simp add: try_servers_miss)
    moreover have "\<not> accepted ok (nth_call rpc servers (t + length servers) k)" for k
      using spec [OF no, of "k + length servers"] by (simp add: nth_call_def ac_simps)
    ultimately show False using IH by blast
  qed
  then show ?thesis using assms by (cases "retry rpc ok servers t") auto
qed

text \<open>What a clerk that repeats its sweeps returns: the first reply it accepts, if there is one.\<close>

lemma retry_iff:
  assumes "servers \<noteq> []"
  shows "retry rpc ok servers t = Some (reply, t') \<longleftrightarrow>
    (\<exists>k. t' = t + k + 1 \<and> nth_call rpc servers t k = Some reply \<and> ok reply \<and>
      (\<forall>j < k. \<not> accepted ok (nth_call rpc servers t j)))"
proof
  assume some: "retry rpc ok servers t = Some (reply, t')"
  then obtain k0 where "accepted ok (nth_call rpc servers t k0)" using retry_never by force
  then obtain k where k: "accepted ok (nth_call rpc servers t k)"
    "\<forall>j < k. \<not> accepted ok (nth_call rpc servers t j)"
    using exists_least_iff [of "\<lambda>k. accepted ok (nth_call rpc servers t k)"] by blast
  then obtain r where r: "nth_call rpc servers t k = Some r" "ok r" by (auto split: option.splits)
  from retry_first [where ok = ok, OF assms r k(2)] some have "reply = r" "t' = t + k + 1" by auto
  with r k show "\<exists>k. t' = t + k + 1 \<and> nth_call rpc servers t k = Some reply \<and> ok reply \<and>
      (\<forall>j < k. \<not> accepted ok (nth_call rpc servers t j))" by blast
qed (use retry_first [where ok = ok, OF assms] in blast)

section \<open>Shards and groups\<close>

lemma key2shard_range: "0 \<le> key2shard key \<and> key2shard key < NShards"
  by (simp add: key2shard_def NShards_def Let_def)

definition config_wf :: "Config \<Rightarrow> bool" where
  "config_wf cfg \<longleftrightarrow> int (length (cf_Shards cfg)) = NShards"

lemma ask_group_wf:
  assumes "config_wf cfg"
  shows "ask_group rpc er ans make_end key cfg t =
    (case cf_Groups cfg (cf_Shards cfg ! nat (key2shard key)) of
       Some servers \<Rightarrow> Inr (try_group rpc er ans make_end servers t) | None \<Rightarrow> Inr (None, t))"
  using key2shard_range [of key] assms by (simp add: ask_group_def config_wf_def go_nth_in)

lemma zero_Config_wf: "config_wf zero_Config"
  by (simp add: config_wf_def zero_Config_def NShards_def)

text \<open>The servers that a configuration makes responsible for a key.\<close>

definition responsible :: "Config \<Rightarrow> string \<Rightarrow> string list" where
  "responsible cfg key =
     (case cf_Groups cfg (cf_Shards cfg ! nat (key2shard key)) of Some servers \<Rightarrow> servers | None \<Rightarrow> [])"

lemma ask_group_responsible:
  "config_wf cfg \<Longrightarrow> ask_group rpc er ans make_end key cfg t =
     Inr (try_group rpc er ans make_end (responsible cfg key) t)"
  by (simp add: ask_group_wf responsible_def split: option.split)

lemma try_group_answer:
  "try_group rpc er ans make_end servers t = (Some reply, t') \<Longrightarrow>
   \<exists>s \<in> set servers. \<exists>u. t \<le> u \<and> u < t' \<and> rpc (make_end s) u = Some reply \<and> ans (er reply)"
proof (induction servers arbitrary: t)
  case (Cons s servers)
  show ?case
  proof (cases "try_group rpc er ans make_end servers (t + 1) = (Some reply, t')")
    case True
    then show ?thesis using Cons.IH [of "t + 1"] by fastforce
  next
    case False
    then show ?thesis using Cons.prems by (fastforce split: option.splits if_splits)
  qed
qed simp

lemma try_group_mono: "try_group rpc er ans make_end servers t = (r, t') \<Longrightarrow> t \<le> t'"
  by (induction servers arbitrary: t) (fastforce split: option.splits if_splits)+

lemma try_group_first:
  assumes "i < length servers" and "rpc (make_end (servers ! i)) (t + i) = Some reply" and "ans (er reply)"
    and "\<forall>j < i. \<forall>r. rpc (make_end (servers ! j)) (t + j) = Some r \<longrightarrow> \<not> ans (er r) \<and> er r \<noteq> ErrWrongGroup"
  shows "try_group rpc er ans make_end servers t = (Some reply, t + i + 1)"
  using assms
proof (induction servers arbitrary: t i)
  case (Cons s servers)
  show ?case
  proof (cases i)
    case (Suc k)
    have "try_group rpc er ans make_end servers (t + 1) = (Some reply, (t + 1) + k + 1)"
    proof (rule Cons.IH)
      show "\<forall>j < k. \<forall>r. rpc (make_end (servers ! j)) (t + 1 + j) = Some r \<longrightarrow> \<not> ans (er r) \<and> er r \<noteq> ErrWrongGroup"
        using Cons.prems(4) Suc by (metis Suc_less_eq add.assoc nth_Cons_Suc plus_1_eq_Suc)
    qed (use Cons.prems Suc in simp_all)
    moreover have "\<forall>r. rpc (make_end s) t = Some r \<longrightarrow> \<not> ans (er r) \<and> er r \<noteq> ErrWrongGroup"
      using spec [OF Cons.prems(4), of 0] Suc by simp
    ultimately show ?thesis using Suc by (simp split: option.split)
  qed (use Cons.prems in simp)
qed simp

text \<open>
  What the clerk needs of the controller: every configuration it is given has all shards, and the
  calls of a query are counted. Under this contract the loop does not panic, and what it returns
  was answered, to one of its own calls, by a server that the configuration it then held makes
  responsible for the key.
\<close>

locale config_source =
  fixes query :: "nat \<Rightarrow> (Config \<times> nat) option"
  assumes query_wf: "query t = Some (cfg, t') \<Longrightarrow> config_wf cfg"
    and query_mono: "query t = Some (cfg, t') \<Longrightarrow> t \<le> t'"
begin

definition answered :: "('e \<Rightarrow> nat \<Rightarrow> 'r option) \<Rightarrow> ('r \<Rightarrow> string) \<Rightarrow> (string \<Rightarrow> bool) \<Rightarrow> (string \<Rightarrow> 'e) \<Rightarrow>
  string \<Rightarrow> nat \<Rightarrow> 'r \<times> Config \<times> nat \<Rightarrow> bool" where
  "answered rpc er ans make_end key t res \<longleftrightarrow>
     (case res of (reply, cfg, t') \<Rightarrow> config_wf cfg \<and>
        (\<exists>s \<in> set (responsible cfg key). \<exists>u. t \<le> u \<and> u < t' \<and> rpc (make_end s) u = Some reply \<and> ans (er reply)))"

lemma answered_mono: "answered rpc er ans make_end key t res \<Longrightarrow> s \<le> t \<Longrightarrow> answered rpc er ans make_end key s res"
  unfolding answered_def by (auto intro: order_trans)

lemma shard_loop_answered:
  assumes "shard_loop rpc er ans make_end query key cfg t = Some y" and "config_wf cfg"
  shows "\<exists>res. y = Inr res \<and> answered rpc er ans make_end key t res"
proof -
  have "config_wf cfg \<longrightarrow> (\<exists>res. y = Inr res \<and> answered rpc er ans make_end key t res)"
  proof (rule shard_loop.raw_induct [where P = "\<lambda>rpc er ans make_end q key cfg t y. q = query \<longrightarrow>
        config_wf cfg \<longrightarrow> (\<exists>res. y = Inr res \<and> answered rpc er ans make_end key t res)",
        OF _ assms(1), THEN mp, OF _ refl], intro impI)
    fix again and rpc :: "'e \<Rightarrow> nat \<Rightarrow> 'r option" and er ans make_end q key cfg t y
    assume IH: "\<And>rpc er ans make_end q key cfg t y. again rpc er ans make_end q key cfg t = Some y \<Longrightarrow>
        q = query \<longrightarrow> config_wf cfg \<longrightarrow> (\<exists>res. y = Inr res \<and> answered rpc er ans make_end key t res)"
      and res: "(case ask_group rpc er ans make_end key cfg t of Inl e \<Rightarrow> Some (Inl e)
          | Inr (Some reply, t') \<Rightarrow> Some (Inr (reply, cfg, t'))
          | Inr (None, t') \<Rightarrow> (case q t' of None \<Rightarrow> None
              | Some (cfg', t'') \<Rightarrow> again rpc er ans make_end q key cfg' t'')) = Some y"
      and q: "q = query" and wf: "config_wf cfg"
    obtain r t' where g: "try_group rpc er ans make_end (responsible cfg key) t = (r, t')" by force
    show "\<exists>res. y = Inr res \<and> answered rpc er ans make_end key t res"
    proof (cases r)
      case (Some reply)
      then have "y = Inr (reply, cfg, t')" using res g by (simp add: ask_group_responsible [OF wf])
      then show ?thesis using try_group_answer g Some wf by (fastforce simp: answered_def)
    next
      case None
      then obtain cfg' t'' where n: "query t' = Some (cfg', t'')" "again rpc er ans make_end q key cfg' t'' = Some y"
        using res g q by (auto simp: ask_group_responsible [OF wf] split: option.splits)
      obtain r where r: "y = Inr r" "answered rpc er ans make_end key t'' r"
        using IH [OF n(2)] q query_wf [OF n(1)] by blast
      have "t \<le> t''" using query_mono [OF n(1)] try_group_mono [OF g] by simp
      then show ?thesis using r answered_mono by blast
    qed
  qed
  then show ?thesis using assms(2) by blast
qed

end

text \<open>The controller's clerk is such a source when the replies are; so it is with the controller of
  the repository, whose replies, when they arrive, are the zero reply.\<close>

definition controller_rpc :: "('c \<Rightarrow> nat \<Rightarrow> bool) \<Rightarrow> 'c \<Rightarrow> QueryArgs \<Rightarrow> nat \<Rightarrow> QueryReply option" where
  "controller_rpc up srv args t = (if up srv t then Some (ShardCtrler_Query args zero_QueryReply) else None)"

lemma Query_reply:
  assumes "Query rpc ck num t = Some (cfg, t')"
  shows "t \<le> t' \<and> (\<exists>srv u reply. rpc srv \<lparr>qa_Num = num\<rparr> u = Some reply \<and> cfg = qr_Config reply)"
proof -
  let ?rpc = "\<lambda>srv. rpc srv \<lparr>qa_Num = num\<rparr>" and ?ok = "\<lambda>reply. qr_WrongLeader reply = False"
  obtain reply where r: "retry ?rpc ?ok (ck_servers ck) t = Some (reply, t')" "cfg = qr_Config reply"
    using assms by (auto simp: Query_def Let_def)
  show ?thesis
  proof (cases "ck_servers ck = []")
    case True
    have "retry ?rpc ?ok [] s = Some y \<Longrightarrow> False" for s y
      by (rule retry.raw_induct [where P = "\<lambda>_ _ servers _ _. servers = [] \<longrightarrow> False", THEN mp, OF _ _ refl])
        (fastforce+)
    then show ?thesis using r(1) True by metis
  next
    case False
    then show ?thesis using r retry_iff [OF False, of ?rpc ?ok t reply t'] by (auto simp: nth_call_def)
  qed
qed

lemma query_source:
  assumes "\<And>srv args t r. rpc srv args t = Some r \<Longrightarrow> config_wf (qr_Config r)"
  shows "config_source (Query rpc ck num)"
proof
  fix t cfg t' assume q: "Query rpc ck num t = Some (cfg, t')"
  show "config_wf cfg" using Query_reply [OF q] assms by blast
  show "t \<le> t'" using Query_reply [OF q] by blast
qed

interpretation stub: config_source "Query (controller_rpc up) ck num"
  by (rule query_source) (auto simp: controller_rpc_def ShardCtrler_Query_def zero_QueryReply_def
      zero_Config_wf split: if_splits)

section \<open>Properties\<close>

text \<open>The reply to the \<open>k\<close>-th call of a query, and whether the clerk takes it.\<close>

definition nth_query ::
  "('e \<Rightarrow> QueryArgs \<Rightarrow> nat \<Rightarrow> QueryReply option) \<Rightarrow> 'e list \<Rightarrow> int \<Rightarrow> nat \<Rightarrow> nat \<Rightarrow> QueryReply option" where
  "nth_query rpc servers num t k = rpc (servers ! (k mod length servers)) \<lparr>qa_Num = num\<rparr> (t + k)"

definition from_leader :: "QueryReply option \<Rightarrow> bool" where
  "from_leader r \<longleftrightarrow> (case r of Some reply \<Rightarrow> \<not> qr_WrongLeader reply | None \<Rightarrow> False)"

text \<open>
  The controller's clerk. With at least one server, \<open>Query\<close> returns exactly when some call is
  answered by a server that is not a wrong leader, calls going round the servers in turn; it
  returns the configuration of the first such answer, after exactly that many calls.
\<close>

theorem Query_returns_first_answer:
  assumes "servers \<noteq> []"
  shows "(Query rpc (MakeClerk servers) num t \<noteq> None \<longleftrightarrow> (\<exists>k. from_leader (nth_query rpc servers num t k))) \<and>
    (Query rpc (MakeClerk servers) num t = Some (cfg, t') \<longleftrightarrow>
      (\<exists>k reply. nth_query rpc servers num t k = Some reply \<and> from_leader (Some reply) \<and>
        (\<forall>j < k. \<not> from_leader (nth_query rpc servers num t j)) \<and> cfg = qr_Config reply \<and> t' = t + k + 1))"
proof -
  let ?rpc = "\<lambda>srv. rpc srv \<lparr>qa_Num = num\<rparr>" and ?ok = "\<lambda>reply. qr_WrongLeader reply = False"
  define good where "good = (\<lambda>k. from_leader (nth_query rpc servers num t k))"
  have acc: "accepted ?ok (nth_query rpc servers num t k) \<longleftrightarrow> good k" for k
    by (auto simp: nth_query_def good_def from_leader_def split: option.splits)
  have call: "nth_call ?rpc servers t k = nth_query rpc servers num t k" for k
    by (simp add: nth_call_def nth_query_def)
  have iff: "retry ?rpc ?ok servers t = Some (reply, u) \<longleftrightarrow>
      (\<exists>k. u = t + k + 1 \<and> nth_query rpc servers num t k = Some reply \<and> from_leader (Some reply) \<and>
        (\<forall>j < k. \<not> good j))" for reply u
    unfolding retry_iff [OF assms] call acc by (simp add: from_leader_def)
  have "retry ?rpc ?ok servers t \<noteq> None" if i: "good i" for i
  proof -
    obtain k where k: "good k" "\<forall>j < k. \<not> good j" using i exists_least_iff [of good] by blast
    then obtain r where "nth_query rpc servers num t k = Some r" by (auto simp: good_def from_leader_def split: option.splits)
    with k iff [of r "t + k + 1"] show ?thesis by (auto simp: good_def)
  qed
  moreover have "\<exists>k. good k" if "retry ?rpc ?ok servers t \<noteq> None"
    using that iff unfolding good_def by (metis option.exhaust prod.exhaust)
  ultimately have "retry ?rpc ?ok servers t \<noteq> None \<longleftrightarrow> (\<exists>k. good k)" by blast
  moreover have "Query rpc (MakeClerk servers) num t = Some (cfg, t') \<longleftrightarrow>
      (\<exists>reply. retry ?rpc ?ok servers t = Some (reply, t') \<and> cfg = qr_Config reply)"
    by (auto simp: Query_def MakeClerk_def)
  ultimately show ?thesis
    unfolding iff good_def by (auto simp: Query_def MakeClerk_def)
qed

theorem Query_returns_first_answer_witness:
  "Query (\<lambda>srv args t. if srv = (1 :: nat) then Some zero_QueryReply else None) (MakeClerk [0, 1]) (- 1) 0 =
     Some (zero_Config, 2)"
proof -
  have "nth_query (\<lambda>srv args t. if srv = (1 :: nat) then Some zero_QueryReply else None) [0, 1] (- 1) 0 k =
      (if k mod 2 = 1 then Some zero_QueryReply else None)" for k
    by (cases "k mod 2 = 1") (simp_all add: nth_query_def not_mod_2_eq_1_eq_0 flip: numeral_2_eq_2)
  then show ?thesis
    using Query_returns_first_answer [of "[0, 1]" "\<lambda>srv args t. if srv = (1 :: nat) then Some zero_QueryReply else None"
        "- 1" 0 zero_Config 2]
    by (simp add: zero_QueryReply_def from_leader_def)
qed

text \<open>
  C38. What a sharded read returns. When the controller's configurations have all shards, and so
  has the one that the clerk holds from earlier calls (a new clerk's has), then a \<open>Get\<close> that returns
  has not panicked, the value is one that a server of the group that the clerk's configuration
  makes responsible for the key answered to this key, with \<open>OK\<close> or \<open>ErrNoKey\<close>, in a call between the
  start of the \<open>Get\<close> and its return; and the clerk's configuration has all shards again.
\<close>

theorem shard_Get_sound:
  assumes "\<And>srv args t r. se_Query env srv args t = Some r \<Longrightarrow> config_wf (qr_Config r)"
    and "config_wf (sc_config ck)" and "ShardClerk_Get env ck key t = Some res"
  shows "\<exists>v ck' t'. res = Inr (v, ck', t') \<and> sc_sm ck' = sc_sm ck \<and> config_wf (sc_config ck') \<and>
    (\<exists>s \<in> set (responsible (sc_config ck') key). \<exists>u reply. t \<le> u \<and> u < t' \<and>
       se_Get env (se_make_end env s) \<lparr>ga_Key = key\<rparr> u = Some reply \<and> v = gt_Value reply \<and>
       gt_Err reply \<in> {OK, ErrNoKey})"
proof -
  let ?q = "Query (se_Query env) (sc_sm ck) (- 1)" and ?ans = "\<lambda>er. er = OK \<or> er = ErrNoKey"
  let ?rpc = "\<lambda>srv. se_Get env srv \<lparr>ga_Key = key\<rparr>"
  have src: "config_source ?q" using assms(1) by (rule query_source)
  obtain y where y: "shard_loop ?rpc gt_Err ?ans (se_make_end env) ?q key (sc_config ck) t = Some y"
    and res: "res = map_sum id (\<lambda>(reply, cfg, t'). (gt_Value reply, ck\<lparr>sc_config := cfg\<rparr>, t')) y"
    using assms(3) unfolding ShardClerk_Get_def Let_def map_option_eq_Some by blast
  obtain r where r: "y = Inr r" "config_source.answered ?rpc gt_Err ?ans (se_make_end env) key t r"
    using config_source.shard_loop_answered [OF src y assms(2)] by (elim exE conjE)
  obtain reply cfg t' where rct: "r = (reply, cfg, t')" by (cases r)
  obtain s u where "config_wf cfg" "s \<in> set (responsible cfg key)" "t \<le> u" "u < t'"
    "?rpc (se_make_end env s) u = Some reply" "gt_Err reply = OK \<or> gt_Err reply = ErrNoKey"
    using r(2) unfolding rct config_source.answered_def [OF src] by blast
  moreover have "res = Inr (gt_Value reply, ck\<lparr>sc_config := cfg\<rparr>, t')" using res r(1) rct by simp
  ultimately show ?thesis by fastforce
qed

text \<open>A configuration with one group, whose second server is the leader.\<close>

definition sample_config :: Config where
  "sample_config = \<lparr>cf_Num = 1, cf_Shards = replicate 10 7, cf_Groups = [7 \<mapsto> [''s0'', ''s1'']]\<rparr>"

definition sample_shards :: "(string, nat) shard_env" where
  "sample_shards = \<lparr>se_make_end = id,
     se_Get = (\<lambda>srv args t. Some (if srv = ''s1'' then \<lparr>gt_Err = OK, gt_Value = ''v''\<rparr>
                                   else \<lparr>gt_Err = ErrWrongLeader, gt_Value = ''''\<rparr>)),
     se_PutAppend = (\<lambda>srv args t. None),
     se_Query = (\<lambda>srv args t. Some \<lparr>qr_WrongLeader = False, qr_Err = OK, qr_Config = sample_config\<rparr>)\<rparr>"

lemma sample_config_wf: "config_wf sample_config"
  by (simp add: config_wf_def sample_config_def NShards_def)

lemma sample_responsible: "responsible sample_config key = [''s0'', ''s1'']"
proof -
  have "nat (key2shard key) < 10" using key2shard_range [of key] unfolding NShards_def by linarith
  then show ?thesis by (simp add: responsible_def sample_config_def)
qed

lemma Get_second_round:
  assumes q: "\<And>srv args u. se_Query env srv args u = Some \<lparr>qr_WrongLeader = False, qr_Err = e, qr_Config = cfg\<rparr>"
    and "ctrlers \<noteq> []" and wf: "config_wf cfg" and i: "i < length (responsible cfg key)"
    and ans: "\<And>u. se_Get env (se_make_end env (responsible cfg key ! i)) \<lparr>ga_Key = key\<rparr> u = Some reply"
    and ok: "gt_Err reply \<in> {OK, ErrNoKey}"
    and before: "\<And>j u r. j < i \<Longrightarrow> se_Get env (se_make_end env (responsible cfg key ! j)) \<lparr>ga_Key = key\<rparr> u = Some r
      \<Longrightarrow> gt_Err r \<notin> {OK, ErrNoKey, ErrWrongGroup}"
  shows "\<exists>ck t'. ShardClerk_Get env (ShardClerk_Make ctrlers) key t = Some (Inr (gt_Value reply, ck, t'))"
proof -
  let ?rpc = "\<lambda>srv. se_Get env srv \<lparr>ga_Key = key\<rparr>" and ?ans = "\<lambda>er. er = OK \<or> er = ErrNoKey"
  let ?loop = "shard_loop ?rpc gt_Err ?ans (se_make_end env) (Query (se_Query env) (MakeClerk ctrlers) (- 1)) key"
  have "retry (\<lambda>srv. se_Query env srv \<lparr>qa_Num = - 1\<rparr>) (\<lambda>r. qr_WrongLeader r = False) ctrlers t =
      Some (\<lparr>qr_WrongLeader = False, qr_Err = e, qr_Config = cfg\<rparr>, t + 0 + 1)"
    by (rule retry_first) (simp_all add: assms(2) nth_call_def q)
  then have query: "Query (se_Query env) (MakeClerk ctrlers) (- 1) t = Some (cfg, t + 1)"
    by (simp add: Query_def MakeClerk_def)
  have "try_group ?rpc gt_Err ?ans (se_make_end env) (responsible cfg key) (t + 1) = (Some reply, t + 1 + i + 1)"
    by (rule try_group_first) (use i ans ok before in auto)
  then have "?loop cfg (t + 1) = Some (Inr (reply, cfg, t + 1 + i + 1))"
    by (subst shard_loop.simps) (simp add: ask_group_responsible [OF wf])
  moreover have "responsible zero_Config key = []" by (simp add: responsible_def zero_Config_def)
  then have "?loop zero_Config t = ?loop cfg (t + 1)"
    by (subst shard_loop.simps) (simp add: ask_group_responsible [OF zero_Config_wf] query)
  ultimately show ?thesis
    by (simp add: ShardClerk_Get_def ShardClerk_Make_def Let_def)
qed

text \<open>
  C39. A sharded read returns. When every query is answered with the same configuration, the
  group it makes responsible for the key has a server that always answers with a value, and no
  server before it in the group ever answers with a value or says that the group is wrong, then
  \<open>Get\<close> of a new clerk returns that value.
\<close>

theorem shard_Get_returns:
  assumes q: "\<And>srv args u. se_Query env srv args u = Some \<lparr>qr_WrongLeader = False, qr_Err = e, qr_Config = cfg\<rparr>"
    and "ctrlers \<noteq> []" and wf: "config_wf cfg" and i: "i < length (responsible cfg key)"
    and ans: "\<And>u. se_Get env (se_make_end env (responsible cfg key ! i)) \<lparr>ga_Key = key\<rparr> u = Some reply"
    and ok: "gt_Err reply \<in> {OK, ErrNoKey}"
    and before: "\<And>j u r. j < i \<Longrightarrow> se_Get env (se_make_end env (responsible cfg key ! j)) \<lparr>ga_Key = key\<rparr> u = Some r
      \<Longrightarrow> gt_Err r \<notin> {OK, ErrNoKey, ErrWrongGroup}"
  shows "\<exists>ck t'. ShardClerk_Get env (ShardClerk_Make ctrlers) key t = Some (Inr (gt_Value reply, ck, t'))"
  using Get_second_round [OF assms] .

lemma sample_shards_answers:
  "se_Query sample_shards srv args u = Some \<lparr>qr_WrongLeader = False, qr_Err = OK, qr_Config = sample_config\<rparr>"
  "se_Get sample_shards (se_make_end sample_shards (responsible sample_config key ! 1)) \<lparr>ga_Key = key\<rparr> u =
     Some \<lparr>gt_Err = OK, gt_Value = ''v''\<rparr>"
  "j < 1 \<Longrightarrow> se_Get sample_shards (se_make_end sample_shards (responsible sample_config key ! j)) \<lparr>ga_Key = key\<rparr> u
     = Some r \<Longrightarrow> gt_Err r \<notin> {OK, ErrNoKey, ErrWrongGroup}"
  by (auto simp: sample_shards_def sample_responsible OK_def ErrNoKey_def ErrWrongGroup_def ErrWrongLeader_def)

theorem shard_Get_returns_witness:
  "\<exists>ck t'. ShardClerk_Get sample_shards (ShardClerk_Make [0]) ''k'' 0 =
     Some (Inr (gt_Value \<lparr>gt_Err = OK, gt_Value = ''v''\<rparr>, ck, t'))"
  by (rule shard_Get_returns [where i = 1, OF sample_shards_answers(1) _ sample_config_wf _ sample_shards_answers(2)])
    (use sample_shards_answers(3) in \<open>auto simp: sample_responsible\<close>)

text \<open>The second \<open>Get\<close> of a clerk, answered from the configuration that it holds.\<close>

definition sample_clerk :: "nat ShardClerk" where
  "sample_clerk = (ShardClerk_Make [0])\<lparr>sc_config := sample_config\<rparr>"

theorem shard_Get_sound_witness:
  "\<exists>v ck t'. ShardClerk_Get sample_shards sample_clerk ''k'' 5 = Some (Inr (v, ck, t')) \<and>
     responsible (sc_config ck) ''k'' \<noteq> [] \<and> 5 < t'"
proof -
  have wf: "config_wf (qr_Config r)" if "se_Query sample_shards srv args t = Some r" for srv args t r
    using that sample_config_wf by (auto simp: sample_shards_answers(1))
  have cfg: "sc_config sample_clerk = sample_config" by (simp add: sample_clerk_def)
  have "try_group (\<lambda>srv. se_Get sample_shards srv \<lparr>ga_Key = ''k''\<rparr>) gt_Err (\<lambda>er. er = OK \<or> er = ErrNoKey)
      (se_make_end sample_shards) (responsible sample_config ''k'') 5 = (Some \<lparr>gt_Err = OK, gt_Value = ''v''\<rparr>, 5 + 1 + 1)"
    by (rule try_group_first)
      (use sample_shards_answers(2,3) in \<open>auto simp: sample_responsible\<close>)
  then have "\<exists>res. ShardClerk_Get sample_shards sample_clerk ''k'' 5 = Some res"
    unfolding ShardClerk_Get_def cfg
    by (subst shard_loop.simps) (simp add: ask_group_responsible [OF sample_config_wf])
  then obtain res where res: "ShardClerk_Get sample_shards sample_clerk ''k'' 5 = Some res" by blast
  have "config_wf (sc_config sample_clerk)" unfolding cfg by (rule sample_config_wf)
  from shard_Get_sound [OF wf this res] res show ?thesis by fastforce
qed

text \<open>
  C40. Against the repository's own controller, whose handlers leave the reply as it is, a query
  that is answered returns the empty configuration, and so \<open>Get\<close> of a new clerk never returns,
  whichever calls are answered and whatever the key/value servers do.
\<close>

theorem shard_Get_stub_never_returns:
  fixes env :: "('e, 'c) shard_env"
  assumes "se_Query env = controller_rpc up"
  shows "ShardClerk_Get env (ShardClerk_Make ctrlers) key t = None"
proof -
  let ?q = "Query (controller_rpc up) (MakeClerk ctrlers) (- 1)"
  have zero: "cfg = zero_Config" if "?q u = Some (cfg, u')" for u cfg u'
    using Query_reply [OF that] by (auto simp: controller_rpc_def ShardCtrler_Query_def zero_QueryReply_def split: if_splits)
  have none: "responsible zero_Config key = []" by (simp add: responsible_def zero_Config_def)
  let ?loop = "shard_loop (\<lambda>srv. se_Get env srv \<lparr>ga_Key = key\<rparr>) gt_Err (\<lambda>er. er = OK \<or> er = ErrNoKey) (se_make_end env)"
  have "False" if "?loop ?q key zero_Config t = Some y" for y
  proof (rule shard_loop.raw_induct [where P = "\<lambda>rpc er ans make_end q k cfg t y.
        q = ?q \<longrightarrow> k = key \<longrightarrow> cfg = zero_Config \<longrightarrow> False", OF _ that, THEN mp, THEN mp, THEN mp, OF _ refl refl refl],
        intro impI)
    fix again and rpc :: "'e \<Rightarrow> nat \<Rightarrow> GetReply option" and er ans make_end q k cfg t y
    assume IH: "\<And>rpc er ans make_end q k cfg t y. again rpc er ans make_end q k cfg t = Some y \<Longrightarrow>
        q = ?q \<longrightarrow> k = key \<longrightarrow> cfg = zero_Config \<longrightarrow> False"
      and res: "(case ask_group rpc er ans make_end k cfg t of Inl e \<Rightarrow> Some (Inl e)
          | Inr (Some reply, t') \<Rightarrow> Some (Inr (reply, cfg, t'))
          | Inr (None, t') \<Rightarrow> (case q t' of None \<Rightarrow> None
              | Some (cfg', t'') \<Rightarrow> again rpc er ans make_end q k cfg' t'')) = Some y"
      and q: "q = ?q" "k = key" "cfg = zero_Config"
    obtain cfg' t'' where "?q t = Some (cfg', t'')" "again rpc er ans make_end ?q key cfg' t'' = Some y"
      using res unfolding q ask_group_responsible [OF zero_Config_wf] none by (auto split: option.splits)
    then show False using IH zero by blast
  qed
  then have "?loop ?q key zero_Config t = None" by (cases "?loop ?q key zero_Config t") auto
  then show ?thesis by (simp add: ShardClerk_Get_def ShardClerk_Make_def assms)
qed

theorem shard_Get_stub_never_returns_witness:
  "ShardClerk_Get (sample_shards\<lparr>se_Query := controller_rpc (\<lambda>_ _. True)\<rparr>) (ShardClerk_Make [0, 1]) ''k'' 0 = None"
  by (rule shard_Get_stub_never_returns [where up = "\<lambda>_ _. True"]) simp

end
