(* ===== verification/Kv_Servers.thy ===== *)
theory Kv_Servers
  imports Raft_State Shard_Clerk
begin

text \<open>
  The servers of the key/value service, of the shard controller and of the sharded service
  (\<open>kvraft/\<close>, \<open>shardctrler/server.go\<close>, \<open>shardkv/server.go\<close>) as far as they are written: they
  embed a Raft peer and start and stop it, and their handlers have empty bodies. The clerk of
  \<open>kvraft\<close> answers without calling anybody.
\<close>

section \<open>The key/value service: kvraft\<close>

record KvPutAppendArgs =
  kpa_Key :: string
  kpa_Value :: string
  kpa_Op :: string

record KvPutAppendReply =
  kpr_Err :: string

record KvGetArgs =
  kga_Key :: string

record KvGetReply =
  kgr_Err :: string
  kgr_Value :: string

record 'e KVClerk =
  kc_servers :: "'e list"

definition KVClerk_Make :: "'e list \<Rightarrow> 'e KVClerk" where
  "KVClerk_Make servers = \<lparr>kc_servers = servers\<rparr>"

definition KVClerk_Get :: "'e KVClerk \<Rightarrow> string \<Rightarrow> string" where
  "KVClerk_Get ck key = ''''"

definition KVClerk_PutAppend :: "'e KVClerk \<Rightarrow> string \<Rightarrow> string \<Rightarrow> string \<Rightarrow> 'e KVClerk" where
  "KVClerk_PutAppend ck key val oper = ck"

definition KVClerk_Put :: "'e KVClerk \<Rightarrow> string \<Rightarrow> string \<Rightarrow> 'e KVClerk" where
  "KVClerk_Put ck key val = KVClerk_PutAppend ck key val ''Put''"

definition KVClerk_Append :: "'e KVClerk \<Rightarrow> string \<Rightarrow> string \<Rightarrow> 'e KVClerk" where
  "KVClerk_Append ck key val = KVClerk_PutAppend ck key val ''Append''"

record 'c KVServer =
  kv_me :: int
  kv_rf :: "'c raft"
  kv_dead :: int
  kv_maxraftstate :: int

definition KVServer_Get :: "'c KVServer \<Rightarrow> KvGetArgs \<Rightarrow> KvGetReply \<Rightarrow> 'c KVServer \<times> KvGetReply" where
  "KVServer_Get kv args reply = (kv, reply)"

definition KVServer_PutAppend ::
  "'c KVServer \<Rightarrow> KvPutAppendArgs \<Rightarrow> KvPutAppendReply \<Rightarrow> 'c KVServer \<times> KvPutAppendReply" where
  "KVServer_PutAppend kv args reply = (kv, reply)"

definition KVServer_Kill :: "'c KVServer \<Rightarrow> 'c KVServer" where
  "KVServer_Kill kv = kv\<lparr>kv_dead := 1, kv_rf := Kill (kv_rf kv)\<rparr>"

definition KVServer_killed :: "'c KVServer \<Rightarrow> bool" where
  "KVServer_killed kv = (let z = kv_dead kv in z = 1)"

definition StartKVServer ::
  "nat \<Rightarrow> int \<Rightarrow> 'c raft_persister \<Rightarrow> int \<Rightarrow> int \<Rightarrow> int \<Rightarrow> 'c KVServer" where
  "StartKVServer n self ps maxraftstate now rnd =
     \<lparr>kv_me = self, kv_rf = Make n self ps now rnd, kv_dead = 0, kv_maxraftstate = maxraftstate\<rparr>"

section \<open>The shard controller\<close>

record 'c ShardCtrler =
  sh_me :: int
  sh_rf :: "'c raft"
  sh_configs :: "Config list"

definition ShardCtrler_Kill :: "'c ShardCtrler \<Rightarrow> 'c ShardCtrler" where
  "ShardCtrler_Kill sc = sc\<lparr>sh_rf := Kill (sh_rf sc)\<rparr>"

definition ShardCtrler_Raft :: "'c ShardCtrler \<Rightarrow> 'c raft" where
  "ShardCtrler_Raft sc = sh_rf sc"

definition ShardCtrler_StartServer ::
  "nat \<Rightarrow> int \<Rightarrow> 'c raft_persister \<Rightarrow> int \<Rightarrow> int \<Rightarrow> 'c ShardCtrler" where
  "ShardCtrler_StartServer n self ps now rnd =
     \<lparr>sh_me = self, sh_rf = Make n self ps now rnd, sh_configs = [zero_Config\<lparr>cf_Groups := Map.empty\<rparr>]\<rparr>"

section \<open>The sharded service\<close>

record ('c, 'e) ShardKV =
  sk_me :: int
  sk_rf :: "'c raft"
  sk_gid :: int
  sk_ctrlers :: "'e list"
  sk_maxraftstate :: int

definition ShardKV_Get :: "('c, 'e) ShardKV \<Rightarrow> GetArgs \<Rightarrow> GetReply \<Rightarrow> ('c, 'e) ShardKV \<times> GetReply" where
  "ShardKV_Get kv args reply = (kv, reply)"

definition ShardKV_PutAppend ::
  "('c, 'e) ShardKV \<Rightarrow> PutAppendArgs \<Rightarrow> PutAppendReply \<Rightarrow> ('c, 'e) ShardKV \<times> PutAppendReply" where
  "ShardKV_PutAppend kv args reply = (kv, reply)"

definition ShardKV_Kill :: "('c, 'e) ShardKV \<Rightarrow> ('c, 'e) ShardKV" where
  "ShardKV_Kill kv = kv\<lparr>sk_rf := Kill (sk_rf kv)\<rparr>"

definition ShardKV_StartServer ::
  "nat \<Rightarrow> int \<Rightarrow> 'c raft_persister \<Rightarrow> int \<Rightarrow> int \<Rightarrow> 'e list \<Rightarrow> int \<Rightarrow> int \<Rightarrow> ('c, 'e) ShardKV" where
  "ShardKV_StartServer n self ps maxraftstate gid ctrlers now rnd =
     \<lparr>sk_me = self, sk_rf = Make n self ps now rnd, sk_gid = gid, sk_ctrlers = ctrlers,
      sk_maxraftstate = maxraftstate\<rparr>"

section \<open>Starting and stopping\<close>

text \<open>
  What every one of these servers promises the tester: stopping it stops its Raft peer and
  changes nothing that peer has made durable, and starting it on a persister gives a live peer
  whose persisted part is the one stored there.
\<close>

locale raft_server =
  fixes start :: "'c raft_persister \<Rightarrow> 'srv" and stop :: "'srv \<Rightarrow> 'srv" and peer :: "'srv \<Rightarrow> 'c raft"
  assumes start_peer: "\<exists>n self now rnd. peer (start ps) = Make n self ps now rnd"
    and stop_peer: "peer (stop s) = Kill (peer s)"
begin

lemma stop_durable: "killed (peer (stop s)) \<and> rf_persister (peer (stop s)) = rf_persister (peer s)"
  by (simp add: stop_peer Kill_def killed_def)

lemma restart_recovers:
  assumes "synced (peer s)"
  shows "hard_state (peer (start (Copy (rf_persister (peer (stop s)))))) = hard_state (peer s)"
proof -
  obtain n self now rnd where "peer (start (Copy (rf_persister (peer (stop s))))) =
      Make n self (Copy (rf_persister (peer s))) now rnd"
    using start_peer stop_durable by metis
  then show ?thesis using assms by (simp add: Make_hard_state synced_def durable_Copy)
qed

lemma start_alive: "\<not> killed (peer (start ps))"
proof -
  have "dead (Make n self ps now rnd) = 0" for n self now rnd
    by (simp add: Make_def Let_def readPersist_def updateElectionTimeout_def split: option.splits prod.splits)
  then show ?thesis using start_peer [of ps] by (auto simp: killed_def)
qed

end

interpretation kv: raft_server "\<lambda>ps. StartKVServer n self ps maxraftstate now rnd" KVServer_Kill kv_rf
  by unfold_locales (auto simp: StartKVServer_def KVServer_Kill_def)

interpretation ctrler: raft_server "\<lambda>ps. ShardCtrler_StartServer n self ps now rnd" ShardCtrler_Kill ShardCtrler_Raft
  by unfold_locales (auto simp: ShardCtrler_StartServer_def ShardCtrler_Kill_def ShardCtrler_Raft_def)

interpretation skv: raft_server "\<lambda>ps. ShardKV_StartServer n self ps maxraftstate gid ctrlers now rnd" ShardKV_Kill sk_rf
  by unfold_locales (auto simp: ShardKV_StartServer_def ShardKV_Kill_def)

section \<open>Properties\<close>

text \<open>
  Stop and restart. Stopping any of the three servers marks its Raft peer as killed and
  leaves the persister alone; a new server started on a copy of that persister is alive and its
  peer has the term, the vote, the log and the snapshot boundary that the stopped one had saved.
\<close>

theorem servers_restart:
  fixes sk :: "('c, 'e) ShardKV" and ctrlers :: "'e list"
  assumes "synced (kv_rf kv)" and "synced (sh_rf sc)" and "synced (sk_rf sk)"
  shows "(let ps = Copy (rf_persister (kv_rf (KVServer_Kill kv))); kv' = StartKVServer n self ps limit now rnd
      in killed (kv_rf (KVServer_Kill kv)) \<and> KVServer_killed (KVServer_Kill kv) \<and>
         \<not> killed (kv_rf kv') \<and> \<not> KVServer_killed kv' \<and> hard_state (kv_rf kv') = hard_state (kv_rf kv)) \<and>
    (let ps = Copy (rf_persister (sh_rf (ShardCtrler_Kill sc))); sc' = ShardCtrler_StartServer n self ps now rnd
      in killed (sh_rf (ShardCtrler_Kill sc)) \<and>
         \<not> killed (sh_rf sc') \<and> hard_state (sh_rf sc') = hard_state (sh_rf sc)) \<and>
    (let ps = Copy (rf_persister (sk_rf (ShardKV_Kill sk))); sk' = ShardKV_StartServer n self ps limit gid ctrlers now rnd
      in killed (sk_rf (ShardKV_Kill sk)) \<and>
         \<not> killed (sk_rf sk') \<and> hard_state (sk_rf sk') = hard_state (sk_rf sk))"
proof (intro conjI)
  show "let ps = Copy (rf_persister (kv_rf (KVServer_Kill kv))); kv' = StartKVServer n self ps limit now rnd
      in killed (kv_rf (KVServer_Kill kv)) \<and> KVServer_killed (KVServer_Kill kv) \<and>
         \<not> killed (kv_rf kv') \<and> \<not> KVServer_killed kv' \<and> hard_state (kv_rf kv') = hard_state (kv_rf kv)"
  proof -
    have "KVServer_killed (KVServer_Kill kv)" "\<not> KVServer_killed (StartKVServer n self ps limit now rnd)" for ps
      by (simp_all add: KVServer_killed_def KVServer_Kill_def StartKVServer_def)
    then show ?thesis
      using kv.stop_durable kv.start_alive kv.restart_recovers [OF assms(1)] unfolding Let_def by blast
  qed
  show "let ps = Copy (rf_persister (sh_rf (ShardCtrler_Kill sc))); sc' = ShardCtrler_StartServer n self ps now rnd
      in killed (sh_rf (ShardCtrler_Kill sc)) \<and>
         \<not> killed (sh_rf sc') \<and> hard_state (sh_rf sc') = hard_state (sh_rf sc)"
    using ctrler.stop_durable ctrler.start_alive ctrler.restart_recovers [unfolded ShardCtrler_Raft_def, OF assms(2)]
    unfolding Let_def ShardCtrler_Raft_def by blast
  show "let ps = Copy (rf_persister (sk_rf (ShardKV_Kill sk))); sk' = ShardKV_StartServer n self ps limit gid ctrlers now rnd
      in killed (sk_rf (ShardKV_Kill sk)) \<and>
         \<not> killed (sk_rf sk') \<and> hard_state (sk_rf sk') = hard_state (sk_rf sk)"
    unfolding Let_def
    by (intro conjI skv.start_alive skv.restart_recovers [OF assms(3)] conjunct1 [OF skv.stop_durable])
qed

definition sample_raft :: "int raft" where
  "sample_raft = persist (Make 3 0 MakePersister 0 0)"

definition sample_KVServer :: "int KVServer" where
  "sample_KVServer = \<lparr>kv_me = 0, kv_rf = sample_raft, kv_dead = 0, kv_maxraftstate = - 1\<rparr>"

definition sample_ShardCtrler :: "int ShardCtrler" where
  "sample_ShardCtrler = \<lparr>sh_me = 0, sh_rf = sample_raft, sh_configs = [zero_Config]\<rparr>"

definition sample_ShardKV :: "(int, nat) ShardKV" where
  "sample_ShardKV = \<lparr>sk_me = 0, sk_rf = sample_raft, sk_gid = 1, sk_ctrlers = [0], sk_maxraftstate = - 1\<rparr>"

theorem servers_restart_witness:
  "hard_state (kv_rf (StartKVServer 3 0 (Copy (rf_persister (kv_rf (KVServer_Kill sample_KVServer)))) (- 1) 5 5)) =
   hard_state sample_raft"
proof -
  have rf: "kv_rf sample_KVServer = sample_raft" "sh_rf sample_ShardCtrler = sample_raft"
    "sk_rf sample_ShardKV = sample_raft" "synced sample_raft"
    by (simp_all add: sample_KVServer_def sample_ShardCtrler_def sample_ShardKV_def sample_raft_def)
  show ?thesis
    using servers_restart [of sample_KVServer sample_ShardCtrler sample_ShardKV 3 0 "- 1" 5 5] rf
    unfolding Let_def by metis
qed

end
