(* ===== verification/Service_Harness.thy ===== *)
theory Service_Harness
  imports Kv_Servers Harness_Links
begin

text \<open>
  \<open>kvraft/config.go\<close>, and \<open>shardctrler/config.go\<close>, which is the same tester for another server: groups
  of replicas over the simulated network, clients with their own ends, partitions, and shutting
  down and restarting servers on their persisters. The operations that both files have in common
  take the functions that depend on the kind of server (its Raft peer, how it is started) as
  arguments. Random names, addresses, clocks and random choices are arguments.
\<close>

section \<open>The tester\<close>

record ('c, 'srv) svc_config =
  sv_net :: "(string, nat) Network"
  sv_n :: nat
  sv_servers :: "'srv option list"
  sv_saved :: "'c raft_persister option list"
  sv_endnames :: end_table
  sv_clerks :: "nat \<rightharpoonup> string list"
  sv_nextClientId :: int
  sv_start :: int

text \<open>\<open>rand.Intn\<close> gives \<open>js ! i\<close> in the \<open>i\<close>-th iteration.\<close>

definition random_handles :: "nat list \<Rightarrow> 'e list \<Rightarrow> 'e list" where
  "random_handles js kvh = fold (\<lambda>i sa. let j = js ! i in sa[i := sa ! j, j := sa ! i]) [0..<length kvh] kvh"

definition svc_checkTimeout :: "int \<Rightarrow> bool \<Rightarrow> ('c, 'srv, 'z) svc_config_scheme \<Rightarrow> unit go" where
  "svc_checkTimeout now failed cfg =
     (if \<not> failed \<and> now - sv_start cfg > 120 * 1000000000
      then Inl (Fatal ''test took longer than 120 seconds'') else Inr ())"

definition svc_cleanup ::
  "('srv \<Rightarrow> 'srv) \<Rightarrow> int \<Rightarrow> bool \<Rightarrow> ('c, 'srv, 'z) svc_config_scheme \<Rightarrow> ('c, 'srv, 'z) svc_config_scheme go" where
  "svc_cleanup kill now failed cfg =
     (let cfg' = cfg\<lparr>sv_servers := map (map_option kill) (sv_servers cfg), sv_net := Cleanup (sv_net cfg)\<rparr>
      in go_bind (svc_checkTimeout now failed cfg') (\<lambda>_. Inr cfg'))"

text \<open>
  \<open>cfg.saved[i]\<close> points to the persister that a running server writes to, so it is read through the
  server's peer.
\<close>

definition svc_saved :: "('srv \<Rightarrow> 'c raft) \<Rightarrow> ('c, 'srv, 'z) svc_config_scheme \<Rightarrow> nat \<Rightarrow> 'c raft_persister option" where
  "svc_saved peer cfg i =
     (case sv_servers cfg ! i of Some srv \<Rightarrow> Some (rf_persister (peer srv)) | None \<Rightarrow> sv_saved cfg ! i)"

definition largest_size :: "('c raft_persister \<Rightarrow> nat) \<Rightarrow> (nat \<Rightarrow> 'c raft_persister option) \<Rightarrow> nat \<Rightarrow> nat go" where
  "largest_size bytes saved n =
     go_fold (\<lambda>i largest.
        case saved i of
          None \<Rightarrow> Inl NilDereference
        | Some ps \<Rightarrow> Inr (if bytes ps > largest then bytes ps else largest)) [0..<n] 0"

definition svc_LogSize :: "('srv \<Rightarrow> 'c raft) \<Rightarrow> ('c, 'srv, 'z) svc_config_scheme \<Rightarrow> nat go" where
  "svc_LogSize peer cfg = largest_size RaftStateSize (svc_saved peer cfg) (sv_n cfg)"

definition svc_SnapshotSize :: "('srv \<Rightarrow> 'c raft) \<Rightarrow> ('c, 'srv, 'z) svc_config_scheme \<Rightarrow> nat go" where
  "svc_SnapshotSize peer cfg = largest_size SnapshotSize (svc_saved peer cfg) (sv_n cfg)"

section \<open>Cutting and restoring links\<close>

definition connectUnlocked ::
  "nat \<Rightarrow> nat list \<Rightarrow> ('c, 'srv, 'z) svc_config_scheme \<Rightarrow> ('c, 'srv, 'z) svc_config_scheme go" where
  "connectUnlocked i dests cfg =
     go_bind (set_links (sv_endnames cfg) True (map (\<lambda>j. (i, j)) dests) (sv_net cfg)) (\<lambda>net1.
     go_bind (set_links (sv_endnames cfg) True (map (\<lambda>j. (j, i)) dests) net1) (\<lambda>net2.
       Inr (cfg\<lparr>sv_net := net2\<rparr>)))"

text \<open>
  The guard of the second loop looks at row \<open>j\<close>, the position in the list, and not at the row
  \<open>from[j]\<close> that is then used.
\<close>

definition cut_if_started :: "end_table \<Rightarrow> nat \<Rightarrow> nat \<times> nat \<Rightarrow> (string, 'm) Network \<Rightarrow> (string, 'm) Network go" where
  "cut_if_started es row l net =
     go_bind (go_nth es (int row)) (\<lambda>r. if r \<noteq> None then set_link es False l net else Inr net)"

definition disconnectUnlocked ::
  "nat \<Rightarrow> nat list \<Rightarrow> ('c, 'srv, 'z) svc_config_scheme \<Rightarrow> ('c, 'srv, 'z) svc_config_scheme go" where
  "disconnectUnlocked i srcs cfg =
     (let es = sv_endnames cfg in
      go_bind (go_fold (\<lambda>j. cut_if_started es i (i, srcs ! j)) [0..<length srcs] (sv_net cfg)) (\<lambda>net1.
      go_bind (go_fold (\<lambda>j. cut_if_started es j (srcs ! j, i)) [0..<length srcs] net1) (\<lambda>net2.
        Inr (cfg\<lparr>sv_net := net2\<rparr>))))"

text \<open>\<open>connect\<close> and \<open>disconnect\<close> do the same under the tester's lock.\<close>

definition svc_connect ::
  "nat \<Rightarrow> nat list \<Rightarrow> ('c, 'srv, 'z) svc_config_scheme \<Rightarrow> ('c, 'srv, 'z) svc_config_scheme go" where
  "svc_connect i dests cfg = connectUnlocked i dests cfg"

definition svc_disconnect ::
  "nat \<Rightarrow> nat list \<Rightarrow> ('c, 'srv, 'z) svc_config_scheme \<Rightarrow> ('c, 'srv, 'z) svc_config_scheme go" where
  "svc_disconnect i srcs cfg = disconnectUnlocked i srcs cfg"

definition AllServers :: "('c, 'srv, 'z) svc_config_scheme \<Rightarrow> nat list" where
  "AllServers cfg = [0..<sv_n cfg]"

definition ConnectAll :: "('c, 'srv, 'z) svc_config_scheme \<Rightarrow> ('c, 'srv, 'z) svc_config_scheme go" where
  "ConnectAll cfg = go_fold (\<lambda>i c. connectUnlocked i (AllServers c) c) [0..<sv_n cfg] cfg"

definition split_off ::
  "nat list \<Rightarrow> nat list \<Rightarrow> nat \<Rightarrow> ('c, 'srv, 'z) svc_config_scheme \<Rightarrow> ('c, 'srv, 'z) svc_config_scheme go" where
  "split_off others own i cfg = go_bind (disconnectUnlocked i others cfg) (connectUnlocked i own)"

definition partition_servers ::
  "nat list \<Rightarrow> nat list \<Rightarrow> ('c, 'srv, 'z) svc_config_scheme \<Rightarrow> ('c, 'srv, 'z) svc_config_scheme go" where
  "partition_servers p1 p2 cfg =
     go_bind (go_fold (split_off p2 p1) p1 cfg) (go_fold (split_off p1 p2) p2)"

section \<open>Clients\<close>

text \<open>A clerk is known by its address; its \<open>endnames\<close> are nil when it is not in the map.\<close>

definition clerk_ends :: "nat \<Rightarrow> ('c, 'srv, 'z) svc_config_scheme \<Rightarrow> string list" where
  "clerk_ends ck cfg = (case sv_clerks cfg ck of Some names \<Rightarrow> names | None \<Rightarrow> [])"

definition set_clerk_links ::
  "bool \<Rightarrow> nat \<Rightarrow> nat list \<Rightarrow> ('c, 'srv, 'z) svc_config_scheme \<Rightarrow> ('c, 'srv, 'z) svc_config_scheme go" where
  "set_clerk_links b ck js cfg =
     go_fold (\<lambda>j c. go_bind (go_nth (clerk_ends ck c) (int j)) (\<lambda>e. Inr (c\<lparr>sv_net := Enable e b (sv_net c)\<rparr>))) js cfg"

definition ConnectClientUnlocked ::
  "nat \<Rightarrow> nat list \<Rightarrow> ('c, 'srv, 'z) svc_config_scheme \<Rightarrow> ('c, 'srv, 'z) svc_config_scheme go" where
  "ConnectClientUnlocked ck dests cfg = set_clerk_links True ck dests cfg"

definition DisconnectClientUnlocked ::
  "nat \<Rightarrow> nat list \<Rightarrow> ('c, 'srv, 'z) svc_config_scheme \<Rightarrow> ('c, 'srv, 'z) svc_config_scheme go" where
  "DisconnectClientUnlocked ck srcs cfg = set_clerk_links False ck srcs cfg"

definition ConnectClient ::
  "nat \<Rightarrow> nat list \<Rightarrow> ('c, 'srv, 'z) svc_config_scheme \<Rightarrow> ('c, 'srv, 'z) svc_config_scheme go" where
  "ConnectClient ck dests cfg = ConnectClientUnlocked ck dests cfg"

definition DisconnectClient ::
  "nat \<Rightarrow> nat list \<Rightarrow> ('c, 'srv, 'z) svc_config_scheme \<Rightarrow> ('c, 'srv, 'z) svc_config_scheme go" where
  "DisconnectClient ck srcs cfg = DisconnectClientUnlocked ck srcs cfg"

text \<open>
  \<open>mk\<close> is \<open>MakeClerk\<close>; it is given the ends, by name, in the order \<open>random_handles\<close> puts them. \<open>ck\<close> is the
  address of the new clerk.
\<close>

definition makeClient ::
  "(string list \<Rightarrow> 'ck) \<Rightarrow> (nat \<Rightarrow> string) \<Rightarrow> nat list \<Rightarrow> nat \<Rightarrow> nat list \<Rightarrow> ('c, 'srv, 'z) svc_config_scheme \<Rightarrow>
   (('c, 'srv, 'z) svc_config_scheme \<times> 'ck) go" where
  "makeClient mk names js ck dests cfg =
     (let endnames = map names [0..<sv_n cfg] in
      go_bind (make_ends endnames id (sv_n cfg) (sv_net cfg)) (\<lambda>net1.
        let cfg1 = cfg\<lparr>sv_net := net1, sv_clerks := (sv_clerks cfg)(ck \<mapsto> endnames),
                       sv_nextClientId := sv_nextClientId cfg + 1\<rparr>
        in go_bind (ConnectClientUnlocked ck dests cfg1) (\<lambda>cfg2. Inr (cfg2, mk (random_handles js endnames)))))"

text \<open>The files \<open>os.Remove\<close> is asked to remove do not exist; its error is ignored.\<close>

definition deleteClient :: "nat \<Rightarrow> ('c, 'srv, 'z) svc_config_scheme \<Rightarrow> ('c, 'srv, 'z) svc_config_scheme" where
  "deleteClient ck cfg = cfg\<lparr>sv_clerks := (sv_clerks cfg)(ck := None)\<rparr>"

section \<open>Servers\<close>

text \<open>The server that is killed is dropped together with the persister it may still write to.\<close>

definition ShutdownServer ::
  "('srv \<Rightarrow> 'c raft) \<Rightarrow> nat \<Rightarrow> ('c, 'srv, 'z) svc_config_scheme \<Rightarrow> ('c, 'srv, 'z) svc_config_scheme go" where
  "ShutdownServer peer i cfg =
     go_bind (disconnectUnlocked i (AllServers cfg) cfg) (\<lambda>cfg1.
       if i \<ge> length (sv_saved cfg1) \<or> i \<ge> length (sv_servers cfg1) then Inl IndexOutOfRange
       else
         let cfg2 = cfg1\<lparr>sv_net := DeleteServer i (sv_net cfg1)\<rparr>;
             cfg3 = cfg2\<lparr>sv_saved := (sv_saved cfg2)[i := map_option Copy (svc_saved peer cfg2 i)]\<rparr>
         in Inr (cfg3\<lparr>sv_servers := (sv_servers cfg3)[i := None]\<rparr>))"

text \<open>\<open>mk\<close> starts a server on a persister, \<open>addr\<close> is the address of its \<open>labrpc\<close> server.\<close>

definition StartServer ::
  "('srv \<Rightarrow> 'c raft) \<Rightarrow> ('c raft_persister \<Rightarrow> 'srv) \<Rightarrow> (nat \<Rightarrow> string) \<Rightarrow> nat \<Rightarrow> nat \<Rightarrow>
   ('c, 'srv, 'z) svc_config_scheme \<Rightarrow> ('c, 'srv, 'z) svc_config_scheme go" where
  "StartServer peer mk names addr i cfg =
     (if i \<ge> length (sv_endnames cfg) \<or> i \<ge> length (sv_saved cfg) \<or> i \<ge> length (sv_servers cfg)
      then Inl IndexOutOfRange
      else
        let row = map names [0..<sv_n cfg];
            cfg1 = cfg\<lparr>sv_endnames := (sv_endnames cfg)[i := Some row]\<rparr>
        in go_bind (make_ends row id (sv_n cfg1) (sv_net cfg1)) (\<lambda>net1.
             let ps = (case svc_saved peer cfg1 i of Some p \<Rightarrow> Copy p | None \<Rightarrow> MakePersister)
             in Inr (cfg1\<lparr>sv_saved := (sv_saved cfg1)[i := Some ps], sv_servers := (sv_servers cfg1)[i := Some (mk ps)],
                          sv_net := AddServer i addr net1\<rparr>)))"

text \<open>\<open>make_partition\<close> for the leader \<open>l\<close>: everybody else in order, and the leader last.\<close>

definition deal :: "nat \<Rightarrow> nat \<Rightarrow> nat \<times> nat list \<times> nat list \<Rightarrow> (nat \<times> nat list \<times> nat list) go" where
  "deal l i s =
     (case s of (j, p1, p2) \<Rightarrow>
        if i \<noteq> l
        then if j < length p1 then Inr (j + 1, p1[j := i], p2)
             else go_bind (go_set p2 (int j - int (length p1)) i) (\<lambda>p2'. Inr (j + 1, p1, p2'))
        else Inr (j, p1, p2))"

definition partition_around :: "nat \<Rightarrow> nat \<Rightarrow> (nat list \<times> nat list) go" where
  "partition_around n l =
     go_bind (go_fold (deal l) [0..<n] (0, replicate (n div 2 + 1) 0, replicate (n div 2) 0)) (\<lambda>(_, p1, p2).
     go_bind (go_set p2 (int (length p2) - 1) l) (\<lambda>p2'. Inr (p1, p2')))"

section \<open>kvraft\<close>

record 'c kv_config = "('c, 'c KVServer) svc_config" +
  kvc_maxraftstate :: int
  kvc_t0 :: int
  kvc_rpcs0 :: int
  kvc_ops :: "32 word"

text \<open>A server that is down is a nil pointer here.\<close>

fun leader_among :: "'c KVServer option list \<Rightarrow> nat \<Rightarrow> (bool \<times> nat) go" where
  "leader_among [] i = Inr (False, 0)"
| "leader_among (None # srvs) i = Inl NilDereference"
| "leader_among (Some kv # srvs) i = (if snd (GetState (kv_rf kv)) then Inr (True, i) else leader_among srvs (i + 1))"

definition Leader :: "'c kv_config \<Rightarrow> (bool \<times> nat) go" where
  "Leader cfg = leader_among (sv_servers cfg) 0"

definition make_partition :: "'c kv_config \<Rightarrow> (nat list \<times> nat list) go" where
  "make_partition cfg = go_bind (Leader cfg) (\<lambda>(_, l). partition_around (sv_n cfg) l)"

definition kv_StartServer ::
  "(nat \<Rightarrow> string) \<Rightarrow> nat \<Rightarrow> int \<Rightarrow> int \<Rightarrow> nat \<Rightarrow> 'c kv_config \<Rightarrow> 'c kv_config go" where
  "kv_StartServer names addr now rnd i cfg =
     StartServer kv_rf (\<lambda>ps. StartKVServer (sv_n cfg) (int i) ps (kvc_maxraftstate cfg) now rnd) names addr i cfg"

definition kv_blank :: "nat \<Rightarrow> int \<Rightarrow> int \<Rightarrow> 'c kv_config" where
  "kv_blank n maxraftstate now =
     \<lparr>sv_net = MakeNetwork, sv_n = n, sv_servers = replicate n None, sv_saved = replicate n None,
      sv_endnames = replicate n None, sv_clerks = Map.empty, sv_nextClientId = int n + 1000, sv_start = now,
      kvc_maxraftstate = maxraftstate, kvc_t0 = 0, kvc_rpcs0 = 0, kvc_ops = 0\<rparr>"

definition kv_make_config ::
  "nat \<Rightarrow> bool \<Rightarrow> int \<Rightarrow> int \<Rightarrow> (nat \<Rightarrow> (nat \<Rightarrow> string) \<times> nat \<times> int \<times> int) \<Rightarrow> 'c kv_config go" where
  "kv_make_config n unreliable maxraftstate now env =
     go_bind (go_fold (\<lambda>i c. case env i of (names, addr, t, rnd) \<Rightarrow> kv_StartServer names addr t rnd i c)
               [0..<n] (kv_blank n maxraftstate now)) (\<lambda>cfg1.
     go_bind (ConnectAll cfg1) (\<lambda>cfg2.
       Inr (cfg2\<lparr>sv_net := Reliable (\<not> unreliable) (sv_net cfg2)\<rparr>)))"

definition kv_rpcTotal :: "'c kv_config \<Rightarrow> int" where
  "kv_rpcTotal cfg = GetTotalCount (sv_net cfg)"

definition kv_begin :: "int \<Rightarrow> 'c kv_config \<Rightarrow> 'c kv_config" where
  "kv_begin now cfg = cfg\<lparr>kvc_t0 := now, kvc_rpcs0 := kv_rpcTotal cfg, kvc_ops := 0\<rparr>"

definition kv_count_op :: "'c kv_config \<Rightarrow> 'c kv_config" where
  "kv_count_op cfg = cfg\<lparr>kvc_ops := kvc_ops cfg + 1\<rparr>"

text \<open>The numbers \<open>end\<close> prints: peers, calls, operations.\<close>

definition kv_end :: "int \<Rightarrow> bool \<Rightarrow> 'c kv_config \<Rightarrow> (nat \<times> int \<times> int) option go" where
  "kv_end now failed cfg =
     go_bind (svc_checkTimeout now failed cfg) (\<lambda>_.
       Inr (if failed = False
            then Some (sv_n cfg, kv_rpcTotal cfg - kvc_rpcs0 cfg, sint (kvc_ops cfg)) else None))"

end
