(* ===== verification/Service_Harness_Inv.thy ===== *)
theory Service_Harness_Inv
  imports Service_Harness
begin

text \<open>
  What the tester of the replicated services guarantees: the table of its ends stays complete and
  without aliases, a partition connects servers exactly when they are on the same side, the
  leader ends up in the minority, and a server that is shut down and restarted comes back with
  the state it had persisted.
\<close>

section \<open>Dealing servers to the two sides\<close>

lemma deal_loop:
  assumes "length (filter (\<lambda>i. i \<noteq> l) [0..<k]) \<le> m + h"
  shows "go_fold (deal l) [0..<k] (0, replicate m 0, replicate h 0) =
    (let os = filter (\<lambda>i. i \<noteq> l) [0..<k] in
     Inr (length os, take m os @ replicate (m - length os) 0, drop m os @ replicate (h - (length os - m)) 0))"
  using assms
proof (induction k)
  case (Suc k)
  let ?os = "filter (\<lambda>i. i \<noteq> l) [0..<k]"
  have IH: "go_fold (deal l) [0..<k] (0, replicate m 0, replicate h 0) =
     Inr (length ?os, take m ?os @ replicate (m - length ?os) 0, drop m ?os @ replicate (h - (length ?os - m)) 0)"
    using Suc by (cases "k = l") (simp_all add: Let_def)
  have run: "go_fold (deal l) [0..<Suc k] (0, replicate m 0, replicate h 0) =
     deal l k (length ?os, take m ?os @ replicate (m - length ?os) 0, drop m ?os @ replicate (h - (length ?os - m)) 0)"
    by (simp add: go_fold_append IH)
  show ?case
  proof (cases "k = l")
    case True
    then show ?thesis unfolding run by (simp add: deal_def Let_def)
  next
    case False
    then have room: "length ?os < m + h" using Suc.prems by simp
    show ?thesis
    proof (cases "length ?os < m")
      case True
      then obtain r where r: "m - length ?os = Suc r" by (metis Suc_diff_Suc)
      then have r': "r = m - Suc (length ?os)" by simp
      show ?thesis unfolding run using True False by (simp add: deal_def Let_def list_update_append r) (simp add: r')
    next
      case ge: False
      then have "h - (length ?os - m) > 0" using room by simp
      then obtain r where r: "h - (length ?os - m) = Suc r" by (auto simp: gr0_conv_Suc)
      then have r': "r = h - (Suc (length ?os) - m)" using ge by simp
      have "nat (int (length ?os) - int m) = length (drop m ?os)" by simp
      then have "go_set (drop m ?os @ replicate (Suc r) 0) (int (length ?os) - int m) k = Inr (drop m ?os @ k # replicate r 0)"
        using ge unfolding go_set_def by (simp add: list_update_length del: length_drop)
      moreover have "length (take m ?os @ replicate (m - length ?os) 0) = m" using ge by simp
      ultimately have "deal l k (length ?os, take m ?os @ replicate (m - length ?os) 0, drop m ?os @ replicate (h - (length ?os - m)) 0) =
          Inr (length ?os + 1, take m ?os @ replicate (m - length ?os) 0, drop m ?os @ k # replicate r 0)"
        using ge False unfolding deal_def r by simp
      then show ?thesis unfolding run using ge False by (simp add: Let_def r')
    qed
  qed
qed simp

lemma partition_around_odd:
  assumes "n = 2 * h + 1" and "h > 0" and "l < n"
  shows "partition_around n l =
    Inr (take (h + 1) (filter (\<lambda>i. i \<noteq> l) [0..<n]), drop (h + 1) (filter (\<lambda>i. i \<noteq> l) [0..<n]) @ [l])"
proof -
  let ?os = "filter (\<lambda>i. i \<noteq> l) [0..<n]"
  have "length ?os = card ({..<n} - {l})"
    by (subst distinct_card [symmetric]) (auto intro!: arg_cong [where f = card])
  then have len: "length ?os = 2 * h" using assms by simp
  have "go_fold (deal l) [0..<n] (0, replicate (h + 1) 0, replicate h 0) =
     Inr (length ?os, take (h + 1) ?os @ replicate (h + 1 - length ?os) 0, drop (h + 1) ?os @ replicate (h - (length ?os - (h + 1))) 0)"
    using deal_loop [of l n "h + 1" h] len by (simp add: Let_def)
  moreover have "h + 1 - length ?os = 0" "h - (length ?os - (h + 1)) = 1" using len assms(2) by auto
  ultimately have "go_fold (deal l) [0..<n] (0, replicate (n div 2 + 1) 0, replicate (n div 2) 0) =
     Inr (length ?os, take (h + 1) ?os, drop (h + 1) ?os @ [0])"
    using assms(1) by simp
  moreover have "int (length (drop (h + 1) ?os @ [0])) - 1 = int (length (drop (h + 1) ?os))" by simp
  ultimately show ?thesis unfolding partition_around_def by (simp add: go_set_def list_update_append)
qed

text \<open>The two sides: all servers, each once, and the leader on the smaller side.\<close>

lemma partition_around_sides:
  assumes "odd n" and "n \<ge> 3" and "l < n"
  obtains p1 p2 where "partition_around n l = Inr (p1, p2)" and "set p1 \<union> set p2 = {..<n}" and "set p1 \<inter> set p2 = {}"
    and "distinct p1" and "distinct p2" and "l \<in> set p2" and "length p1 = length p2 + 1"
proof -
  obtain h where h: "n = 2 * h + 1" using assms(1) by (rule oddE)
  let ?os = "filter (\<lambda>i. i \<noteq> l) [0..<n]"
  let ?p1 = "take (h + 1) ?os" and ?p2 = "drop (h + 1) ?os @ [l]"
  have eq: "partition_around n l = Inr (?p1, ?p2)" using h assms(2,3) by (intro partition_around_odd) auto
  have un: "set ?p1 \<union> set (drop (h + 1) ?os) = set ?os" by (metis append_take_drop_id set_append)
  have dj: "set ?p1 \<inter> set (drop (h + 1) ?os) = {}" by (rule set_take_disj_set_drop_if_distinct) auto
  have "length ?os = card ({..<n} - {l})"
    by (subst distinct_card [symmetric]) (auto intro!: arg_cong [where f = card])
  then have len: "length ?os = 2 * h" using h assms(3) by simp
  have "l \<notin> set ?p1" "l \<notin> set (drop (h + 1) ?os)" using un by auto
  moreover have "distinct ?p1" "distinct (drop (h + 1) ?os)" by (simp_all add: distinct_drop)
  moreover have "set ?os = {..<n} - {l}" by auto
  ultimately show thesis using un dj len h assms(2,3) by (intro that [OF eq]) auto
qed

text \<open>With an even number of servers the array of the smaller side is one place too long, and server 0 fills it.\<close>

lemma partition_around_even: "partition_around 4 3 = Inr ([0, 1, 2], [0, 3])"
  by code_simp

text \<open>\<open>random_handles\<close> only reorders the ends of a client.\<close>

lemma random_handles_perm:
  assumes "\<forall>i < length kvh. js ! i \<le> i"
  shows "mset (random_handles js kvh) = mset kvh"
proof -
  have "mset (fold (\<lambda>i sa. let j = js ! i in sa[i := sa ! j, j := sa ! i]) [0..<k] kvh) = mset kvh \<and>
      length (fold (\<lambda>i sa. let j = js ! i in sa[i := sa ! j, j := sa ! i]) [0..<k] kvh) = length kvh"
    if "k \<le> length kvh" for k
    using that
  proof (induction k)
    case (Suc k)
    let ?sa = "fold (\<lambda>i sa. let j = js ! i in sa[i := sa ! j, j := sa ! i]) [0..<k] kvh"
    have "js ! k \<le> k" using assms Suc.prems by simp
    then have "js ! k < length ?sa" "k < length ?sa" using Suc by simp_all
    then have "mset (?sa[k := ?sa ! (js ! k), js ! k := ?sa ! k]) = mset ?sa" by (intro mset_swap)
    then show ?case using Suc by (simp add: Let_def)
  qed simp
  then show ?thesis by (simp add: random_handles_def)
qed

section \<open>Switching ends\<close>

definition switch :: "string set \<Rightarrow> string set \<Rightarrow> (string, 'm) Network \<Rightarrow> (string, 'm) Network" where
  "switch T F net = net\<lparr>nw_enabled := (\<lambda>e. e \<in> T \<or> e \<notin> F \<and> nw_enabled net e)\<rparr>"

lemma switch_switch:
  assumes "T1 \<inter> F2 = {}"
  shows "switch T2 F2 (switch T1 F1 net) = switch (T1 \<union> T2) (F1 \<union> F2) net"
proof -
  have "(\<lambda>e. e \<in> T2 \<or> e \<notin> F2 \<and> (e \<in> T1 \<or> e \<notin> F1 \<and> nw_enabled net e)) =
    (\<lambda>e. e \<in> T1 \<union> T2 \<or> e \<notin> F1 \<union> F2 \<and> nw_enabled net e)"
    using assms by (auto simp: fun_eq_iff)
  then show ?thesis by (simp add: switch_def)
qed

lemma switch_fields [simp]:
  "nw_ends (switch T F net) = nw_ends net" "nw_connections (switch T F net) = nw_connections net"
  "nw_servers (switch T F net) = nw_servers net"
  "nw_enabled (switch T F net) e \<longleftrightarrow> e \<in> T \<or> e \<notin> F \<and> nw_enabled net e"
  by (simp_all add: switch_def)

text \<open>A table all of whose servers have been started.\<close>

definition full_table :: "nat \<Rightarrow> end_table \<Rightarrow> bool" where
  "full_table n es \<longleftrightarrow> length es = n \<and> (\<forall>i < n. \<exists>row. es ! i = Some row \<and> length row = n)"

lemma full_table_end_at: "full_table n es \<Longrightarrow> i < n \<Longrightarrow> j < n \<Longrightarrow> \<exists>e. end_at es i j = Inr e"
  by (auto simp: full_table_def end_at_def go_nth_def dest!: spec [of _ i])

lemma full_table_range: "full_table n es \<Longrightarrow> end_at es i j = Inr e \<Longrightarrow> i < n \<and> j < n"
  by (auto simp: full_table_def end_at_def go_nth_Inr_iff split: if_splits option.splits)

lemma set_links_switch:
  assumes "full_table n es" and "\<forall>(i, j) \<in> set ls. i < n \<and> j < n"
  shows "set_links es True ls net = Inr (switch (link_ends es (set ls)) {} net)"
    and "set_links es False ls net = Inr (switch {} (link_ends es (set ls)) net)"
proof -
  have def_: "\<forall>(i, j) \<in> set ls. \<exists>e. end_at es i j = Inr e" using assms full_table_end_at by blast
  have f: "(\<lambda>e. if e \<in> X then b else g e) = (\<lambda>e. b \<and> e \<in> X \<or> e \<notin> X \<and> g e)" for X b and g :: "string \<Rightarrow> bool" by auto
  show "set_links es True ls net = Inr (switch (link_ends es (set ls)) {} net)"
    unfolding set_links_Inr switch_def using def_ by (auto simp: fun_eq_iff intro!: arg_cong [where f = "\<lambda>g. net\<lparr>nw_enabled := g\<rparr>"])
  show "set_links es False ls net = Inr (switch {} (link_ends es (set ls)) net)"
    unfolding set_links_Inr switch_def using def_ by (auto simp: fun_eq_iff intro!: arg_cong [where f = "\<lambda>g. net\<lparr>nw_enabled := g\<rparr>"])
qed

text \<open>On a full table the guards of \<open>disconnectUnlocked\<close> always pass.\<close>

lemma cut_loop:
  assumes "full_table n es" and "\<forall>j \<in> set js. rw j < n"
  shows "go_fold (\<lambda>j. cut_if_started es (rw j) (lk j)) js net = set_links es False (map lk js) net"
  using assms(2)
proof (induction js arbitrary: net)
  case (Cons j js)
  obtain row where "es ! rw j = Some row" "rw j < length es" using assms(1) Cons.prems by (auto simp: full_table_def)
  then have "cut_if_started es (rw j) (lk j) net = set_link es False (lk j) net"
    by (simp add: cut_if_started_def go_nth_def)
  then show ?case using Cons by (simp add: set_links_def cong: go_bind_cong)
qed (simp add: set_links_def)

lemma length_indices: "set xs \<subseteq> {..<n} \<Longrightarrow> distinct xs \<Longrightarrow> length xs \<le> n"
  using card_mono [of "{..<n}" "set xs"] by (simp add: distinct_card)

abbreviation star :: "nat \<Rightarrow> nat set \<Rightarrow> (nat \<times> nat) set" where
  "star i js \<equiv> {i} \<times> js \<union> js \<times> {i}"

lemma connectUnlocked_switch:
  assumes "full_table n (sv_endnames cfg)" and "i < n" and "set js \<subseteq> {..<n}"
  shows "connectUnlocked i js cfg =
    Inr (cfg\<lparr>sv_net := switch (link_ends (sv_endnames cfg) (star i (set js))) {} (sv_net cfg)\<rparr>)"
proof -
  have "set_links (sv_endnames cfg) True (map (\<lambda>j. (i, j)) js @ map (\<lambda>j. (j, i)) js) (sv_net cfg) =
    Inr (switch (link_ends (sv_endnames cfg) (set (map (\<lambda>j. (i, j)) js @ map (\<lambda>j. (j, i)) js))) {} (sv_net cfg))"
    using assms by (intro set_links_switch(1) [OF assms(1)]) auto
  moreover have "set (map (\<lambda>j. (i, j)) js @ map (\<lambda>j. (j, i)) js) = star i (set js)" by auto
  ultimately show ?thesis
    unfolding connectUnlocked_def set_links_append [symmetric] by (auto simp: go_bind_Inr_iff)
qed

lemma disconnectUnlocked_switch:
  assumes "full_table n (sv_endnames cfg)" and "i < n" and "set js \<subseteq> {..<n}" and "distinct js"
  shows "disconnectUnlocked i js cfg =
    Inr (cfg\<lparr>sv_net := switch {} (link_ends (sv_endnames cfg) (star i (set js))) (sv_net cfg)\<rparr>)"
proof -
  let ?es = "sv_endnames cfg" and ?ls1 = "map (\<lambda>k. (i, js ! k)) [0..<length js]" and ?ls2 = "map (\<lambda>k. (js ! k, i)) [0..<length js]"
  have len: "length js \<le> n" by (rule length_indices [OF assms(3,4)])
  have "set_links ?es False (?ls1 @ ?ls2) (sv_net cfg) = Inr (switch {} (link_ends ?es (set (?ls1 @ ?ls2))) (sv_net cfg))"
    using assms(2,3) by (intro set_links_switch(2) [OF assms(1)]) (auto simp: subset_iff)
  moreover have "?ls1 = map (\<lambda>j. (i, j)) js" "?ls2 = map (\<lambda>j. (j, i)) js" by (auto intro!: nth_equalityI)
  then have "set (?ls1 @ ?ls2) = star i (set js)" by auto
  moreover have "disconnectUnlocked i js cfg =
      go_bind (set_links ?es False ?ls1 (sv_net cfg)) (\<lambda>net1. go_bind (set_links ?es False ?ls2 net1) (\<lambda>net2. Inr (cfg\<lparr>sv_net := net2\<rparr>)))"
  proof -
    have "go_fold (\<lambda>j. cut_if_started ?es i (i, js ! j)) [0..<length js] net = set_links ?es False ?ls1 net"
      "go_fold (\<lambda>j. cut_if_started ?es j (js ! j, i)) [0..<length js] net = set_links ?es False ?ls2 net"
      for net :: "(string, nat) Network"
      using assms(2) len by (auto intro!: cut_loop [OF assms(1)])
    then show ?thesis by (simp add: disconnectUnlocked_def Let_def)
  qed
  ultimately show ?thesis unfolding set_links_append [symmetric] by (auto simp: go_bind_Inr_iff)
qed

section \<open>Partitions\<close>

lemma link_ends_disjoint:
  assumes "table_ok es E" and "A \<inter> B = {}"
  shows "link_ends es A \<inter> link_ends es B = {}"
proof -
  have "(i, j) = (i', j')" if "end_at es i j = Inr e" "end_at es i' j' = Inr e" for i j i' j' e
    using table_ok_inj [OF assms(1) that] by simp
  then show ?thesis using assms(2) unfolding link_ends_def by blast
qed

text \<open>The links between the servers of \<open>xs\<close> and those of \<open>ys\<close>, both ways.\<close>

definition between :: "nat set \<Rightarrow> nat set \<Rightarrow> (nat \<times> nat) set" where
  "between xs ys = xs \<times> ys \<union> ys \<times> xs"

lemma split_loop:
  assumes "full_table n (sv_endnames cfg)" and "table_ok (sv_endnames cfg) E"
    and "set xs \<subseteq> set own" and "set own \<subseteq> {..<n}" and "set others \<subseteq> {..<n}" and "distinct others"
    and "set own \<inter> set others = {}"
  shows "go_fold (split_off others own) xs cfg = Inr (cfg\<lparr>sv_net := switch
    (link_ends (sv_endnames cfg) (between (set xs) (set own))) (link_ends (sv_endnames cfg) (between (set xs) (set others))) (sv_net cfg)\<rparr>)"
  using assms(1-3)
proof (induction xs arbitrary: cfg)
  case Nil
  then show ?case by (simp add: between_def link_ends_def switch_def)
next
  case (Cons x xs)
  let ?es = "sv_endnames cfg"
  have x: "x < n" "x \<in> set own" using Cons.prems(3) assms(4) by auto
  let ?net1 = "switch (link_ends ?es (star x (set own))) (link_ends ?es (star x (set others))) (sv_net cfg)"
  have "disconnectUnlocked x others cfg = Inr (cfg\<lparr>sv_net := switch {} (link_ends ?es (star x (set others))) (sv_net cfg)\<rparr>)"
    by (rule disconnectUnlocked_switch [OF Cons.prems(1) x(1) assms(5,6)])
  then have step: "split_off others own x cfg = Inr (cfg\<lparr>sv_net := ?net1\<rparr>)"
    unfolding split_off_def using Cons.prems(1) x(1) assms(4)
    by (subst connectUnlocked_switch [where n = n] | simp add: switch_switch)+
  have "go_fold (split_off others own) xs (cfg\<lparr>sv_net := ?net1\<rparr>) = Inr (cfg\<lparr>sv_net := switch
      (link_ends ?es (between (set xs) (set own))) (link_ends ?es (between (set xs) (set others))) ?net1\<rparr>)"
    using Cons.IH [of "cfg\<lparr>sv_net := ?net1\<rparr>"] Cons.prems by simp
  moreover have "link_ends ?es (star x (set own)) \<inter> link_ends ?es (between (set xs) (set others)) = {}"
    using Cons.prems(2,3) assms(7) x(2) by (intro link_ends_disjoint) (auto simp: between_def)
  moreover have "star x (set ys) \<union> between (set xs) (set ys) = between (set (x # xs)) (set ys)" for ys
    by (auto simp: between_def)
  ultimately show ?case using step by (simp add: switch_switch link_ends_Un [symmetric])
qed

lemma partition_servers_switch:
  assumes "full_table n (sv_endnames cfg)" and "table_ok (sv_endnames cfg) E"
    and "set p1 \<union> set p2 \<subseteq> {..<n}" and "distinct p1" and "distinct p2" and "set p1 \<inter> set p2 = {}"
  shows "partition_servers p1 p2 cfg = Inr (cfg\<lparr>sv_net := switch
    (link_ends (sv_endnames cfg) (set p1 \<times> set p1 \<union> set p2 \<times> set p2)) (link_ends (sv_endnames cfg) (between (set p1) (set p2))) (sv_net cfg)\<rparr>)"
proof -
  let ?es = "sv_endnames cfg"
  let ?net1 = "switch (link_ends ?es (between (set p1) (set p1))) (link_ends ?es (between (set p1) (set p2))) (sv_net cfg)"
  have "go_fold (split_off p2 p1) p1 cfg = Inr (cfg\<lparr>sv_net := ?net1\<rparr>)"
    using assms by (intro split_loop) auto
  moreover have "go_fold (split_off p1 p2) p2 (cfg\<lparr>sv_net := ?net1\<rparr>) = Inr (cfg\<lparr>sv_net := switch
      (link_ends ?es (between (set p2) (set p2))) (link_ends ?es (between (set p2) (set p1))) ?net1\<rparr>)"
    using split_loop [of n "cfg\<lparr>sv_net := ?net1\<rparr>" E p2 p2 p1] assms by (simp add: Int_commute)
  moreover have "link_ends ?es (between (set p1) (set p1)) \<inter> link_ends ?es (between (set p2) (set p1)) = {}"
    using assms(2,6) by (intro link_ends_disjoint) (auto simp: between_def)
  moreover have "between (set p1) (set p1) \<union> between (set p2) (set p2) = set p1 \<times> set p1 \<union> set p2 \<times> set p2"
    "between (set p1) (set p2) \<union> between (set p2) (set p1) = between (set p1) (set p2)"
    by (auto simp: between_def)
  ultimately show ?thesis unfolding partition_servers_def by (simp add: switch_switch link_ends_Un [symmetric])
qed

lemma partition_servers_links:
  assumes "full_table n (sv_endnames cfg)" and "table_ok (sv_endnames cfg) E"
    and "set p1 \<union> set p2 = {..<n}" and "distinct p1" and "distinct p2" and "set p1 \<inter> set p2 = {}"
  shows "\<exists>cfg'. partition_servers p1 p2 cfg = Inr cfg' \<and> sv_endnames cfg' = sv_endnames cfg \<and>
    (\<forall>i j e. end_at (sv_endnames cfg) i j = Inr e \<longrightarrow> (nw_enabled (sv_net cfg') e \<longleftrightarrow> (i \<in> set p1 \<longleftrightarrow> j \<in> set p1)))"
proof -
  have "partition_servers p1 p2 cfg = Inr (cfg\<lparr>sv_net := switch
    (link_ends (sv_endnames cfg) (set p1 \<times> set p1 \<union> set p2 \<times> set p2)) (link_ends (sv_endnames cfg) (between (set p1) (set p2))) (sv_net cfg)\<rparr>)"
    using assms by (intro partition_servers_switch) auto
  moreover have "nw_enabled (switch (link_ends (sv_endnames cfg) (set p1 \<times> set p1 \<union> set p2 \<times> set p2))
      (link_ends (sv_endnames cfg) (between (set p1) (set p2))) (sv_net cfg)) e \<longleftrightarrow> (i \<in> set p1 \<longleftrightarrow> j \<in> set p1)"
    if "end_at (sv_endnames cfg) i j = Inr e" for i j e
  proof -
    have ij: "i \<in> set p1 \<union> set p2" "j \<in> set p1 \<union> set p2" using full_table_range [OF assms(1) that] assms(3) by auto
    show ?thesis unfolding switch_fields link_ends_iff [OF assms(2) that] using ij assms(6) by (auto simp: between_def)
  qed
  ultimately show ?thesis by simp
qed

section \<open>The invariant of the tester\<close>

definition svc_wf :: "('c, 'srv, 'z) svc_config_scheme \<Rightarrow> bool" where
  "svc_wf cfg \<longleftrightarrow> length (sv_servers cfg) = sv_n cfg \<and> length (sv_saved cfg) = sv_n cfg \<and>
     length (sv_endnames cfg) = sv_n cfg \<and>
     (\<forall>i < sv_n cfg. \<forall>row. sv_endnames cfg ! i = Some row \<longrightarrow> length row = sv_n cfg) \<and>
     table_ok (sv_endnames cfg) (nw_ends (sv_net cfg))"

definition svc_ok :: "('c, 'srv, 'z) svc_config_scheme \<Rightarrow> bool" where
  "svc_ok cfg \<longleftrightarrow> svc_wf cfg \<and> (\<forall>i < sv_n cfg. sv_endnames cfg ! i \<noteq> None)"

lemma svc_ok_full: "svc_ok cfg \<Longrightarrow> full_table (sv_n cfg) (sv_endnames cfg)"
  by (auto simp: svc_ok_def svc_wf_def full_table_def)

lemma table_ok_mono: "table_ok es E \<Longrightarrow> E \<subseteq> E' \<Longrightarrow> table_ok es E'"
  unfolding table_ok_def by blast

lemma svc_ok_frame:
  assumes "svc_ok cfg" and "sv_n cfg' = sv_n cfg" and "length (sv_servers cfg') = length (sv_servers cfg)"
    and "length (sv_saved cfg') = length (sv_saved cfg)" and "sv_endnames cfg' = sv_endnames cfg"
    and "nw_ends (sv_net cfg) \<subseteq> nw_ends (sv_net cfg')"
  shows "svc_ok cfg'"
  using assms table_ok_mono unfolding svc_ok_def svc_wf_def by metis

lemma svc_saved_frame [simp]:
  "svc_saved peer (cfg\<lparr>sv_endnames := x\<rparr>) i = svc_saved peer cfg i"
  "svc_saved peer (cfg\<lparr>sv_net := y\<rparr>) i = svc_saved peer cfg i"
  by (simp_all add: svc_saved_def split: option.split)

lemma StartServer_Inr:
  assumes "StartServer peer mk names addr i cfg = Inr cfg'"
  obtains net1 ps where "i < length (sv_endnames cfg)" and "i < length (sv_saved cfg)" and "i < length (sv_servers cfg)"
    and "make_ends (map names [0..<sv_n cfg]) id (sv_n cfg) (sv_net cfg) = Inr net1"
    and "ps = (case svc_saved peer cfg i of Some p \<Rightarrow> Copy p | None \<Rightarrow> MakePersister)"
    and "cfg' = cfg\<lparr>sv_endnames := (sv_endnames cfg)[i := Some (map names [0..<sv_n cfg])],
      sv_saved := (sv_saved cfg)[i := Some ps], sv_servers := (sv_servers cfg)[i := Some (mk ps)], sv_net := AddServer i addr net1\<rparr>"
  using assms by (auto simp: StartServer_def Let_def go_bind_Inr_iff split: if_splits)

lemma StartServer_wf:
  assumes "StartServer peer mk names addr i cfg = Inr cfg'" and "svc_wf cfg"
  shows "svc_wf cfg' \<and> sv_n cfg' = sv_n cfg \<and> i < sv_n cfg \<and>
    (\<forall>k < sv_n cfg. sv_endnames cfg' ! k \<noteq> None \<longleftrightarrow> k = i \<or> sv_endnames cfg ! k \<noteq> None)"
proof -
  obtain net1 ps where i: "i < length (sv_endnames cfg)" "i < length (sv_saved cfg)" "i < length (sv_servers cfg)"
    and mk: "make_ends (map names [0..<sv_n cfg]) id (sv_n cfg) (sv_net cfg) = Inr net1"
    and c: "cfg' = cfg\<lparr>sv_endnames := (sv_endnames cfg)[i := Some (map names [0..<sv_n cfg])],
      sv_saved := (sv_saved cfg)[i := Some ps], sv_servers := (sv_servers cfg)[i := Some (mk ps)], sv_net := AddServer i addr net1\<rparr>"
    using assms(1) by (rule StartServer_Inr)
  let ?row = "map names [0..<sv_n cfg]"
  have row: "distinct ?row" "set ?row \<inter> nw_ends (sv_net cfg) = {}" "nw_ends net1 = nw_ends (sv_net cfg) \<union> set ?row"
    using make_ends_Inr [OF mk] by auto
  have wf: "table_ok (sv_endnames cfg) (nw_ends (sv_net cfg))" "length (sv_endnames cfg) = sv_n cfg"
    "\<forall>i < sv_n cfg. \<forall>row. sv_endnames cfg ! i = Some row \<longrightarrow> length row = sv_n cfg"
    using assms(2) by (simp_all add: svc_wf_def)
  have "table_ok (sv_endnames cfg') (nw_ends (sv_net cfg'))"
    using table_ok_update [OF wf(1) i(1) row(1,2)] row(3) by (simp add: c AddServer_def)
  moreover have "length r = sv_n cfg" if "k < sv_n cfg" "sv_endnames cfg' ! k = Some r" for k r
    using that wf(3) i(1) wf(2) by (cases "k = i") (auto simp: c)
  moreover have "sv_endnames cfg' ! k \<noteq> None \<longleftrightarrow> k = i \<or> sv_endnames cfg ! k \<noteq> None" if "k < sv_n cfg" for k
    using that i(1) wf(2) by (cases "k = i") (auto simp: c)
  ultimately show ?thesis using assms(2) i by (simp add: svc_wf_def c)
qed

text \<open>Starting servers \<open>0\<close> to \<open>n - 1\<close> fills the table.\<close>

lemma start_all_ok:
  assumes "go_fold f [0..<n] cfg = Inr cfg'" and "svc_wf cfg" and "sv_n cfg = n"
    and "\<And>i c c'. f i c = Inr c' \<Longrightarrow> \<exists>mk names addr. StartServer peer mk names addr i c = Inr c'"
  shows "svc_ok cfg'"
proof -
  have "svc_wf c \<and> sv_n c = n \<and> (\<forall>i < k. sv_endnames c ! i \<noteq> None)" if "go_fold f [0..<k] cfg = Inr c" "k \<le> n" for k c
    using that
  proof (induction k arbitrary: c)
    case 0
    then show ?case using assms(2,3) by simp
  next
    case (Suc k)
    obtain c1 where c1: "go_fold f [0..<k] cfg = Inr c1" "f k c1 = Inr c"
      using Suc.prems(1) by (auto simp: go_fold_append go_bind_Inr_iff)
    obtain mk names addr where st: "StartServer peer mk names addr k c1 = Inr c" using assms(4) [OF c1(2)] by blast
    have IH: "svc_wf c1" "sv_n c1 = n" "\<forall>i < k. sv_endnames c1 ! i \<noteq> None"
      using Suc.IH [OF c1(1)] Suc.prems(2) by auto
    show ?case using StartServer_wf [OF st IH(1)] IH(2,3) Suc.prems(2) by (auto simp: less_Suc_eq)
  qed
  then show ?thesis using assms(1) by (simp add: svc_ok_def)
qed

lemma connect_inv:
  assumes "connectUnlocked i js cfg = Inr cfg'" and "svc_ok cfg"
  shows "svc_ok cfg' \<and> sv_n cfg' = sv_n cfg \<and> sv_servers cfg' = sv_servers cfg"
  using assms by (auto simp: connectUnlocked_def go_bind_Inr_iff set_links_Inr intro: svc_ok_frame [OF assms(2)])

lemma cut_if_started_ends: "cut_if_started es row l net = Inr net' \<Longrightarrow> nw_ends net' = nw_ends net"
  by (auto simp: cut_if_started_def set_link_def go_bind_Inr_iff Enable_def split: if_splits prod.splits)

lemma disconnect_inv:
  assumes "disconnectUnlocked i js cfg = Inr cfg'" and "svc_ok cfg"
  shows "svc_ok cfg' \<and> sv_n cfg' = sv_n cfg \<and> sv_servers cfg' = sv_servers cfg \<and> sv_saved cfg' = sv_saved cfg"
proof -
  have loop: "nw_ends n2 = nw_ends n1" if "go_fold (\<lambda>j. cut_if_started es (rw j) (lk j)) ks n1 = Inr n2"
    for es rw lk ks and n1 n2 :: "(string, nat) Network"
    by (rule go_fold_invariant [OF that, where I = "\<lambda>n. nw_ends n = nw_ends n1"]) (auto dest: cut_if_started_ends)
  obtain net1 net2 where n: "go_fold (\<lambda>j. cut_if_started (sv_endnames cfg) i (i, js ! j)) [0..<length js] (sv_net cfg) = Inr net1"
    "go_fold (\<lambda>j. cut_if_started (sv_endnames cfg) j (js ! j, i)) [0..<length js] net1 = Inr net2"
    "cfg' = cfg\<lparr>sv_net := net2\<rparr>"
    using assms(1) by (auto simp: disconnectUnlocked_def Let_def go_bind_Inr_iff)
  show ?thesis using loop [OF n(1)] loop [OF n(2)] n(3) by (auto intro: svc_ok_frame [OF assms(2)])
qed

lemma go_fold_svc_ok:
  assumes "go_fold f xs cfg = Inr cfg'" and "svc_ok cfg"
    and "\<And>x c c'. f x c = Inr c' \<Longrightarrow> svc_ok c \<Longrightarrow> svc_ok c'"
  shows "svc_ok cfg'"
  using assms(2) by (rule go_fold_invariant [where I = svc_ok, OF assms(1)]) (use assms(3) in blast)

lemma partition_inv:
  assumes "partition_servers p1 p2 cfg = Inr cfg'" and "svc_ok cfg"
  shows "svc_ok cfg'"
proof -
  have st: "svc_ok c'" if "split_off others own x c = Inr c'" "svc_ok c"
    for others own x and c c' :: "('a, 'b, 'c) svc_config_scheme"
    using that by (auto simp: split_off_def go_bind_Inr_iff dest: connect_inv disconnect_inv)
  obtain c1 where "go_fold (split_off p2 p1) p1 cfg = Inr c1" "go_fold (split_off p1 p2) p2 c1 = Inr cfg'"
    using assms(1) by (auto simp: partition_servers_def go_bind_Inr_iff)
  then show ?thesis using go_fold_svc_ok assms(2) st by metis
qed

lemma ConnectAll_inv: "ConnectAll cfg = Inr cfg' \<Longrightarrow> svc_ok cfg \<Longrightarrow> svc_ok cfg'"
  unfolding ConnectAll_def by (erule go_fold_svc_ok) (auto dest: connect_inv)

lemma set_clerk_links_inv: "set_clerk_links b ck js cfg = Inr cfg' \<Longrightarrow> svc_ok cfg \<Longrightarrow> svc_ok cfg'"
  unfolding set_clerk_links_def
  by (erule go_fold_svc_ok) (auto simp: go_bind_Inr_iff Enable_def intro: svc_ok_frame)

lemma makeClient_inv:
  assumes "makeClient mk names js ck dests cfg = Inr (cfg', clerk)" and "svc_ok cfg"
  shows "svc_ok cfg'"
proof -
  obtain net1 cfg1 where m: "make_ends (map names [0..<sv_n cfg]) id (sv_n cfg) (sv_net cfg) = Inr net1"
    "cfg1 = cfg\<lparr>sv_net := net1, sv_clerks := (sv_clerks cfg)(ck \<mapsto> map names [0..<sv_n cfg]),
                       sv_nextClientId := sv_nextClientId cfg + 1\<rparr>"
    "ConnectClientUnlocked ck dests cfg1 = Inr cfg'"
    using assms(1) by (auto simp: makeClient_def Let_def go_bind_Inr_iff)
  have "nw_ends (sv_net cfg) \<subseteq> nw_ends net1" using make_ends_Inr [OF m(1)] by auto
  then have "svc_ok cfg1" unfolding m(2) by (intro svc_ok_frame [OF assms(2)]) simp_all
  then show ?thesis using m(3) by (auto simp: ConnectClientUnlocked_def dest: set_clerk_links_inv)
qed

lemma ShutdownServer_Inr:
  assumes "ShutdownServer peer i cfg = Inr cfg'"
  obtains cfg1 where "disconnectUnlocked i (AllServers cfg) cfg = Inr cfg1"
    and "i < length (sv_saved cfg1)" and "i < length (sv_servers cfg1)"
    and "cfg' = cfg1\<lparr>sv_net := DeleteServer i (sv_net cfg1), sv_saved := (sv_saved cfg1)[i := map_option Copy (svc_saved peer cfg1 i)],
      sv_servers := (sv_servers cfg1)[i := None]\<rparr>"
  using assms by (auto simp: ShutdownServer_def Let_def go_bind_Inr_iff split: if_splits)

lemma ShutdownServer_inv:
  assumes "ShutdownServer peer i cfg = Inr cfg'" and "svc_ok cfg"
  shows "svc_ok cfg'" and "sv_servers cfg' ! i = None" and "i < sv_n cfg"
    and "sv_saved cfg' ! i = map_option Copy (svc_saved peer cfg i)" and "nw_servers (sv_net cfg') i = None"
    and "end_at (sv_endnames cfg) a b = Inr e \<Longrightarrow> a = i \<or> b = i \<Longrightarrow> \<not> nw_enabled (sv_net cfg') e"
proof -
  obtain cfg1 where d: "disconnectUnlocked i (AllServers cfg) cfg = Inr cfg1"
    and i: "i < length (sv_saved cfg1)" "i < length (sv_servers cfg1)"
    and c: "cfg' = cfg1\<lparr>sv_net := DeleteServer i (sv_net cfg1), sv_saved := (sv_saved cfg1)[i := map_option Copy (svc_saved peer cfg1 i)],
      sv_servers := (sv_servers cfg1)[i := None]\<rparr>"
    using assms(1) by (rule ShutdownServer_Inr)
  note inv = disconnect_inv [OF d assms(2)]
  have ok1: "svc_ok cfg1" using inv by simp
  show "svc_ok cfg'" unfolding c by (rule svc_ok_frame [OF ok1]) (simp_all add: DeleteServer_def)
  show "sv_servers cfg' ! i = None" using i by (simp add: c)
  have "svc_saved peer cfg1 i = svc_saved peer cfg i" using inv by (simp add: svc_saved_def split: option.split)
  then show "sv_saved cfg' ! i = map_option Copy (svc_saved peer cfg i)" using i by (simp add: c)
  show "nw_servers (sv_net cfg') i = None" by (simp add: c DeleteServer_def)
  show in_: "i < sv_n cfg" using i(1) inv assms(2) by (auto simp: svc_ok_def svc_wf_def)
  have "cfg1 = cfg\<lparr>sv_net := switch {} (link_ends (sv_endnames cfg) (star i (set (AllServers cfg)))) (sv_net cfg)\<rparr>"
  proof -
    have "set (AllServers cfg) \<subseteq> {..<sv_n cfg}" "distinct (AllServers cfg)" by (auto simp: AllServers_def)
    then show ?thesis using disconnectUnlocked_switch [OF svc_ok_full [OF assms(2)] in_] d by simp
  qed
  moreover assume e: "end_at (sv_endnames cfg) a b = Inr e" and ab: "a = i \<or> b = i"
  moreover have "(a, b) \<in> star i (set (AllServers cfg))"
    using full_table_range [OF svc_ok_full [OF assms(2)] e] ab by (auto simp: AllServers_def)
  ultimately show "\<not> nw_enabled (sv_net cfg') e"
    using e by (auto simp: c DeleteServer_def link_ends_def)
qed

lemma StartServer_inv:
  assumes "StartServer peer mk names addr i cfg = Inr cfg'" and "svc_ok cfg"
  shows "svc_ok cfg'"
  using StartServer_wf [OF assms(1)] assms(2) by (auto simp: svc_ok_def)

text \<open>A server that is shut down and started again: proved once for every kind of server.\<close>

context raft_server
begin

lemma shutdown_start:
  assumes "ShutdownServer peer i cfg = Inr cfg1" and "svc_ok cfg" and "StartServer peer start names addr i cfg1 = Inr cfg2"
    and "sv_servers cfg ! i = Some srv" and "synced (peer srv)"
  shows "\<exists>srv'. sv_servers cfg2 ! i = Some srv' \<and> hard_state (peer srv') = hard_state (peer srv) \<and> \<not> killed (peer srv')"
proof -
  note sd = ShutdownServer_inv [OF assms(1,2)]
  have saved: "svc_saved peer cfg1 i = Some (rf_persister (peer srv))"
    using sd(2,4) assms(4) by (simp add: svc_saved_def Copy_def clone_bytes_def)
  obtain net1 ps where "ps = (case svc_saved peer cfg1 i of Some p \<Rightarrow> Copy p | None \<Rightarrow> MakePersister)"
    "i < length (sv_servers cfg1)" "cfg2 = cfg1\<lparr>sv_endnames := (sv_endnames cfg1)[i := Some (map names [0..<sv_n cfg1])],
      sv_saved := (sv_saved cfg1)[i := Some ps], sv_servers := (sv_servers cfg1)[i := Some (start ps)], sv_net := AddServer i addr net1\<rparr>"
    using assms(3) by (rule StartServer_Inr)
  then have "sv_servers cfg2 ! i = Some (start (Copy (rf_persister (peer srv))))" using saved by simp
  moreover have "hard_state (peer (start (Copy (rf_persister (peer srv))))) = hard_state (peer srv)"
    using restart_recovers [OF assms(5)] stop_durable by metis
  ultimately show ?thesis using start_alive by blast
qed

end

text \<open>The two sides around a server \<open>l\<close>, and the links that are left after the partition.\<close>

lemma partition_sides_links:
  assumes "svc_ok cfg" and "odd (sv_n cfg)" and "sv_n cfg \<ge> 3" and "l < sv_n cfg"
  shows "\<exists>p1 p2 cfg'. partition_around (sv_n cfg) l = Inr (p1, p2) \<and> partition_servers p1 p2 cfg = Inr cfg' \<and>
    set p1 \<union> set p2 = {..<sv_n cfg} \<and> set p1 \<inter> set p2 = {} \<and> l \<in> set p2 \<and> card (set p1) = card (set p2) + 1 \<and>
    (\<forall>i < sv_n cfg. \<forall>j < sv_n cfg. \<exists>e. end_at (sv_endnames cfg') i j = Inr e \<and>
       (nw_enabled (sv_net cfg') e \<longleftrightarrow> (i \<in> set p1 \<longleftrightarrow> j \<in> set p1)))"
proof -
  obtain p1 p2 where p: "partition_around (sv_n cfg) l = Inr (p1, p2)" "set p1 \<union> set p2 = {..<sv_n cfg}"
    "set p1 \<inter> set p2 = {}" "distinct p1" "distinct p2" "l \<in> set p2" "length p1 = length p2 + 1"
    using partition_around_sides assms(2-4) by metis
  note full = svc_ok_full [OF assms(1)]
  have tb: "table_ok (sv_endnames cfg) (nw_ends (sv_net cfg))" using assms(1) by (simp add: svc_ok_def svc_wf_def)
  obtain cfg' where c: "partition_servers p1 p2 cfg = Inr cfg'" "sv_endnames cfg' = sv_endnames cfg"
    "\<forall>i j e. end_at (sv_endnames cfg) i j = Inr e \<longrightarrow> (nw_enabled (sv_net cfg') e \<longleftrightarrow> (i \<in> set p1 \<longleftrightarrow> j \<in> set p1))"
    using partition_servers_links [OF full tb p(2,4,5,3)] by blast
  have "card (set p1) = card (set p2) + 1" using p(4,5,7) by (simp add: distinct_card)
  moreover have "\<exists>e. end_at (sv_endnames cfg') i j = Inr e \<and> (nw_enabled (sv_net cfg') e \<longleftrightarrow> (i \<in> set p1 \<longleftrightarrow> j \<in> set p1))"
    if "i < sv_n cfg" "j < sv_n cfg" for i j
    using full_table_end_at [OF full that] c(2,3) by metis
  ultimately show ?thesis using c(1) p(1-3,6) by blast
qed

section \<open>Runs of the kvraft tester\<close>

definition kv_init :: "'c kv_config \<Rightarrow> bool" where
  "kv_init cfg \<longleftrightarrow> (\<exists>n unreliable maxraftstate now env. kv_make_config n unreliable maxraftstate now env = Inr cfg)"

text \<open>\<open>kt_server\<close> is any change a running server makes to itself.\<close>

inductive kv_test_step :: "'c kv_config \<Rightarrow> 'c kv_config \<Rightarrow> bool" where
  kt_connect: "svc_connect i js cfg = Inr cfg' \<Longrightarrow> kv_test_step cfg cfg'"
| kt_disconnect: "svc_disconnect i js cfg = Inr cfg' \<Longrightarrow> kv_test_step cfg cfg'"
| kt_connect_all: "ConnectAll cfg = Inr cfg' \<Longrightarrow> kv_test_step cfg cfg'"
| kt_partition: "partition_servers p1 p2 cfg = Inr cfg' \<Longrightarrow> kv_test_step cfg cfg'"
| kt_client: "makeClient KVClerk_Make names js ck dests cfg = Inr (cfg', clerk) \<Longrightarrow> kv_test_step cfg cfg'"
| kt_delete: "kv_test_step cfg (deleteClient ck cfg)"
| kt_connect_client: "ConnectClient ck dests cfg = Inr cfg' \<Longrightarrow> kv_test_step cfg cfg'"
| kt_disconnect_client: "DisconnectClient ck srcs cfg = Inr cfg' \<Longrightarrow> kv_test_step cfg cfg'"
| kt_shutdown: "ShutdownServer kv_rf i cfg = Inr cfg' \<Longrightarrow> kv_test_step cfg cfg'"
| kt_start: "kv_StartServer names addr now rnd i cfg = Inr cfg' \<Longrightarrow> kv_test_step cfg cfg'"
| kt_begin: "kv_test_step cfg (kv_begin now cfg)"
| kt_op: "kv_test_step cfg (kv_count_op cfg)"
| kt_server: "sv_servers cfg ! i = Some kv \<Longrightarrow> kv_test_step cfg (cfg\<lparr>sv_servers := (sv_servers cfg)[i := Some kv']\<rparr>)"

lemma kv_make_config_ok:
  assumes "kv_make_config n unreliable maxraftstate now env = Inr cfg"
  shows "svc_ok cfg"
proof -
  obtain cfg1 cfg2 where c: "go_fold (\<lambda>i c. case env i of (names, addr, t, rnd) \<Rightarrow> kv_StartServer names addr t rnd i c)
      [0..<n] (kv_blank n maxraftstate now) = Inr cfg1" "ConnectAll cfg1 = Inr cfg2"
    "cfg = cfg2\<lparr>sv_net := Reliable (\<not> unreliable) (sv_net cfg2)\<rparr>"
    using assms by (auto simp: kv_make_config_def go_bind_Inr_iff)
  have "svc_wf (kv_blank n maxraftstate now :: 'c kv_config)" "sv_n (kv_blank n maxraftstate now :: 'c kv_config) = n"
    by (auto simp: kv_blank_def svc_wf_def MakeNetwork_def table_ok_def end_at_def)
  then have "svc_ok cfg1"
    by (rule start_all_ok [OF c(1), where peer = kv_rf]) (auto simp: kv_StartServer_def split: prod.splits)
  then have "svc_ok cfg2" using ConnectAll_inv c(2) by blast
  then show ?thesis unfolding c(3) by (rule svc_ok_frame) (simp_all add: Reliable_def)
qed

lemma kv_test_step_ok:
  assumes "kv_test_step cfg cfg'" and "svc_ok cfg"
  shows "svc_ok cfg'"
  using assms
proof (cases rule: kv_test_step.cases)
  case (kt_connect i js)
  then show ?thesis unfolding svc_connect_def using connect_inv assms(2) by blast
next
  case (kt_disconnect i js)
  then show ?thesis unfolding svc_disconnect_def using disconnect_inv assms(2) by blast
next
  case (kt_start names addr now rnd i)
  then show ?thesis unfolding kv_StartServer_def using StartServer_inv assms(2) by blast
qed (use assms(2) in \<open>auto intro: ConnectAll_inv partition_inv makeClient_inv set_clerk_links_inv ShutdownServer_inv(1) svc_ok_frame
  simp: ConnectClient_def DisconnectClient_def ConnectClientUnlocked_def DisconnectClientUnlocked_def deleteClient_def kv_begin_def kv_count_op_def\<close>)

interpretation kv_tester: inductive_invariant kv_init kv_test_step svc_ok
  by unfold_locales (auto simp: kv_init_def dest: kv_make_config_ok kv_test_step_ok)

section \<open>Properties\<close>

text \<open>
  C31. Isolating the leader. In any state a kvraft test can reach with an odd number of servers, three or
  more, all of them running, \<open>make_partition\<close> puts every server on exactly one side, the leader that
  \<open>Leader\<close> found on the smaller one, and \<open>partition\<close> then leaves the end from \<open>i\<close> to \<open>j\<close> enabled exactly
  when \<open>i\<close> and \<open>j\<close> are on the same side.
\<close>

theorem partition_isolates_leader:
  fixes cfg :: "'c kv_config"
  assumes "reaches kv_init kv_test_step cfg" and "odd (sv_n cfg)" and "sv_n cfg \<ge> 3" and "Leader cfg = Inr (found, l)"
  shows "\<exists>p1 p2 cfg'. make_partition cfg = Inr (p1, p2) \<and> partition_servers p1 p2 cfg = Inr cfg' \<and>
    set p1 \<union> set p2 = {..<sv_n cfg} \<and> set p1 \<inter> set p2 = {} \<and> l \<in> set p2 \<and> card (set p1) = card (set p2) + 1 \<and>
    (\<forall>i < sv_n cfg. \<forall>j < sv_n cfg. \<exists>e. end_at (sv_endnames cfg') i j = Inr e \<and>
       (nw_enabled (sv_net cfg') e \<longleftrightarrow> (i \<in> set p1 \<longleftrightarrow> j \<in> set p1)))"
proof -
  have ok: "svc_ok cfg" using kv_tester.invar_reaches [OF assms(1)] .
  have "l' < length srvs + k" if "leader_among srvs k = Inr (f, l')" "k + length srvs > 0" for srvs :: "'c KVServer option list" and k f l'
    using that by (induction srvs k rule: leader_among.induct) (auto split: if_splits)
  then have "l < sv_n cfg" using assms(3,4) ok by (fastforce simp: Leader_def svc_ok_def svc_wf_def)
  then show ?thesis
    using partition_sides_links [OF ok assms(2,3)] assms(4) by (simp add: make_partition_def)
qed

text \<open>
  C32. Shutting down and restarting. In any state a kvraft test can reach, \<open>ShutdownServer\<close> cuts every link
  from and to the server and takes it off the network; starting it again gives a live server whose
  Raft peer has the persisted state of the one that was shut down.
\<close>

theorem kv_shutdown_restart:
  fixes cfg :: "'c kv_config"
  assumes "reaches kv_init kv_test_step cfg" and "ShutdownServer kv_rf i cfg = Inr cfg1"
    and "kv_StartServer names addr now rnd i cfg1 = Inr cfg2" and "sv_servers cfg ! i = Some kv" and "synced (kv_rf kv)"
  shows "nw_servers (sv_net cfg1) i = None \<and> sv_servers cfg1 ! i = None \<and>
    (\<forall>a b e. end_at (sv_endnames cfg) a b = Inr e \<longrightarrow> a = i \<or> b = i \<longrightarrow> \<not> nw_enabled (sv_net cfg1) e) \<and>
    (\<exists>kv'. sv_servers cfg2 ! i = Some kv' \<and> hard_state (kv_rf kv') = hard_state (kv_rf kv) \<and> \<not> killed (kv_rf kv'))"
proof -
  have ok: "svc_ok cfg" using kv_tester.invar_reaches [OF assms(1)] .
  show ?thesis
    using ShutdownServer_inv [OF assms(2) ok] kv.shutdown_start [OF assms(2) ok _ assms(4,5)] assms(3)
    unfolding kv_StartServer_def by blast
qed

definition kv_names :: "nat \<Rightarrow> nat \<Rightarrow> string" where
  "kv_names k j = replicate k CHR ''e'' @ replicate j CHR ''n''"

definition kv_env :: "nat \<Rightarrow> (nat \<Rightarrow> string) \<times> nat \<times> int \<times> int" where
  "kv_env i = (kv_names i, i, 0, 0)"

lemmas kv_eval = kv_make_config_def kv_blank_def kv_StartServer_def StartServer_def ConnectAll_def connectUnlocked_def
  AllServers_def Let_def numeral_3_eq_3 kv_env_def make_ends_def make_end_def set_links_def set_link_def end_at_def go_nth_def
  kv_names_def MakeEnd_def Connect_def MakeNetwork_def Reliable_def AddServer_def Enable_def svc_saved_def
  ShutdownServer_def disconnectUnlocked_def cut_if_started_def DeleteServer_def

lemma kv_sample:
  "\<exists>cfg cfg1 cfg2 :: int kv_config. kv_make_config 3 False (- 1) 0 kv_env = Inr cfg \<and> sv_n cfg = 3 \<and>
     sv_servers cfg = map (\<lambda>i. Some (StartKVServer 3 (int i) MakePersister (- 1) 0 0)) [0, 1, 2] \<and>
     ShutdownServer kv_rf 0 cfg = Inr cfg1 \<and> kv_StartServer (kv_names 3) 3 1 0 0 cfg1 = Inr cfg2"
  by (simp add: kv_eval)

lemma kv_make_config_reaches: "kv_make_config n unreliable maxraftstate now env = Inr cfg \<Longrightarrow> reaches kv_init kv_test_step cfg"
  unfolding kv_init_def by (rule reaches_init) blast

theorem partition_isolates_leader_witness:
  "\<exists>(cfg :: int kv_config) p1 p2. make_partition cfg = Inr (p1, p2) \<and> 0 \<in> set p2 \<and> card (set p1) = card (set p2) + 1"
proof -
  obtain cfg :: "int kv_config" where c: "kv_make_config 3 False (- 1) 0 kv_env = Inr cfg" "sv_n cfg = 3"
    "sv_servers cfg = map (\<lambda>i. Some (StartKVServer 3 (int i) MakePersister (- 1) 0 0)) [0, 1, 2]"
    using kv_sample by blast
  have "Leader cfg = Inr (False, 0)"
    by (simp add: Leader_def c(3) StartKVServer_def GetState_def Make_fields)
  then show ?thesis
    using partition_isolates_leader [OF kv_make_config_reaches [OF c(1)], of False 0] c(2) by auto
qed

theorem kv_shutdown_restart_witness:
  "\<exists>cfg1 cfg2 :: int kv_config. kv_StartServer (kv_names 3) 3 1 0 0 cfg1 = Inr cfg2 \<and> sv_servers cfg1 ! 0 = None \<and>
     (\<exists>kv'. sv_servers cfg2 ! 0 = Some kv' \<and> hard_state (kv_rf kv') = boot_state)"
proof -
  obtain cfg cfg1 cfg2 :: "int kv_config" where c: "kv_make_config 3 False (- 1) 0 kv_env = Inr cfg"
    "sv_servers cfg = map (\<lambda>i. Some (StartKVServer 3 (int i) MakePersister (- 1) 0 0)) [0, 1, 2]"
    "ShutdownServer kv_rf 0 cfg = Inr cfg1" "kv_StartServer (kv_names 3) 3 1 0 0 cfg1 = Inr cfg2"
    using kv_sample by blast
  have kv: "sv_servers cfg ! 0 = Some (StartKVServer 3 0 MakePersister (- 1) 0 0)" using c(2) by simp
  have h: "hard_state (Make 3 0 MakePersister 0 0 :: int raft) = boot_state" by (simp add: Make_hard_state durable_def)
  then have "synced (kv_rf (StartKVServer 3 0 MakePersister (- 1) 0 0 :: int KVServer))"
    by (simp add: StartKVServer_def synced_def Make_fields durable_def)
  then show ?thesis
    using kv_shutdown_restart [OF kv_make_config_reaches [OF c(1)] c(3,4) kv] c(4) h by (auto simp: StartKVServer_def)
qed

end
