(* ===== verification/Ctrler_Harness.thy ===== *)
theory Ctrler_Harness
  imports Service_Harness_Inv
begin

text \<open>
  \<open>shardctrler/config.go\<close>: the tester of the shard controller. Its text is that of \<open>kvraft/config.go\<close>
  for another kind of server, except that it keeps no statistics and that its \<open>Leader\<close> skips servers
  that are down.
\<close>

type_synonym 'c ctrl_config = "('c, 'c ShardCtrler) svc_config"

definition ctrl_random_handles :: "nat list \<Rightarrow> 'e list \<Rightarrow> 'e list" where
  "ctrl_random_handles js kvh = random_handles js kvh"

definition ctrl_checkTimeout :: "int \<Rightarrow> bool \<Rightarrow> 'c ctrl_config \<Rightarrow> unit go" where
  "ctrl_checkTimeout now failed cfg = svc_checkTimeout now failed cfg"

definition ctrl_cleanup :: "int \<Rightarrow> bool \<Rightarrow> 'c ctrl_config \<Rightarrow> 'c ctrl_config go" where
  "ctrl_cleanup now failed cfg = svc_cleanup ShardCtrler_Kill now failed cfg"

definition ctrl_LogSize :: "'c ctrl_config \<Rightarrow> nat go" where
  "ctrl_LogSize cfg = svc_LogSize sh_rf cfg"

definition ctrl_connectUnlocked :: "nat \<Rightarrow> nat list \<Rightarrow> 'c ctrl_config \<Rightarrow> 'c ctrl_config go" where
  "ctrl_connectUnlocked i dests cfg = connectUnlocked i dests cfg"

definition ctrl_disconnectUnlocked :: "nat \<Rightarrow> nat list \<Rightarrow> 'c ctrl_config \<Rightarrow> 'c ctrl_config go" where
  "ctrl_disconnectUnlocked i srcs cfg = disconnectUnlocked i srcs cfg"

definition ctrl_connect :: "nat \<Rightarrow> nat list \<Rightarrow> 'c ctrl_config \<Rightarrow> 'c ctrl_config go" where
  "ctrl_connect i dests cfg = ctrl_connectUnlocked i dests cfg"

definition ctrl_disconnect :: "nat \<Rightarrow> nat list \<Rightarrow> 'c ctrl_config \<Rightarrow> 'c ctrl_config go" where
  "ctrl_disconnect i srcs cfg = ctrl_disconnectUnlocked i srcs cfg"

definition ctrl_AllServers :: "'c ctrl_config \<Rightarrow> nat list" where
  "ctrl_AllServers cfg = AllServers cfg"

definition ctrl_ConnectAll :: "'c ctrl_config \<Rightarrow> 'c ctrl_config go" where
  "ctrl_ConnectAll cfg = go_fold (\<lambda>i c. ctrl_connectUnlocked i (ctrl_AllServers c) c) [0..<sv_n cfg] cfg"

definition ctrl_partition :: "nat list \<Rightarrow> nat list \<Rightarrow> 'c ctrl_config \<Rightarrow> 'c ctrl_config go" where
  "ctrl_partition p1 p2 cfg =
     go_bind (go_fold (\<lambda>i c. go_bind (ctrl_disconnectUnlocked i p2 c) (ctrl_connectUnlocked i p1)) p1 cfg)
       (go_fold (\<lambda>i c. go_bind (ctrl_disconnectUnlocked i p1 c) (ctrl_connectUnlocked i p2)) p2)"

definition ctrl_ConnectClientUnlocked :: "nat \<Rightarrow> nat list \<Rightarrow> 'c ctrl_config \<Rightarrow> 'c ctrl_config go" where
  "ctrl_ConnectClientUnlocked ck dests cfg = ConnectClientUnlocked ck dests cfg"

definition ctrl_DisconnectClientUnlocked :: "nat \<Rightarrow> nat list \<Rightarrow> 'c ctrl_config \<Rightarrow> 'c ctrl_config go" where
  "ctrl_DisconnectClientUnlocked ck srcs cfg = DisconnectClientUnlocked ck srcs cfg"

definition ctrl_ConnectClient :: "nat \<Rightarrow> nat list \<Rightarrow> 'c ctrl_config \<Rightarrow> 'c ctrl_config go" where
  "ctrl_ConnectClient ck dests cfg = ctrl_ConnectClientUnlocked ck dests cfg"

definition ctrl_DisconnectClient :: "nat \<Rightarrow> nat list \<Rightarrow> 'c ctrl_config \<Rightarrow> 'c ctrl_config go" where
  "ctrl_DisconnectClient ck srcs cfg = ctrl_DisconnectClientUnlocked ck srcs cfg"

definition ctrl_makeClient ::
  "(nat \<Rightarrow> string) \<Rightarrow> nat list \<Rightarrow> nat \<Rightarrow> nat list \<Rightarrow> 'c ctrl_config \<Rightarrow> ('c ctrl_config \<times> string Clerk) go" where
  "ctrl_makeClient names js ck dests cfg = makeClient MakeClerk names js ck dests cfg"

definition ctrl_deleteClient :: "nat \<Rightarrow> 'c ctrl_config \<Rightarrow> 'c ctrl_config" where
  "ctrl_deleteClient ck cfg = deleteClient ck cfg"

definition ctrl_ShutdownServer :: "nat \<Rightarrow> 'c ctrl_config \<Rightarrow> 'c ctrl_config go" where
  "ctrl_ShutdownServer i cfg = ShutdownServer ShardCtrler_Raft i cfg"

definition ctrl_StartServer ::
  "(nat \<Rightarrow> string) \<Rightarrow> nat \<Rightarrow> int \<Rightarrow> int \<Rightarrow> nat \<Rightarrow> 'c ctrl_config \<Rightarrow> 'c ctrl_config go" where
  "ctrl_StartServer names addr now rnd i cfg =
     StartServer ShardCtrler_Raft (\<lambda>ps. ShardCtrler_StartServer (sv_n cfg) (int i) ps now rnd) names addr i cfg"

fun ctrl_leader_among :: "'c ShardCtrler option list \<Rightarrow> nat \<Rightarrow> bool \<times> nat" where
  "ctrl_leader_among [] i = (False, 0)"
| "ctrl_leader_among (None # srvs) i = ctrl_leader_among srvs (i + 1)"
| "ctrl_leader_among (Some sc # srvs) i =
     (if snd (GetState (sh_rf sc)) then (True, i) else ctrl_leader_among srvs (i + 1))"

definition ctrl_Leader :: "'c ctrl_config \<Rightarrow> bool \<times> nat" where
  "ctrl_Leader cfg = ctrl_leader_among (sv_servers cfg) 0"

definition ctrl_make_partition :: "'c ctrl_config \<Rightarrow> (nat list \<times> nat list) go" where
  "ctrl_make_partition cfg = (case ctrl_Leader cfg of (_, l) \<Rightarrow> partition_around (sv_n cfg) l)"

definition ctrl_make_config ::
  "nat \<Rightarrow> bool \<Rightarrow> int \<Rightarrow> (nat \<Rightarrow> (nat \<Rightarrow> string) \<times> nat \<times> int \<times> int) \<Rightarrow> 'c ctrl_config go" where
  "ctrl_make_config n unreliable now env =
     (let cfg0 = \<lparr>sv_net = MakeNetwork, sv_n = n, sv_servers = replicate n None, sv_saved = replicate n None,
                  sv_endnames = replicate n None, sv_clerks = Map.empty, sv_nextClientId = int n + 1000, sv_start = now\<rparr>
      in go_bind (go_fold (\<lambda>i c. case env i of (names, addr, t, rnd) \<Rightarrow> ctrl_StartServer names addr t rnd i c) [0..<n] cfg0) (\<lambda>cfg1.
         go_bind (ctrl_ConnectAll cfg1) (\<lambda>cfg2.
           Inr (cfg2\<lparr>sv_net := Reliable (\<not> unreliable) (sv_net cfg2)\<rparr>))))"

section \<open>Properties\<close>

lemma ctrl_leader_among_eq:
  "ctrl_leader_among srvs k =
     (case filter (\<lambda>i. case srvs ! i of Some sc \<Rightarrow> snd (GetState (sh_rf sc)) | None \<Rightarrow> False) [0..<length srvs] of
        [] \<Rightarrow> (False, 0) | i # _ \<Rightarrow> (True, k + i))"
proof (induction srvs k rule: ctrl_leader_among.induct)
  case (2 srvs i)
  have "filter P [0..<Suc m] = (if P 0 then [0] else []) @ map Suc (filter (\<lambda>j. P (Suc j)) [0..<m])" for P m
    by (simp add: upt_conv_Cons filter_map comp_def map_Suc_upt [symmetric] del: upt_Suc)
  then show ?case using 2 by (simp del: upt_Suc split: list.split)
next
  case (3 sc srvs i)
  have "filter P [0..<Suc m] = (if P 0 then [0] else []) @ map Suc (filter (\<lambda>j. P (Suc j)) [0..<m])" for P m
    by (simp add: upt_conv_Cons filter_map comp_def map_Suc_upt [symmetric] del: upt_Suc)
  then show ?case using 3 by (simp del: upt_Suc split: list.split)
qed simp

lemma ctrl_shutdown_restart:
  assumes "ctrl_ShutdownServer i cfg = Inr cfg1" and "svc_ok cfg" and "ctrl_StartServer names addr now rnd i cfg1 = Inr cfg2"
    and "sv_servers cfg ! i = Some sc" and "synced (sh_rf sc)"
  shows "\<exists>sc'. sv_servers cfg2 ! i = Some sc' \<and> hard_state (sh_rf sc') = hard_state (sh_rf sc) \<and> \<not> killed (sh_rf sc')"
  using ctrler.shutdown_start [OF _ assms(2) _ assms(4)] assms(1,3,5)
  unfolding ctrl_ShutdownServer_def ctrl_StartServer_def ShardCtrler_Raft_def by blast

lemma ctrl_make_config_ok:
  assumes "ctrl_make_config n unreliable now env = Inr cfg"
  shows "svc_ok cfg"
proof -
  let ?start = "\<lambda>i c. case env i of (names, addr, t, rnd) \<Rightarrow> ctrl_StartServer names addr t rnd i c"
  obtain cfg0 cfg1 cfg2 where c: "go_fold ?start [0..<n] cfg0 = Inr cfg1" "ctrl_ConnectAll cfg1 = Inr cfg2"
    "cfg = cfg2\<lparr>sv_net := Reliable (\<not> unreliable) (sv_net cfg2)\<rparr>"
    and cfg0: "cfg0 = \<lparr>sv_net = MakeNetwork, sv_n = n, sv_servers = replicate n None, sv_saved = replicate n None,
                  sv_endnames = replicate n None, sv_clerks = Map.empty, sv_nextClientId = int n + 1000, sv_start = now\<rparr>"
    using assms unfolding ctrl_make_config_def Let_def go_bind_Inr_iff by blast
  have "svc_wf cfg0" "sv_n cfg0 = n"
    by (auto simp: cfg0 svc_wf_def MakeNetwork_def table_ok_def end_at_def)
  then have "svc_ok cfg1"
    by (rule start_all_ok [OF c(1), where peer = ShardCtrler_Raft]) (auto simp: ctrl_StartServer_def split: prod.splits)
  moreover have "ConnectAll cfg1 = Inr cfg2"
    using c(2) by (simp add: ctrl_ConnectAll_def ConnectAll_def ctrl_connectUnlocked_def ctrl_AllServers_def)
  ultimately have "svc_ok cfg2" using ConnectAll_inv by blast
  then show ?thesis unfolding c(3) by (rule svc_ok_frame) (simp_all add: Reliable_def)
qed

text \<open>
  Isolating the leader of the controller. With an odd number of servers, three or more, some of which
  may be down, \<open>make_partition\<close> splits them into two sides that differ by one, the first running
  leader, if there is one, on the smaller side, and \<open>partition\<close> connects exactly the servers of the
  same side. The tester of \<open>kvraft\<close> panics here when it meets a server that is down.
\<close>

theorem ctrl_partition_isolates_leader:
  fixes cfg :: "'c ctrl_config"
  assumes "svc_ok cfg" and "odd (sv_n cfg)" and "sv_n cfg \<ge> 3"
  shows "\<exists>p1 p2 cfg'. ctrl_make_partition cfg = Inr (p1, p2) \<and> ctrl_partition p1 p2 cfg = Inr cfg' \<and>
    set p1 \<union> set p2 = {..<sv_n cfg} \<and> set p1 \<inter> set p2 = {} \<and> card (set p1) = card (set p2) + 1 \<and>
    (\<forall>i sc. sv_servers cfg ! i = Some sc \<longrightarrow> i < sv_n cfg \<longrightarrow> snd (GetState (sh_rf sc)) \<longrightarrow>
       (\<exists>l \<le> i. l \<in> set p2 \<and> (\<exists>sl. sv_servers cfg ! l = Some sl \<and> snd (GetState (sh_rf sl))))) \<and>
    (\<forall>i < sv_n cfg. \<forall>j < sv_n cfg. \<exists>e. end_at (sv_endnames cfg') i j = Inr e \<and>
       (nw_enabled (sv_net cfg') e \<longleftrightarrow> (i \<in> set p1 \<longleftrightarrow> j \<in> set p1)))"
proof -
  let ?lead = "\<lambda>i. case sv_servers cfg ! i of Some sc \<Rightarrow> snd (GetState (sh_rf sc)) | None \<Rightarrow> False"
  let ?ls = "filter ?lead [0..<sv_n cfg]"
  have n: "length (sv_servers cfg) = sv_n cfg" using assms(1) by (simp add: svc_ok_def svc_wf_def)
  have part: "ctrl_partition p1 p2 cfg = partition_servers p1 p2 cfg" for p1 p2
    by (simp add: ctrl_partition_def partition_servers_def split_off_def [abs_def] ctrl_disconnectUnlocked_def
        ctrl_connectUnlocked_def [abs_def])
  obtain f l where l: "ctrl_Leader cfg = (f, l)" by (cases "ctrl_Leader cfg")
  have hd: "l < sv_n cfg \<and> (\<forall>i < sv_n cfg. ?lead i \<longrightarrow> l \<le> i \<and> ?lead l)"
  proof (cases ?ls)
    case Nil
    then have "\<forall>i < sv_n cfg. \<not> ?lead i" by (auto simp: filter_empty_conv)
    moreover have "l = 0" using Nil l n by (simp add: ctrl_Leader_def ctrl_leader_among_eq)
    ultimately show ?thesis using assms(3) by auto
  next
    case (Cons k ks)
    have "l = k" using Cons l n by (simp add: ctrl_Leader_def ctrl_leader_among_eq)
    moreover have "k \<in> set ?ls" using Cons by simp
    moreover have "k \<le> i" if "i \<in> set ?ls" for i
      using that sorted_wrt_filter [of "(\<le>)" "[0..<sv_n cfg]" ?lead] Cons by auto
    ultimately show ?thesis by auto
  qed
  have "ctrl_make_partition cfg = partition_around (sv_n cfg) l" by (simp add: ctrl_make_partition_def l)
  then obtain p1 p2 cfg' where p: "ctrl_make_partition cfg = Inr (p1, p2)" "ctrl_partition p1 p2 cfg = Inr cfg'"
    "set p1 \<union> set p2 = {..<sv_n cfg}" "set p1 \<inter> set p2 = {}" "l \<in> set p2" "card (set p1) = card (set p2) + 1"
    "\<forall>i < sv_n cfg. \<forall>j < sv_n cfg. \<exists>e. end_at (sv_endnames cfg') i j = Inr e \<and>
       (nw_enabled (sv_net cfg') e \<longleftrightarrow> (i \<in> set p1 \<longleftrightarrow> j \<in> set p1))"
    using partition_sides_links [OF assms, of l] hd unfolding part by auto
  have "\<exists>l \<le> i. l \<in> set p2 \<and> (\<exists>sl. sv_servers cfg ! l = Some sl \<and> snd (GetState (sh_rf sl)))"
    if "sv_servers cfg ! i = Some sc" "i < sv_n cfg" "snd (GetState (sh_rf sc))" for i sc
  proof -
    have "l \<le> i" "?lead l" using hd that by auto
    then show ?thesis using p(5) by (auto split: option.splits)
  qed
  then show ?thesis using p by blast
qed

lemma ctrl_sample: "\<exists>cfg :: int ctrl_config. ctrl_make_config 3 False 0 kv_env = Inr cfg \<and> sv_n cfg = 3"
  by (simp add: ctrl_make_config_def ctrl_StartServer_def ctrl_ConnectAll_def ctrl_connectUnlocked_def ctrl_AllServers_def kv_eval)

theorem ctrl_partition_isolates_leader_witness:
  "\<exists>(cfg :: int ctrl_config) p1 p2. ctrl_make_partition cfg = Inr (p1, p2) \<and> set p1 \<union> set p2 = {0, 1, 2}"
proof -
  obtain cfg :: "int ctrl_config" where c: "ctrl_make_config 3 False 0 kv_env = Inr cfg" "sv_n cfg = 3"
    using ctrl_sample by blast
  then obtain p1 p2 where "ctrl_make_partition cfg = Inr (p1, p2)" "set p1 \<union> set p2 = {..<3}"
    using ctrl_partition_isolates_leader [OF ctrl_make_config_ok [OF c(1)]] by auto
  moreover have "{..<3} = {0, 1, 2 :: nat}" by auto
  ultimately show ?thesis by auto
qed

end
