(* ===== verification/Shardkv_Harness.thy ===== *)
theory Shardkv_Harness
  imports Ctrler_Harness
begin

text \<open>
  \<open>shardkv/config.go\<close>: the tester of the sharded service. It runs a shard controller of three servers
  and three groups of \<open>n\<close> servers on one network, whose servers are known by names built from their
  group and position. Random names, addresses, clocks and random choices are arguments.
\<close>

section \<open>The tester\<close>

record 'c group =
  gr_gid :: int
  gr_servers :: "('c, string) ShardKV option list"
  gr_saved :: "'c raft_persister option list"
  gr_endnames :: end_table
  gr_mendnames :: end_table

record 'c skv_config =
  hk_net :: "(string, string) Network"
  hk_start :: int
  hk_nctrlers :: nat
  hk_ctrlerservers :: "'c ShardCtrler option list"
  hk_mck :: "string Clerk"
  hk_ngroups :: nat
  hk_n :: nat
  hk_groups :: "'c group list"
  hk_clerks :: "nat \<rightharpoonup> string list"
  hk_nextClientId :: int
  hk_maxraftstate :: int

definition skv_random_handles :: "nat list \<Rightarrow> 'e list \<Rightarrow> 'e list" where
  "skv_random_handles js kvh = random_handles js kvh"

definition skv_checkTimeout :: "int \<Rightarrow> bool \<Rightarrow> 'c skv_config \<Rightarrow> unit go" where
  "skv_checkTimeout now failed cfg =
     (if \<not> failed \<and> now - hk_start cfg > 120 * 1000000000
      then Inl (Fatal ''test took longer than 120 seconds'') else Inr ())"

definition ctrlername :: "nat \<Rightarrow> string" where
  "ctrlername i = ''ctrler'' @ Itoa (int i)"

definition servername :: "int \<Rightarrow> nat \<Rightarrow> string" where
  "servername gid i = ''server-'' @ Itoa gid @ ''-'' @ Itoa (int i)"

text \<open>The three calls with which an end is made, aimed at a server and enabled; also the body of the
  function that clerks and servers are given to make further ends.\<close>

definition open_end :: "string \<Rightarrow> string \<Rightarrow> (string, string) Network \<Rightarrow> (string, string) Network go" where
  "open_end name dest net =
     go_bind (MakeEnd name net) (\<lambda>net1. Inr (Enable name True (Connect name dest net1)))"

definition open_ends ::
  "(nat \<Rightarrow> string) \<Rightarrow> (nat \<Rightarrow> string) \<Rightarrow> nat \<Rightarrow> (string, string) Network \<Rightarrow> (string, string) Network go" where
  "open_ends names dest n = go_fold (\<lambda>j. open_end (names j) (dest j)) [0..<n]"

text \<open>A running server's persister is the one in its Raft peer.\<close>

definition gr_saved_now :: "'c group \<Rightarrow> nat \<Rightarrow> 'c raft_persister option" where
  "gr_saved_now gg i =
     (case gr_servers gg ! i of Some kv \<Rightarrow> Some (rf_persister (sk_rf kv)) | None \<Rightarrow> gr_saved gg ! i)"

definition check_log :: "int \<Rightarrow> 'c raft_persister option \<Rightarrow> unit go" where
  "check_log maxraftstate saved =
     (case saved of
        None \<Rightarrow> Inl NilDereference
      | Some ps \<Rightarrow>
          let raft = int (RaftStateSize ps); snap = length (ReadSnapshot ps) in
          if maxraftstate \<ge> 0 \<and> raft > 8 * maxraftstate then Inl (Fatal ''persister.RaftStateSize(), but maxraftstate'')
          else if maxraftstate < 0 \<and> snap > 0 then Inl (Fatal ''maxraftstate is -1, but snapshot is non-empty!'')
          else Inr ())"

definition checklogs :: "'c skv_config \<Rightarrow> unit go" where
  "checklogs cfg =
     go_fold (\<lambda>gi u. go_bind (go_nth (hk_groups cfg) (int gi)) (\<lambda>gg.
       go_fold (\<lambda>i _. check_log (hk_maxraftstate cfg) (gr_saved_now gg i)) [0..<hk_n cfg] u)) [0..<hk_ngroups cfg] ()"

section \<open>Clients\<close>

text \<open>The array of the names has length \<open>cfg.n\<close>, while the loop runs over the controller's servers.\<close>

definition client_end ::
  "(nat \<Rightarrow> string) \<Rightarrow> nat \<Rightarrow> string list \<times> (string, string) Network \<Rightarrow> (string list \<times> (string, string) Network) go" where
  "client_end names j s =
     (case s of (endnames, net) \<Rightarrow>
        go_bind (go_set endnames (int j) (names j)) (\<lambda>endnames'.
        go_bind (open_end (names j) (ctrlername j) net) (\<lambda>net'. Inr (endnames', net'))))"

definition skv_makeClient ::
  "(nat \<Rightarrow> string) \<Rightarrow> nat \<Rightarrow> 'c skv_config \<Rightarrow> ('c skv_config \<times> string ShardClerk) go" where
  "skv_makeClient names ck cfg =
     go_bind (go_fold (client_end names) [0..<hk_nctrlers cfg] (replicate (hk_n cfg) '''', hk_net cfg)) (\<lambda>(endnames, net).
       Inr (cfg\<lparr>hk_net := net, hk_clerks := (hk_clerks cfg)(ck \<mapsto> endnames), hk_nextClientId := hk_nextClientId cfg + 1\<rparr>,
            ShardClerk_Make (map names [0..<hk_nctrlers cfg])))"

definition skv_deleteClient :: "nat \<Rightarrow> 'c skv_config \<Rightarrow> 'c skv_config" where
  "skv_deleteClient ck cfg = cfg\<lparr>hk_clerks := (hk_clerks cfg)(ck := None)\<rparr>"

section \<open>Servers\<close>

definition skv_ShutdownServer :: "nat \<Rightarrow> nat \<Rightarrow> 'c skv_config \<Rightarrow> 'c skv_config go" where
  "skv_ShutdownServer gi i cfg =
     go_bind (go_nth (hk_groups cfg) (int gi)) (\<lambda>gg.
     go_bind (set_links (gr_endnames gg) False (map (\<lambda>j. (i, j)) [0..<length (gr_servers gg)]) (hk_net cfg)) (\<lambda>net1.
     go_bind (go_nth (gr_mendnames gg) (int i)) (\<lambda>mrow.
     go_bind (set_links (gr_mendnames gg) False
                (map (\<lambda>j. (i, j)) [0..<(case mrow of Some ms \<Rightarrow> length ms | None \<Rightarrow> 0)]) net1) (\<lambda>net2.
       if i \<ge> length (gr_saved gg) \<or> i \<ge> length (gr_servers gg) then Inl IndexOutOfRange
       else
         let gg' = gg\<lparr>gr_saved := (gr_saved gg)[i := map_option Copy (gr_saved_now gg i)],
                      gr_servers := (gr_servers gg)[i := None]\<rparr>
         in Inr (cfg\<lparr>hk_net := DeleteServer (servername (gr_gid gg) i) net2, hk_groups := (hk_groups cfg)[gi := gg']\<rparr>)))))"

definition ShutdownGroup :: "nat \<Rightarrow> 'c skv_config \<Rightarrow> 'c skv_config go" where
  "ShutdownGroup gi cfg = go_fold (skv_ShutdownServer gi) [0..<hk_n cfg] cfg"

text \<open>What a start draws from its environment.\<close>

record start_env =
  st_names :: "nat \<Rightarrow> string"
  st_mnames :: "nat \<Rightarrow> string"
  st_addr :: nat
  st_now :: int
  st_rnd :: int

definition skv_StartServer :: "start_env \<Rightarrow> nat \<Rightarrow> nat \<Rightarrow> 'c skv_config \<Rightarrow> 'c skv_config go" where
  "skv_StartServer env gi i cfg =
     go_bind (go_nth (hk_groups cfg) (int gi)) (\<lambda>gg.
     go_bind (go_set (gr_endnames gg) (int i) (Some (map (st_names env) [0..<hk_n cfg]))) (\<lambda>endnames.
     go_bind (open_ends (st_names env) (servername (gr_gid gg)) (hk_n cfg) (hk_net cfg)) (\<lambda>net1.
     go_bind (go_set (gr_mendnames gg) (int i) (Some (map (st_mnames env) [0..<hk_nctrlers cfg]))) (\<lambda>mendnames.
     go_bind (open_ends (st_mnames env) ctrlername (hk_nctrlers cfg) net1) (\<lambda>net2.
       if i \<ge> length (gr_saved gg) \<or> i \<ge> length (gr_servers gg) then Inl IndexOutOfRange
       else
         let ps = (case gr_saved_now gg i of Some p \<Rightarrow> Copy p | None \<Rightarrow> MakePersister);
             kv = ShardKV_StartServer (hk_n cfg) (int i) ps (hk_maxraftstate cfg) (gr_gid gg)
                    (map (st_mnames env) [0..<hk_nctrlers cfg]) (st_now env) (st_rnd env);
             gg' = gg\<lparr>gr_endnames := endnames, gr_mendnames := mendnames,
                      gr_saved := (gr_saved gg)[i := Some ps], gr_servers := (gr_servers gg)[i := Some kv]\<rparr>
         in Inr (cfg\<lparr>hk_net := AddServer (servername (gr_gid gg) i) (st_addr env) net2,
                     hk_groups := (hk_groups cfg)[gi := gg']\<rparr>))))))"

definition StartGroup :: "(nat \<Rightarrow> start_env) \<Rightarrow> nat \<Rightarrow> 'c skv_config \<Rightarrow> 'c skv_config go" where
  "StartGroup envs gi cfg = go_fold (\<lambda>i. skv_StartServer (envs i) gi i) [0..<hk_n cfg] cfg"

definition StartCtrlerserver :: "start_env \<Rightarrow> nat \<Rightarrow> 'c skv_config \<Rightarrow> 'c skv_config go" where
  "StartCtrlerserver env i cfg =
     go_bind (open_ends (st_names env) ctrlername (hk_nctrlers cfg) (hk_net cfg)) (\<lambda>net1.
       let sc = ShardCtrler_StartServer (hk_nctrlers cfg) (int i) MakePersister (st_now env) (st_rnd env)
       in go_bind (go_set (hk_ctrlerservers cfg) (int i) (Some sc)) (\<lambda>srvs.
            Inr (cfg\<lparr>hk_ctrlerservers := srvs, hk_net := AddServer (ctrlername i) (st_addr env) net1\<rparr>)))"

definition shardclerk :: "(nat \<Rightarrow> string) \<Rightarrow> 'c skv_config \<Rightarrow> ('c skv_config \<times> string Clerk) go" where
  "shardclerk names cfg =
     go_bind (open_ends names ctrlername (hk_nctrlers cfg) (hk_net cfg)) (\<lambda>net1.
       Inr (cfg\<lparr>hk_net := net1\<rparr>, MakeClerk (map names [0..<hk_nctrlers cfg])))"

definition skv_cleanup :: "int \<Rightarrow> bool \<Rightarrow> 'c skv_config \<Rightarrow> 'c skv_config go" where
  "skv_cleanup now failed cfg0 =
     go_bind (go_fold ShutdownGroup [0..<hk_ngroups cfg0] cfg0) (\<lambda>cfg1.
     if list_ex (\<lambda>sc. sc = None) (take (hk_nctrlers cfg1) (hk_ctrlerservers cfg1)) then Inl NilDereference
     else let cfg2 = cfg1\<lparr>hk_ctrlerservers := map (map_option ShardCtrler_Kill) (hk_ctrlerservers cfg1),
                          hk_net := Cleanup (hk_net cfg1)\<rparr>
          in go_bind (skv_checkTimeout now failed cfg2) (\<lambda>_. Inr cfg2))"

section \<open>Talking to the controller\<close>

definition group_servers :: "nat list \<Rightarrow> 'c skv_config \<Rightarrow> (int \<rightharpoonup> string list) go" where
  "group_servers gis cfg =
     go_fold (\<lambda>g m. go_bind (go_nth (hk_groups cfg) (int g)) (\<lambda>gg.
        Inr (m(gr_gid gg \<mapsto> map (servername (gr_gid gg)) [0..<hk_n cfg])))) gis Map.empty"

text \<open>\<open>t\<close> counts the clerk's calls, as in \<open>Join\<close>; a call that never returns is \<open>None\<close>.\<close>

definition joinm ::
  "(string \<Rightarrow> JoinArgs \<Rightarrow> nat \<Rightarrow> ChangeReply option) \<Rightarrow> nat list \<Rightarrow> nat \<Rightarrow> 'c skv_config \<Rightarrow> nat option go" where
  "joinm rpc gis t cfg = go_bind (group_servers gis cfg) (\<lambda>m. Inr (Join rpc (hk_mck cfg) m t))"

definition cfg_join ::
  "(string \<Rightarrow> JoinArgs \<Rightarrow> nat \<Rightarrow> ChangeReply option) \<Rightarrow> nat \<Rightarrow> nat \<Rightarrow> 'c skv_config \<Rightarrow> nat option go" where
  "cfg_join rpc gi t cfg = joinm rpc [gi] t cfg"

definition group_ids :: "nat list \<Rightarrow> 'c skv_config \<Rightarrow> int list go" where
  "group_ids gis cfg =
     go_fold (\<lambda>g gids. go_bind (go_nth (hk_groups cfg) (int g)) (\<lambda>gg. Inr (gids @ [gr_gid gg]))) gis []"

definition leavem ::
  "(string \<Rightarrow> LeaveArgs \<Rightarrow> nat \<Rightarrow> ChangeReply option) \<Rightarrow> nat list \<Rightarrow> nat \<Rightarrow> 'c skv_config \<Rightarrow> nat option go" where
  "leavem rpc gis t cfg = go_bind (group_ids gis cfg) (\<lambda>gids. Inr (Leave rpc (hk_mck cfg) gids t))"

definition cfg_leave ::
  "(string \<Rightarrow> LeaveArgs \<Rightarrow> nat \<Rightarrow> ChangeReply option) \<Rightarrow> nat \<Rightarrow> nat \<Rightarrow> 'c skv_config \<Rightarrow> nat option go" where
  "cfg_leave rpc gi t cfg = leavem rpc [gi] t cfg"

section \<open>Setting up\<close>

text \<open>The array \<open>mendnames\<close> has one entry for each controller server, though it is indexed by the servers of the group.\<close>

definition add_group :: "(nat \<Rightarrow> nat \<Rightarrow> start_env) \<Rightarrow> nat \<Rightarrow> 'c skv_config \<Rightarrow> 'c skv_config go" where
  "add_group envs gi cfg =
     (let n = hk_n cfg;
          gg = \<lparr>gr_gid = 100 + int gi, gr_servers = replicate n None, gr_saved = replicate n None,
                gr_endnames = replicate n None, gr_mendnames = replicate (hk_nctrlers cfg) None\<rparr>;
          cfg1 = cfg\<lparr>hk_groups := hk_groups cfg @ [gg]\<rparr>
      in go_fold (\<lambda>i. skv_StartServer (envs gi i) gi i) [0..<n] cfg1)"

definition skv_blank :: "int \<Rightarrow> int \<Rightarrow> 'c skv_config" where
  "skv_blank maxraftstate now =
     \<lparr>hk_net = MakeNetwork, hk_start = now, hk_nctrlers = 3, hk_ctrlerservers = replicate 3 None, hk_mck = MakeClerk [],
      hk_ngroups = 0, hk_n = 0, hk_groups = [], hk_clerks = Map.empty, hk_nextClientId = 0, hk_maxraftstate = maxraftstate\<rparr>"

definition skv_make_config ::
  "nat \<Rightarrow> bool \<Rightarrow> int \<Rightarrow> int \<Rightarrow> (nat \<Rightarrow> start_env) \<Rightarrow> (nat \<Rightarrow> string) \<Rightarrow> (nat \<Rightarrow> nat \<Rightarrow> start_env) \<Rightarrow> 'c skv_config go" where
  "skv_make_config n unreliable maxraftstate now cenvs mnames envs =
     go_bind (go_fold (\<lambda>i. StartCtrlerserver (cenvs i) i) [0..<3] (skv_blank maxraftstate now)) (\<lambda>cfg1.
     go_bind (shardclerk mnames cfg1) (\<lambda>(cfg2, mck).
       let cfg3 = cfg2\<lparr>hk_mck := mck, hk_ngroups := 3, hk_n := n\<rparr>
       in go_bind (go_fold (add_group envs) [0..<3] cfg3) (\<lambda>cfg4.
            Inr (cfg4\<lparr>hk_clerks := Map.empty, hk_nextClientId := int n + 1000,
                      hk_net := Reliable (\<not> unreliable) (hk_net cfg4)\<rparr>))))"

section \<open>Names\<close>

lemma Itoa_no_dash: "k \<ge> 0 \<Longrightarrow> CHR ''-'' \<notin> set (Itoa k)"
  using itoa_nat_digits [of "CHR ''-''" "nat k"] by (auto simp: Itoa_def)

lemma servername_inject:
  assumes "gid \<ge> 0" and "gid' \<ge> 0"
  shows "servername gid i = servername gid' i' \<longleftrightarrow> gid = gid' \<and> i = i'"
proof
  assume "servername gid i = servername gid' i'"
  then have eq: "Itoa gid @ CHR ''-'' # Itoa (int i) = Itoa gid' @ CHR ''-'' # Itoa (int i')" by (simp add: servername_def)
  have "takeWhile (\<lambda>c. c \<noteq> CHR ''-'') (xs @ CHR ''-'' # ys) = xs" if "CHR ''-'' \<notin> set xs" for xs ys
    using that by (induction xs) auto
  then have "Itoa gid = Itoa gid'" using eq Itoa_no_dash assms by metis
  then show "gid = gid' \<and> i = i'" using eq by simp
qed simp

lemma ctrlername_not_servername: "ctrlername i \<noteq> servername gid j"
  by (simp add: ctrlername_def servername_def)

section \<open>Restarting a server of a group\<close>

lemma skv_shutdown_restart:
  assumes "skv_ShutdownServer gi i cfg = Inr cfg1" and "skv_StartServer env gi i cfg1 = Inr cfg2"
    and "hk_groups cfg ! gi = gg" and "gr_servers gg ! i = Some kv" and "synced (sk_rf kv)"
  shows "\<exists>kv'. gr_servers (hk_groups cfg2 ! gi) ! i = Some kv' \<and> hard_state (sk_rf kv') = hard_state (sk_rf kv) \<and> \<not> killed (sk_rf kv')"
proof -
  have c1: "gi < length (hk_groups cfg)" "i < length (gr_saved gg)" "i < length (gr_servers gg)"
    "hk_groups cfg1 = (hk_groups cfg)[gi := gg\<lparr>gr_saved := (gr_saved gg)[i := map_option Copy (gr_saved_now gg i)],
                      gr_servers := (gr_servers gg)[i := None]\<rparr>]"
    using assms(1,3) by (auto simp: skv_ShutdownServer_def Let_def go_Inr_iffs split: if_splits)
  let ?gg1 = "gg\<lparr>gr_saved := (gr_saved gg)[i := map_option Copy (gr_saved_now gg i)], gr_servers := (gr_servers gg)[i := None]\<rparr>"
  have saved: "gr_saved_now ?gg1 i = Some (rf_persister (sk_rf kv))"
    using c1(2,3) assms(4) by (simp add: gr_saved_now_def Copy_def clone_bytes_def)
  have "gr_servers (hk_groups cfg2 ! gi) ! i = Some (ShardKV_StartServer (hk_n cfg1) (int i) (Copy (rf_persister (sk_rf kv)))
      (hk_maxraftstate cfg1) (gr_gid gg) (map (st_mnames env) [0..<hk_nctrlers cfg1]) (st_now env) (st_rnd env))"
    using assms(2) saved c1 by (auto simp: skv_StartServer_def Let_def go_Inr_iffs split: if_splits)
  moreover have "hard_state (sk_rf (ShardKV_StartServer n self (Copy (rf_persister (sk_rf kv))) limit gid ctrlers now rnd)) = hard_state (sk_rf kv)"
    for n self limit gid and ctrlers :: "string list" and now rnd
    using skv.restart_recovers [OF assms(5)] skv.stop_durable by metis
  ultimately show ?thesis using skv.start_alive by metis
qed

section \<open>Properties\<close>

lemma StartCtrlerserver_frame:
  "StartCtrlerserver env i cfg = Inr cfg' \<Longrightarrow> hk_nctrlers cfg' = hk_nctrlers cfg \<and> hk_groups cfg' = hk_groups cfg"
  by (auto simp: StartCtrlerserver_def Let_def go_Inr_iffs)

lemma skv_StartServer_frame:
  assumes "skv_StartServer env gi i cfg = Inr cfg'"
  shows "i < length (gr_mendnames (hk_groups cfg ! gi)) \<and> gi < length (hk_groups cfg) \<and>
    hk_n cfg' = hk_n cfg \<and> hk_nctrlers cfg' = hk_nctrlers cfg \<and> length (hk_groups cfg') = length (hk_groups cfg) \<and>
    length (gr_mendnames (hk_groups cfg' ! gi)) = length (gr_mendnames (hk_groups cfg ! gi))"
  using assms by (auto simp: skv_StartServer_def Let_def go_Inr_iffs split: if_splits)

lemma start_group_fails:
  assumes "go_fold (\<lambda>i. skv_StartServer (envs i) gi i) [0..<n] cfg = Inr cfg'"
    and "length (gr_mendnames (hk_groups cfg ! gi)) = m"
  shows "n \<le> m"
proof (rule ccontr)
  assume "\<not> n \<le> m"
  then have "[0..<n] = [0..<m] @ m # [Suc m..<n]" by (metis le_add_diff_inverse nat_le_linear not_le upt_add_eq_append upt_conv_Cons zero_le)
  then obtain c1 c2 where c: "go_fold (\<lambda>i. skv_StartServer (envs i) gi i) [0..<m] cfg = Inr c1" "skv_StartServer (envs m) gi m c1 = Inr c2"
    using assms(1) by (auto simp: go_fold_append go_bind_Inr_iff)
  have "length (gr_mendnames (hk_groups c1 ! gi)) = m"
    by (rule go_fold_invariant [OF c(1), where I = "\<lambda>c. length (gr_mendnames (hk_groups c ! gi)) = m"])
      (use assms(2) in \<open>auto dest: skv_StartServer_frame\<close>)
  then show False using skv_StartServer_frame [OF c(2)] by simp
qed

lemma add_group_frame:
  assumes "add_group envs gi cfg = Inr cfg'"
  shows "hk_n cfg' = hk_n cfg \<and> hk_nctrlers cfg' = hk_nctrlers cfg" and "gi = length (hk_groups cfg) \<Longrightarrow> hk_n cfg \<le> hk_nctrlers cfg"
proof -
  let ?gg = "\<lparr>gr_gid = 100 + int gi, gr_servers = replicate (hk_n cfg) None, gr_saved = replicate (hk_n cfg) None,
                gr_endnames = replicate (hk_n cfg) None, gr_mendnames = replicate (hk_nctrlers cfg) None\<rparr>"
  have run: "go_fold (\<lambda>i. skv_StartServer (envs gi i) gi i) [0..<hk_n cfg] (cfg\<lparr>hk_groups := hk_groups cfg @ [?gg]\<rparr>) = Inr cfg'"
    using assms by (simp add: add_group_def Let_def)
  show "hk_n cfg' = hk_n cfg \<and> hk_nctrlers cfg' = hk_nctrlers cfg"
    by (rule go_fold_invariant [OF run, where I = "\<lambda>c. hk_n c = hk_n cfg \<and> hk_nctrlers c = hk_nctrlers cfg"])
      (auto dest: skv_StartServer_frame)
  show "hk_n cfg \<le> hk_nctrlers cfg" if "gi = length (hk_groups cfg)"
    by (rule start_group_fails [OF run]) (simp add: that nth_append)
qed

lemma skv_make_config_sizes:
  assumes "skv_make_config n unreliable maxraftstate now cenvs mnames envs = Inr cfg"
  shows "n \<le> 3 \<and> hk_n cfg = n \<and> hk_nctrlers cfg = 3"
proof -
  obtain cfg1 cfg2 mck cfg4 where c: "go_fold (\<lambda>i. StartCtrlerserver (cenvs i) i) [0..<3] (skv_blank maxraftstate now) = Inr cfg1"
    "shardclerk mnames cfg1 = Inr (cfg2, mck)"
    "go_fold (add_group envs) [0..<3] (cfg2\<lparr>hk_mck := mck, hk_ngroups := 3, hk_n := n\<rparr>) = Inr cfg4"
    "cfg = cfg4\<lparr>hk_clerks := Map.empty, hk_nextClientId := int n + 1000, hk_net := Reliable (\<not> unreliable) (hk_net cfg4)\<rparr>"
    using assms by (auto simp: skv_make_config_def Let_def go_bind_Inr_iff)
  have "hk_nctrlers cfg1 = 3 \<and> hk_groups cfg1 = []"
    by (rule go_fold_invariant [OF c(1), where I = "\<lambda>c. hk_nctrlers c = 3 \<and> hk_groups c = []"])
      (auto simp: skv_blank_def dest: StartCtrlerserver_frame)
  then have c2: "hk_nctrlers cfg2 = 3" "hk_groups cfg2 = []" using c(2) by (auto simp: shardclerk_def go_bind_Inr_iff)
  have "hk_n cfg4 = n \<and> hk_nctrlers cfg4 = 3"
    by (rule go_fold_invariant [OF c(3), where I = "\<lambda>c. hk_n c = n \<and> hk_nctrlers c = 3"])
      (use c2 in \<open>auto dest: add_group_frame(1)\<close>)
  moreover obtain c5 where "add_group envs 0 (cfg2\<lparr>hk_mck := mck, hk_ngroups := 3, hk_n := n\<rparr>) = Inr c5"
    using c(3) by (auto simp: upt_conv_Cons go_bind_Inr_iff)
  then have "n \<le> 3" using add_group_frame(2) [of envs 0] c2 by fastforce
  ultimately show ?thesis by (simp add: c(4))
qed

lemma client_ends_fit:
  assumes "go_fold (client_end names) [0..<k] (es, net) = Inr (es', net')"
  shows "k \<le> length es"
proof -
  have "(k = 0 \<or> k \<le> length es) \<and> length es' = length es" if "go_fold (client_end names) [0..<k] (es, net) = Inr (es', net')" for k es' net'
    using that
  proof (induction k arbitrary: es' net')
    case (Suc k)
    obtain es1 net1 where s: "go_fold (client_end names) [0..<k] (es, net) = Inr (es1, net1)" "client_end names k (es1, net1) = Inr (es', net')"
      using Suc.prems by (auto simp: go_fold_append go_bind_Inr_iff)
    show ?case using Suc.IH [OF s(1)] s(2) by (auto simp: client_end_def go_Inr_iffs)
  qed simp
  then show ?thesis using assms by fastforce
qed

text \<open>
  The tester only works with three servers to a group. With more, setting it up panics, because the table
  of ends to the controller is as long as the controller's group; with fewer, making a client
  panics, because the array of its end names is as long as a server group.
\<close>

theorem skv_tester_needs_three:
  "(n > 3 \<longrightarrow> (\<forall>cfg. skv_make_config n unreliable maxraftstate now cenvs mnames envs \<noteq> Inr cfg)) \<and>
   (\<forall>cfg. skv_make_config n unreliable maxraftstate now cenvs mnames envs = Inr cfg \<longrightarrow> n < 3 \<longrightarrow>
      (\<forall>names ck r. skv_makeClient names ck cfg \<noteq> Inr r))"
proof (intro conjI impI allI notI)
  fix cfg assume "n > 3" "skv_make_config n unreliable maxraftstate now cenvs mnames envs = Inr cfg"
  then show False using skv_make_config_sizes by fastforce
next
  fix cfg names ck r
  assume c: "skv_make_config n unreliable maxraftstate now cenvs mnames envs = Inr cfg" "n < 3"
    and r: "skv_makeClient names ck cfg = Inr r"
  obtain es net where "go_fold (client_end names) [0..<hk_nctrlers cfg] (replicate (hk_n cfg) '''', hk_net cfg) = Inr (es, net)"
    using r by (auto simp: skv_makeClient_def go_bind_Inr_iff)
  then have "hk_nctrlers cfg \<le> hk_n cfg" using client_ends_fit by fastforce
  then show False using skv_make_config_sizes [OF c(1)] c(2) by simp
qed

definition sample_start :: start_env where
  "sample_start = \<lparr>st_names = (\<lambda>j. replicate j CHR ''a''), st_mnames = (\<lambda>j. replicate j CHR ''b''), st_addr = 0, st_now = 0, st_rnd = 0\<rparr>"

theorem skv_tester_needs_three_witness:
  "\<forall>cfg :: int skv_config. skv_make_config 4 False (- 1) 0 (\<lambda>_. sample_start) (\<lambda>_. '''') (\<lambda>_ _. sample_start) \<noteq> Inr cfg"
  using skv_tester_needs_three [of 4] by simp

end
