(* ===== verification/Main_Drivers.thy ===== *)
theory Main_Drivers
  imports Go_Strings
begin

text \<open>
  The command-line programs in \<open>main/\<close> that start or call services whose packages are not in
  the repository (\<open>diskvd.go\<close>, \<open>lockc.go\<close>, \<open>lockd.go\<close>, \<open>pbc.go\<close>, \<open>pbd.go\<close>, \<open>viewd.go\<close>). A run is
  the calls a program makes into those packages, in order, what it prints, and how it ends; the
  answers of the calls are arguments.
\<close>

section \<open>Runs\<close>

datatype ending = Exits int | Returns | Sleeps_forever | Kills_itself

datatype service_call =
    Diskv_StartServer int "string list" "string list" int string bool
  | Diskv_Setunreliable bool
  | Lock_MakeClerk string string
  | Lock_Lock string
  | Lock_Unlock string
  | Lock_StartServer string string bool
  | Pb_MakeClerk string string
  | Pb_Get string
  | Pb_Put string string
  | Pb_StartServer string string
  | View_StartServer string

record driver_run =
  dr_calls :: "service_call list"
  dr_out :: string
  dr_end :: ending

definition newline :: string where
  "newline = [CHR 0x0A]"

section \<open>diskvd.go\<close>

record diskvd_opts =
  dk_gid :: int
  dk_masters :: "string list"
  dk_replicas :: "string list"
  dk_me :: int
  dk_unreliable :: bool
  dk_dir :: string
  dk_restart :: bool

definition diskvd_usage :: "service_call list \<Rightarrow> driver_run" where
  "diskvd_usage calls =
     \<lparr>dr_calls = calls, dr_out = ''Usage: diskvd -g gid -m master... -s server... -i my-index -d dir'' @ newline,
      dr_end = Exits 1\<rparr>"

definition diskvd_defaults :: diskvd_opts where
  "diskvd_defaults =
     \<lparr>dk_gid = -1, dk_masters = [], dk_replicas = [], dk_me = -1, dk_unreliable = False, dk_dir = '''',
      dk_restart = False\<rparr>"

text \<open>One turn of the loop; no result when it calls \<open>usage\<close>, which exits.\<close>

definition diskvd_arg :: "string \<Rightarrow> string \<Rightarrow> diskvd_opts \<Rightarrow> diskvd_opts option" where
  "diskvd_arg a0 a1 opts =
     (if a0 = ''-g'' then Some (opts\<lparr>dk_gid := fst (ParseInt a1)\<rparr>)
      else if a0 = ''-m'' then Some (opts\<lparr>dk_masters := dk_masters opts @ [a1]\<rparr>)
      else if a0 = ''-s'' then Some (opts\<lparr>dk_replicas := dk_replicas opts @ [a1]\<rparr>)
      else if a0 = ''-i'' then Some (opts\<lparr>dk_me := fst (Atoi a1)\<rparr>)
      else if a0 = ''-u'' then Some (opts\<lparr>dk_unreliable := fst (ParseBool a1)\<rparr>)
      else if a0 = ''-d'' then Some (opts\<lparr>dk_dir := a1\<rparr>)
      else if a0 = ''-r'' then Some (opts\<lparr>dk_restart := fst (ParseBool a1)\<rparr>)
      else None)"

text \<open>The loop over the arguments after the program's name, in steps of two; a last argument
  without a partner is not read.\<close>

fun diskvd_args :: "string list \<Rightarrow> diskvd_opts \<Rightarrow> diskvd_opts option" where
  "diskvd_args (a0 # a1 # rest) opts =
     (case diskvd_arg a0 a1 opts of None \<Rightarrow> None | Some opts' \<Rightarrow> diskvd_args rest opts')"
| "diskvd_args [a0] opts = Some opts"
| "diskvd_args [] opts = Some opts"

definition diskvd_incomplete :: "diskvd_opts \<Rightarrow> bool" where
  "diskvd_incomplete opts \<longleftrightarrow>
     dk_gid opts < 0 \<or> dk_me opts < 0 \<or> length (dk_masters opts) < 1 \<or>
     dk_me opts \<ge> int (length (dk_replicas opts)) \<or> dk_dir opts = ''''"

definition diskvd_main :: "string list \<Rightarrow> driver_run" where
  "diskvd_main Args =
     (case diskvd_args (drop 1 Args) diskvd_defaults of
        None \<Rightarrow> diskvd_usage []
      | Some opts \<Rightarrow>
          if diskvd_incomplete opts then diskvd_usage []
          else \<lparr>dr_calls =
                  [Diskv_StartServer (dk_gid opts) (dk_masters opts) (dk_replicas opts) (dk_me opts)
                     (dk_dir opts) (dk_restart opts),
                   Diskv_Setunreliable (dk_unreliable opts)],
                dr_out = '''', dr_end = Kills_itself\<rparr>)"

section \<open>lockc.go and lockd.go\<close>

definition lockc_usage :: "service_call list \<Rightarrow> driver_run" where
  "lockc_usage calls =
     \<lparr>dr_calls = calls, dr_out = ''Usage: lockc -l|-u primaryport backupport lockname'' @ newline,
      dr_end = Exits 1\<rparr>"

text \<open>\<open>%v\<close> of a bool.\<close>

definition show_bool :: "bool \<Rightarrow> string" where
  "show_bool b = (if b then ''true'' else ''false'')"

text \<open>\<open>answer\<close> is what the service replies to a call.\<close>

definition lockc_main :: "(service_call \<Rightarrow> bool) \<Rightarrow> string list \<Rightarrow> driver_run" where
  "lockc_main answer Args =
     (if length Args = 5
      then let ck = Lock_MakeClerk (Args ! 2) (Args ! 3);
               reply = (\<lambda>c. \<lparr>dr_calls = [ck, c], dr_out = ''reply: '' @ show_bool (answer c) @ newline,
                             dr_end = Returns\<rparr>)
           in if Args ! 1 = ''-l'' then reply (Lock_Lock (Args ! 4))
              else if Args ! 1 = ''-u'' then reply (Lock_Unlock (Args ! 4))
              else lockc_usage [ck]
      else lockc_usage [])"

definition lockd_main :: "string list \<Rightarrow> driver_run" where
  "lockd_main Args =
     (if length Args = 4 \<and> Args ! 1 = ''-p''
      then \<lparr>dr_calls = [Lock_StartServer (Args ! 2) (Args ! 3) True], dr_out = '''', dr_end = Sleeps_forever\<rparr>
      else if length Args = 4 \<and> Args ! 1 = ''-b''
      then \<lparr>dr_calls = [Lock_StartServer (Args ! 2) (Args ! 3) False], dr_out = '''', dr_end = Sleeps_forever\<rparr>
      else \<lparr>dr_calls = [], dr_out = ''Usage: lockd -p|-b primaryport backupport'' @ newline, dr_end = Exits 1\<rparr>)"

section \<open>pbc.go, pbd.go and viewd.go\<close>

definition pbc_usage :: driver_run where
  "pbc_usage =
     \<lparr>dr_calls = [], dr_out = ''Usage: pbc viewport key'' @ newline @ ''       pbc viewport key value'' @ newline,
      dr_end = Exits 1\<rparr>"

definition pbc_main :: "(string \<Rightarrow> string) \<Rightarrow> string list \<Rightarrow> driver_run" where
  "pbc_main stored Args =
     (if length Args = 3
      then \<lparr>dr_calls = [Pb_MakeClerk (Args ! 1) '''', Pb_Get (Args ! 2)],
            dr_out = stored (Args ! 2) @ newline, dr_end = Returns\<rparr>
      else if length Args = 4
      then \<lparr>dr_calls = [Pb_MakeClerk (Args ! 1) '''', Pb_Put (Args ! 2) (Args ! 3)], dr_out = '''',
            dr_end = Returns\<rparr>
      else pbc_usage)"

definition pbd_main :: "string list \<Rightarrow> driver_run" where
  "pbd_main Args =
     (if length Args \<noteq> 3
      then \<lparr>dr_calls = [], dr_out = ''Usage: pbd viewport myport'' @ newline, dr_end = Exits 1\<rparr>
      else \<lparr>dr_calls = [Pb_StartServer (Args ! 1) (Args ! 2)], dr_out = '''', dr_end = Sleeps_forever\<rparr>)"

definition viewd_main :: "string list \<Rightarrow> driver_run" where
  "viewd_main Args =
     (if length Args \<noteq> 2
      then \<lparr>dr_calls = [], dr_out = ''Usage: viewd port'' @ newline, dr_end = Exits 1\<rparr>
      else \<lparr>dr_calls = [View_StartServer (Args ! 1)], dr_out = '''', dr_end = Sleeps_forever\<rparr>)"

section \<open>Reading a command line back\<close>

text \<open>The command line that asks for given options.\<close>

fun flags :: "(string \<times> string) list \<Rightarrow> string list" where
  "flags [] = []"
| "flags ((f, v) # rest) = f # v # flags rest"

fun diskvd_apply :: "(string \<times> string) list \<Rightarrow> diskvd_opts \<Rightarrow> diskvd_opts option" where
  "diskvd_apply [] opts = Some opts"
| "diskvd_apply ((f, v) # rest) opts =
     (case diskvd_arg f v opts of None \<Rightarrow> None | Some opts' \<Rightarrow> diskvd_apply rest opts')"

definition diskvd_flags :: "diskvd_opts \<Rightarrow> (string \<times> string) list" where
  "diskvd_flags opts =
     (''-g'', Itoa (dk_gid opts)) # map (\<lambda>m. (''-m'', m)) (dk_masters opts) @
     map (\<lambda>r. (''-s'', r)) (dk_replicas opts) @
     [(''-i'', Itoa (dk_me opts)), (''-u'', show_bool (dk_unreliable opts)), (''-d'', dk_dir opts),
      (''-r'', show_bool (dk_restart opts))]"

lemma diskvd_args_flags: "diskvd_args (flags fs) opts = diskvd_apply fs opts"
  by (induction fs opts rule: diskvd_apply.induct) (auto split: option.splits)

lemma diskvd_apply_append:
  "diskvd_apply (xs @ ys) opts =
     (case diskvd_apply xs opts of None \<Rightarrow> None | Some opts' \<Rightarrow> diskvd_apply ys opts')"
  by (induction xs opts rule: diskvd_apply.induct) (auto split: option.splits)

lemma diskvd_apply_masters:
  "diskvd_apply (map (\<lambda>m. (''-m'', m)) ms) opts = Some (opts\<lparr>dk_masters := dk_masters opts @ ms\<rparr>)"
  by (induction ms arbitrary: opts) (simp_all add: diskvd_arg_def)

lemma diskvd_apply_replicas:
  "diskvd_apply (map (\<lambda>r. (''-s'', r)) rs) opts = Some (opts\<lparr>dk_replicas := dk_replicas opts @ rs\<rparr>)"
  by (induction rs arbitrary: opts) (simp_all add: diskvd_arg_def)

lemma ParseBool_show: "ParseBool (show_bool b) = (b, True)"
  by (simp add: ParseBool_def show_bool_def)

lemma diskvd_apply_opts:
  assumes "- (2 ^ 63) \<le> dk_gid opts" and "dk_gid opts < 2 ^ 63"
    and "- (2 ^ 63) \<le> dk_me opts" and "dk_me opts < 2 ^ 63"
  shows "diskvd_apply (diskvd_flags opts) diskvd_defaults = Some opts"
  unfolding diskvd_flags_def
  by (simp add: diskvd_apply_append diskvd_apply_masters diskvd_apply_replicas diskvd_arg_def Atoi_def
      ParseInt_Itoa [OF assms(1,2)] ParseInt_Itoa [OF assms(3,4)] ParseBool_show diskvd_defaults_def)

lemma ParseInt_syntax: "snd (ParseInt g) = Some ErrSyntax \<Longrightarrow> fst (ParseInt g) = 0"
  by (cases "parse_sign g"; cases "ParseUint (snd (parse_sign g))"; cases "projl (ParseUint (snd (parse_sign g)))")
    (simp_all add: ParseInt_def split: if_split_asm)

text \<open>
  Round trip of the command line. A \<open>diskvd\<close> that is given the flags for a complete set of
  options starts one server, with exactly those options, and then applies the reliability flag.
\<close>

theorem diskvd_flags_roundtrip:
  assumes "dk_gid opts < 2 ^ 63" and "dk_me opts < 2 ^ 63" and "\<not> diskvd_incomplete opts"
  shows "diskvd_main (prog # flags (diskvd_flags opts)) =
    \<lparr>dr_calls = [Diskv_StartServer (dk_gid opts) (dk_masters opts) (dk_replicas opts) (dk_me opts)
                   (dk_dir opts) (dk_restart opts), Diskv_Setunreliable (dk_unreliable opts)],
     dr_out = '''', dr_end = Kills_itself\<rparr>"
  using diskvd_apply_opts [of opts] assms
  by (simp add: diskvd_main_def diskvd_args_flags diskvd_incomplete_def)

theorem diskvd_flags_roundtrip_witness:
  "dr_calls (diskvd_main [''diskvd'', ''-g'', ''3'', ''-m'', ''m1'', ''-s'', ''s1'', ''-s'', ''s2'',
      ''-i'', ''1'', ''-u'', ''true'', ''-d'', ''/d'', ''-r'', ''false'']) =
   [Diskv_StartServer 3 [''m1''] [''s1'', ''s2''] 1 ''/d'' False, Diskv_Setunreliable True]"
proof -
  let ?opts = "\<lparr>dk_gid = 3, dk_masters = [''m1''], dk_replicas = [''s1'', ''s2''], dk_me = 1,
    dk_unreliable = True, dk_dir = ''/d'', dk_restart = False\<rparr>"
  have "flags (diskvd_flags ?opts) = [''-g'', ''3'', ''-m'', ''m1'', ''-s'', ''s1'', ''-s'', ''s2'',
      ''-i'', ''1'', ''-u'', ''true'', ''-d'', ''/d'', ''-r'', ''false'']"
    by code_simp
  then show ?thesis
    using diskvd_flags_roundtrip [of ?opts "''diskvd''"] by (simp add: diskvd_incomplete_def)
qed

text \<open>
  The errors of \<open>strconv\<close> are dropped, so the check for a missing group id does not notice a
  malformed one: it is read as group 0.
\<close>

theorem diskvd_accepts_malformed_gid:
  assumes "snd (ParseInt g) = Some ErrSyntax" and "dir \<noteq> ''''"
  shows "dr_calls (diskvd_main [prog, ''-g'', g, ''-m'', mst, ''-s'', srv, ''-i'', ''0'', ''-d'', dir]) =
    [Diskv_StartServer 0 [mst] [srv] 0 dir False, Diskv_Setunreliable False]"
proof -
  have "fst (ParseInt g) = 0"
    using assms(1) by (rule ParseInt_syntax)
  moreover have "Itoa 0 = ''0''" by code_simp
  then have "ParseInt ''0'' = (0, None)" using ParseInt_Itoa [of 0] by simp
  ultimately show ?thesis
    using assms(2) by (simp add: diskvd_main_def diskvd_arg_def diskvd_defaults_def Atoi_def diskvd_incomplete_def)
qed

text \<open>A server is started only by a run that then stays, and a run that prints a usage message
  ends with status 1.\<close>

lemma lockd_main_runs:
  "dr_end (lockd_main Args) = (if dr_calls (lockd_main Args) = [] then Exits 1 else Sleeps_forever)"
  "dr_end (pbd_main Args) = (if dr_calls (pbd_main Args) = [] then Exits 1 else Sleeps_forever)"
  "dr_end (viewd_main Args) = (if dr_calls (viewd_main Args) = [] then Exits 1 else Sleeps_forever)"
  by (simp_all add: lockd_main_def pbd_main_def viewd_main_def)

end
