(* ===== verification/Spec2Isabelle.thy ===== *)
theory Spec2Isabelle
  imports Raft_Logs Raft_Loss Raft_Rpc Raft_Harness_Inv Kv_Model Porc_Visual Labgob Mr_Worker Mr_Timing Shardkv_Harness
    Main_Drivers
begin

text \<open>
  Verification of the distributed systems labs under \<open>src/src\<close>.

  \<^bold>\<open>The program.\<close> The repository holds a Raft implementation (\<open>raft/\<close>), the simulated network it
  runs on (\<open>labrpc/\<close>), MapReduce (\<open>mr/\<close>, \<open>mrapps/\<close>, \<open>main/mr*.go\<close>), three services meant to sit on
  Raft (\<open>kvraft/\<close>, \<open>shardctrler/\<close>, \<open>shardkv/\<close>, of which the clerks are written and the handlers are
  not), the linearizability checker that judges them (\<open>porcupine/\<close>, \<open>models/kv.go\<close>), a wrapper of gob
  that all messages pass (\<open>labgob/\<close>), and the testers that run groups of servers on the network,
  cut its links and crash and restart the servers (\<open>config.go\<close> in four packages).

  \<^bold>\<open>Conventions.\<close> A struct is a record with the source's field names (prefixed where two structs
  share one), a method a function on the record. Code under a mutex is one function; a method
  that unlocks in the middle is one function per critical section, and goroutines are the
  interleavings of such sections in an inductive step relation. A panic, \<open>log.Fatal\<close> or \<open>os.Exit\<close>
  is the \<open>Inl\<close> branch of \<open>Lab_Prelude\<close>'s type \<open>go\<close>. Slices are lists read and cut with explicit
  bounds checks. A loop that may not end is a \<open>partial_function\<close> whose value \<open>None\<close> means that it
  does not return, so every claim that the code returns is a claim of a \<open>Some\<close>; no fuel is used
  anywhere. Time, random draws, the scheduler, the order of Go maps, sorting, the file system and
  gob are arguments, with what is assumed of them stated in each theorem. Go's \<open>int\<close> is \<open>int\<close>;
  where the width matters (bit sets, hashes, counters) the value is a \<open>word\<close>.

  \<^bold>\<open>Theories.\<close>
  \<^item> \<open>Lab_Prelude\<close>: panics, slices, majorities, reachability, and the locale
    \<open>inductive_invariant\<close> that lifts a step-wise invariant to all runs. \<open>Go_Strings\<close>: the string
    functions of the standard library, with the characterisation of the fields of a text.
  \<^item> \<open>Persister\<close> (\<open>raft/persister.go\<close>): the store that survives a crash, and the locale
    \<open>stable_storage\<close> for what Raft relies on.
  \<^item> \<open>Raft_State\<close>, \<open>Raft_Election\<close>, \<open>Raft_Replication\<close>, \<open>Raft_Snapshot\<close>, \<open>Raft_Apply\<close>
    (\<open>raft/raft.go\<close>, \<open>raft/util.go\<close>): the peer record, and one group of definitions for
    persistence and recovery, for voting and \<open>startElection\<close>, for \<open>AppendEntries\<close>, \<open>sendAERpcs\<close> and
    \<open>findMaxN\<close>, for snapshots, and for delivery to the service. Their lemmas say exactly when a
    vote is granted, when an append succeeds or panics, what the log is afterwards, what is
    durable, and what is delivered.
  \<^item> \<open>Raft_Peer\<close>: all critical sections of one peer as a step relation, with the well-formedness
    of the log and the arrays, the monotonicity of term and vote, and gapless delivery as
    invariants.
  \<^item> \<open>Vote_Spec\<close>, \<open>Raft_Cluster\<close>, \<open>Raft_Safety\<close>: an abstract majority vote, a cluster of any size
    with a network that loses, repeats and reorders and with crashing peers, a simulation of the
    former by the latter, and election safety for runs in which no election ends after its term
    has moved on, together with a run that violates it otherwise. \<open>Raft_Logs\<close>: log matching for
    the runs that also install no snapshot in front of entries of another history, and that a
    leader's log holds every entry of its term. \<open>Raft_Loss\<close>:
    schedules of the cluster that can be computed, each proved to be a run without restarts, and
    one of them that loses a committed entry when a delayed append is delivered.
  \<^item> \<open>Porc_Bitset\<close>, \<open>Porc_Links\<close>, \<open>Porc_Search\<close>, \<open>Porc_Correct\<close>, \<open>Porc_Check\<close> (\<open>porcupine/\<close>): bit sets
    as a refinement of finite sets (locale \<open>set_table\<close>), the doubly linked list of entries in an
    explicit store with \<open>lift\<close> and \<open>unlift\<close>, the backtracking search with its cache, the proof that
    it returns and decides linearizability, and the partitioned, parallel front end.
  \<^item> \<open>Kv_Model\<close> (\<open>models/kv.go\<close>): the sequential model of the key/value service, locality of
    linearizability for its partition by key, and the whole check end to end.
  \<^item> \<open>Labrpc\<close> (\<open>labrpc/labrpc.go\<close>): servers and dispatch by name, the network's administration, and
    requests in flight, each with the goroutines that its \<open>processReq\<close> starts, as a step relation;
    requests run at most once, positive replies are true and no handler goroutine is left without
    one that drains it, and calls on a reliable network can complete.
    \<open>Raft_Rpc\<close>: a peer as a service of that network, whose remote calls run the handlers of
    \<open>raft/raft.go\<close>, and the wait for a reply with its time limit.
  \<^item> \<open>Mr_Apps\<close>, \<open>Mr_Timing\<close>, \<open>Mr_Sequential\<close>, \<open>Mr_Coordinator\<close>, \<open>Mr_Worker\<close> (\<open>mrapps/\<close>, \<open>main/mrsequential.go\<close>,
    \<open>mr/\<close>, \<open>main/mrcoordinator.go\<close>, \<open>main/mrworker.go\<close>): the applications with the locale
    \<open>order_free\<close> for a Reduce function that ignores the order of its values; word count and index
    of the sequential program; the task assignment of the coordinator and the fact that it makes
    no progress; the map side of a worker, its output and its bucket hash; and the applications
    that count the workers that run at once.
  \<^item> \<open>Shard_Clerk\<close>, \<open>Kv_Servers\<close> (\<open>shardctrler/\<close>, \<open>shardkv/\<close>, \<open>kvraft/\<close>): configurations and the retrying
    clerks, with the locale \<open>config_source\<close> between the two; what they return and when; starting
    and stopping the servers, with the locale \<open>raft_server\<close> shared by all three.
  \<^item> \<open>Harness_Links\<close>: the table of end names that every tester keeps, and which ends its loops leave
    enabled. \<open>Raft_Harness\<close>, \<open>Raft_Harness_Inv\<close> (\<open>raft/config.go\<close>): the tester of Raft with its
    appliers, which accept exactly the consistent and gapless deliveries, and its runs as a step
    relation, in which messages pass exactly between connected peers and crashed instances stay
    silent.
  \<^item> \<open>Service_Harness\<close>, \<open>Service_Harness_Inv\<close> (\<open>kvraft/config.go\<close>), \<open>Ctrler_Harness\<close>
    (\<open>shardctrler/config.go\<close>), \<open>Shardkv_Harness\<close> (\<open>shardkv/config.go\<close>): the testers of the services.
    Partitions connect exactly the servers of the same side and put the leader into the minority;
    shutting down and restarting keeps what was persisted, proved once in \<open>raft_server\<close>.
  \<^item> \<open>Labgob\<close> (\<open>labgob/labgob.go\<close>): the walk over types, which ends on recursive ones and complains
    once for each lower-case field, and the walk over values before decoding.
  \<^item> \<open>Porc_Visual\<close> (\<open>porcupine/visualization.go\<close>): the data computed for the page.
  \<^item> \<open>Main_Drivers\<close> (\<open>main/diskvd.go\<close>, \<open>lockc.go\<close>, \<open>lockd.go\<close>, \<open>pbc.go\<close>, \<open>pbd.go\<close>, \<open>viewd.go\<close>): what the
    command lines of the older services ask for, with a round trip for the options of \<open>diskvd\<close>.

  \<^bold>\<open>Findings.\<close> Several theorems state behaviour the code does not intend: a leader elected in a term
  that has passed, a late append that removes a committed entry, which another leader then
  overwrites, an installed snapshot in front of entries that do not follow it, panics at a
  snapshot boundary, a goroutine that waits forever to report a reply, a check of an empty
  history that never returns, a coordinator that hands out the first task forever, a sharded
  clerk that never returns against the unfinished controller, a decoder that panics where it
  should warn, a driver that takes a malformed number for 0, and testers that only work for some
  group sizes.

  \<^bold>\<open>Not modelled.\<close> The HTML page of \<open>porcupine/visualization.go\<close>, which is text with a script in
  another language, and its writing; the packages behind the drivers in \<open>main/\<close>, which are not in
  the repository; \<open>encoding/gob\<close> itself; and the test files. Of the testers, the seeds are
  arguments, and the states their polls see are given, since goroutines change them meanwhile. A
  timer may fire at any time; its length is modelled only where the code compares it.
\<close>

end
